(* ===== verification/Prelude.thy ===== *)
theory Prelude
  imports Main "HOL-Library.Word"
begin

text \<open>
  Shared material of the development: the errors a C++ statement can end in, the
  result type of fallible code, byte blocks read and written by offset, and the
  results of the two system calls \<open>read\<close> and \<open>write\<close>.
\<close>

named_theorems slice_simps "slices of a byte block after a write"
named_theorems wf_intros "preservation of the components' well-formedness"
named_theorems spec_simps "exact results of the components' operations"

section \<open>Errors\<close>

text \<open>
  What ends a piece of the program other than by returning.
  \<^item> \<open>Assert_abort\<close>: a C \<open>assert\<close> fails, the process aborts;
  \<^item> \<open>Runtime_error\<close>: \<open>assertm\<close> (src/src/base/base.cpp) throws \<open>std::runtime_error\<close>;
  \<^item> \<open>Length_error\<close>: a \<open>std::string\<close> is built with an impossible length;
  \<^item> \<open>Invalid_argument\<close>, \<open>Out_of_range\<close>: the exceptions of \<open>std::stoi\<close>;
  \<^item> \<open>Wild_read\<close>: bytes outside the initialised part of a block are read;
  \<^item> \<open>Dead_object\<close>: an object that was destroyed, or never existed, is used;
  \<^item> \<open>Empty_function\<close>: an empty \<open>std::function\<close> is called;
  \<^item> \<open>Self_deadlock\<close>: a thread locks a \<open>std::mutex\<close> it already holds;
  \<^item> \<open>Never_returns\<close>: a call loops for ever;
  \<^item> \<open>Terminate\<close>: \<open>std::terminate\<close>, a \<open>std::thread\<close> is assigned over a joinable one.
\<close>

datatype cerror =
    Assert_abort
  | Runtime_error
  | Length_error
  | Invalid_argument
  | Out_of_range
  | Wild_read
  | Dead_object
  | Empty_function
  | Self_deadlock
  | Never_returns
  | Terminate

type_synonym 'a res = "cerror + 'a"

definition bind_res :: "'a res \<Rightarrow> ('a \<Rightarrow> 'b res) \<Rightarrow> 'b res" where
  "bind_res r f = (case r of Inl e \<Rightarrow> Inl e | Inr x \<Rightarrow> f x)"

lemma bind_res_simps [simp]:
  "bind_res (Inl e) f = Inl e"
  "bind_res (Inr x) f = f x"
  by (simp_all add: bind_res_def)

lemma bind_res_Inr_iff:
  "bind_res r f = Inr y \<longleftrightarrow> (\<exists>x. r = Inr x \<and> f x = Inr y)"
  by (cases r) auto

lemma bind_res_assoc: "bind_res (bind_res r f) g = bind_res r (\<lambda>x. bind_res (f x) g)"
  by (cases r) auto

text \<open>\<open>assert(b)\<close> of the C library, in a build without \<open>NDEBUG\<close>.\<close>

definition c_assert :: "bool \<Rightarrow> unit res" where
  "c_assert b = (if b then Inr () else Inl Assert_abort)"

lemma c_assert_simps [simp]:
  "c_assert True = Inr ()"
  "c_assert False = Inl Assert_abort"
  by (simp_all add: c_assert_def)

text \<open>\<open>assertm(b)\<close> of src/src/base/base.cpp: it throws, and the exception is not caught anywhere.\<close>

definition assertm :: "bool \<Rightarrow> unit res" where
  "assertm b = (if b then Inr () else Inl Runtime_error)"

lemma assertm_simps [simp]:
  "assertm True = Inr ()"
  "assertm False = Inl Runtime_error"
  by (simp_all add: assertm_def)

section \<open>Byte blocks\<close>

definition slice :: "nat \<Rightarrow> nat \<Rightarrow> 'a list \<Rightarrow> 'a list" where
  "slice off len xs = take len (drop off xs)"

definition overwrite :: "nat \<Rightarrow> 'a list \<Rightarrow> 'a list \<Rightarrow> 'a list" where
  "overwrite off ys xs = take off xs @ ys @ drop (off + length ys) xs"

lemma slice_zero [simp]: "slice off 0 xs = []"
  by (simp add: slice_def)

lemma slice_nil [simp]: "slice off len [] = []"
  by (simp add: slice_def)

lemma slice_all [simp]: "slice 0 (length xs) xs = xs"
  by (simp add: slice_def)

lemma length_slice [simp]: "length (slice off len xs) = min len (length xs - off)"
  by (simp add: slice_def)

lemma length_overwrite [simp]:
  "off \<le> length xs \<Longrightarrow>
    length (overwrite off ys xs) = max (length xs) (off + length ys)"
  by (simp add: overwrite_def)

lemma slice_append_left [slice_simps]:
  "off + len \<le> length xs \<Longrightarrow> slice off len (xs @ ys) = slice off len xs"
  by (simp add: slice_def)

lemma slice_append_mid [simp]:
  "off = length xs \<Longrightarrow> len = length ys \<Longrightarrow> slice off len (xs @ ys @ zs) = ys"
  by (simp add: slice_def)

lemma slice_split: "slice off (m + n) xs = slice off m xs @ slice (off + m) n xs"
  by (simp add: slice_def take_add add.commute)

lemma slice_overwrite_before [slice_simps]:
  assumes "a + len \<le> off" and "off \<le> length xs"
  shows "slice a len (overwrite off ys xs) = slice a len xs"
proof -
  have "slice a len (overwrite off ys xs) = slice a len (take off xs)"
    unfolding overwrite_def by (rule slice_append_left) (use assms in simp)
  also have "\<dots> = slice a len (take off xs @ drop off xs)"
    by (rule slice_append_left [symmetric]) (use assms in simp)
  finally show ?thesis by simp
qed

lemma slice_overwrite_same [slice_simps]:
  "off \<le> length xs \<Longrightarrow> slice off (length ys) (overwrite off ys xs) = ys"
  by (simp add: overwrite_def)

lemma slice_overwrite_extend [slice_simps]:
  assumes "a \<le> off" and "off \<le> length xs"
  shows "slice a (off + length ys - a) (overwrite off ys xs) = slice a (off - a) xs @ ys"
proof -
  have split: "off + length ys - a = (off - a) + length ys" and at: "a + (off - a) = off"
    using assms(1) by simp_all
  have "slice a (off + length ys - a) (overwrite off ys xs)
      = slice a (off - a) (overwrite off ys xs) @ slice off (length ys) (overwrite off ys xs)"
    unfolding split slice_split by (simp only: at)
  then show ?thesis
    using assms by (simp add: slice_overwrite_before slice_overwrite_same)
qed

text \<open>
  \<open>std::string(ptr, n)\<close> for a pointer at \<open>off\<close> bytes from the start of a block.
  The length is an \<open>int\<close> converted to \<open>size_t\<close>: a negative one is larger than any
  string can be and throws before a byte is read.
\<close>

definition cstring :: "string \<Rightarrow> int \<Rightarrow> int \<Rightarrow> string res" where
  "cstring mem off len =
     (if len < 0 then Inl Length_error
      else if len = 0 then Inr []
      else if off < 0 \<or> int (length mem) < off + len then Inl Wild_read
      else Inr (slice (nat off) (nat len) mem))"

lemma cstring_ok:
  "0 \<le> off \<Longrightarrow> 0 \<le> len \<Longrightarrow> off + len \<le> int (length mem) \<Longrightarrow>
     cstring mem off len = Inr (slice (nat off) (nat len) mem)"
  by (auto simp: cstring_def)

lemma cstring_mid:
  "off = int (length xs) \<Longrightarrow> len = int (length ys) \<Longrightarrow>
     cstring (xs @ ys @ zs) off len = Inr ys"
  by (auto simp: cstring_def)

section \<open>Results of system calls\<close>

text \<open>
  One call of \<open>read\<close> or \<open>write\<close>: the bytes the kernel hands over, the number it takes,
  or a failure with its \<open>errno\<close>. Both calls transfer at most the count they are given;
  an environment may offer any result, and \<open>sys_read\<close> and \<open>sys_write\<close> cut it to the
  count, which is how every result the kernel can return is obtained.
\<close>

datatype errno = EAGAIN | EINTR | ECONNRESET | EPIPE | EOTHER

datatype read_res = Read_data string | Read_fail errno

datatype write_res = Write_count nat | Write_fail errno

definition sys_read :: "nat \<Rightarrow> read_res \<Rightarrow> read_res" where
  "sys_read count r = (case r of Read_data bs \<Rightarrow> Read_data (take count bs) | Read_fail e \<Rightarrow> Read_fail e)"

definition sys_write :: "nat \<Rightarrow> write_res \<Rightarrow> write_res" where
  "sys_write count r =
     (case r of Write_count n \<Rightarrow> Write_count (min n count) | Write_fail e \<Rightarrow> Write_fail e)"

lemma sys_read_simps [simp]:
  "sys_read count (Read_data bs) = Read_data (take count bs)"
  "sys_read count (Read_fail e) = Read_fail e"
  by (simp_all add: sys_read_def)

lemma sys_write_simps [simp]:
  "sys_write count (Write_count n) = Write_count (min n count)"
  "sys_write count (Write_fail e) = Write_fail e"
  by (simp_all add: sys_write_def)

end
