(* ===== verification/Channels.thy ===== *)
theory Channels
  imports Prelude
begin

text \<open>
  Channels and the epoll poller (\<open>EventLoop::Channel\<close> of src/src/reactor/Eventloop.hpp and
  src/src/reactor/Poller.cpp). A channel is an object at an address; the table of the live
  ones stands for the heap. The interest list of the kernel is modelled as \<open>epoll_ctl\<close>
  documents it: adding a registered descriptor and changing or deleting an unregistered one
  fail, closing a descriptor removes it, and \<open>EPOLLONESHOT\<close> disarms a registration when it
  reports. The poller's state is a record other components extend with theirs. Logging is
  left out; the mutex is in \<open>EventLoop\<close>.
\<close>

section \<open>Channels\<close>

datatype event_type = READ | WRITE

record 'cb channel =
  ch_fd :: int
  is_once :: bool
  cb_arr :: "event_type \<Rightarrow> 'cb option"
  trigger_arr :: "event_type \<Rightarrow> bool"
  enable_arr :: "event_type \<Rightarrow> bool"

definition new_channel :: "int \<Rightarrow> 'cb channel res" where
  "new_channel fd =
     bind_res (assertm (0 \<le> fd)) (\<lambda>_.
     Inr \<lparr>ch_fd = fd, is_once = False, cb_arr = (\<lambda>_. None), trigger_arr = (\<lambda>_. False),
          enable_arr = (\<lambda>_. False)\<rparr>)"

definition ch_enable :: "event_type \<Rightarrow> 'cb option \<Rightarrow> 'cb channel \<Rightarrow> 'cb channel res" where
  "ch_enable et cb ch =
     bind_res (case cb of
                 None \<Rightarrow> bind_res (assertm (cb_arr ch et \<noteq> None)) (\<lambda>_. Inr ch)
               | Some f \<Rightarrow> Inr (ch\<lparr>cb_arr := (cb_arr ch)(et := Some f)\<rparr>)) (\<lambda>ch1.
     Inr (ch1\<lparr>enable_arr := (enable_arr ch1)(et := True)\<rparr>))"

definition ch_disable :: "event_type \<Rightarrow> 'cb channel \<Rightarrow> 'cb channel" where
  "ch_disable et ch = ch\<lparr>enable_arr := (enable_arr ch)(et := False)\<rparr>"

definition ch_trigger :: "event_type \<Rightarrow> bool \<Rightarrow> 'cb channel \<Rightarrow> 'cb channel" where
  "ch_trigger et b ch = ch\<lparr>trigger_arr := (trigger_arr ch)(et := b)\<rparr>"

section \<open>The poller and the kernel's interest list\<close>

text \<open>One registration: the address in \<open>data.ptr\<close>, \<open>EPOLLIN\<close>, \<open>EPOLLOUT\<close>, \<open>EPOLLONESHOT\<close>.\<close>

record interest =
  i_ptr :: nat
  i_in :: bool
  i_out :: bool
  i_oneshot :: bool

text \<open>
  \<open>event_count\<close> is \<open>event_list.size()\<close>; \<open>chans\<close> and \<open>next_addr\<close> are the heap.
\<close>

record 'cb reactor =
  fd_set :: "int set"
  event_count :: nat
  epoll :: "int \<Rightarrow> interest option"
  chans :: "nat \<Rightarrow> 'cb channel option"
  next_addr :: nat

definition wanted :: "nat \<Rightarrow> 'cb channel \<Rightarrow> interest" where
  "wanted a ch =
     \<lparr>i_ptr = a, i_in = enable_arr ch READ, i_out = enable_arr ch WRITE,
      i_oneshot = (is_once ch \<and> (enable_arr ch READ \<or> enable_arr ch WRITE))\<rparr>"

definition update_channel ::
  "nat \<Rightarrow> 'cb channel \<Rightarrow> ('cb, 'm) reactor_scheme \<Rightarrow> ('cb, 'm) reactor_scheme res" where
  "update_channel a ch st =
     (let fd = ch_fd ch
      in bind_res (if fd \<notin> fd_set st then assertm (epoll st fd = None) else assertm (epoll st fd \<noteq> None)) (\<lambda>_.
         Inr (st\<lparr>fd_set := insert fd (fd_set st), event_count := card (insert fd (fd_set st)),
                 epoll := (epoll st)(fd \<mapsto> wanted a ch)\<rparr>)))"

definition remove_channel ::
  "'cb channel \<Rightarrow> ('cb, 'm) reactor_scheme \<Rightarrow> ('cb, 'm) reactor_scheme res" where
  "remove_channel ch st =
     (let fd = ch_fd ch
      in if fd \<in> fd_set st then
           bind_res (assertm (epoll st fd \<noteq> None)) (\<lambda>_.
           Inr (st\<lparr>fd_set := fd_set st - {fd}, epoll := (epoll st)(fd := None)\<rparr>))
         else Inr st)"

section \<open>Operations on live channels\<close>

definition with_channel :: "nat \<Rightarrow> ('cb, 'm) reactor_scheme \<Rightarrow> ('cb channel \<Rightarrow> 'r res) \<Rightarrow> 'r res" where
  "with_channel a st f = (case chans st a of None \<Rightarrow> Inl Dead_object | Some ch \<Rightarrow> f ch)"

definition put_channel :: "nat \<Rightarrow> 'cb channel \<Rightarrow> ('cb, 'm) reactor_scheme \<Rightarrow> ('cb, 'm) reactor_scheme" where
  "put_channel a ch st = st\<lparr>chans := (chans st)(a \<mapsto> ch)\<rparr>"

definition get_channel :: "int \<Rightarrow> ('cb, 'm) reactor_scheme \<Rightarrow> (nat \<times> ('cb, 'm) reactor_scheme) res" where
  "get_channel fd st =
     bind_res (new_channel fd) (\<lambda>ch.
     Inr (next_addr st, put_channel (next_addr st) ch (st\<lparr>next_addr := next_addr st + 1\<rparr>)))"

definition set_once :: "nat \<Rightarrow> bool \<Rightarrow> ('cb, 'm) reactor_scheme \<Rightarrow> ('cb, 'm) reactor_scheme res" where
  "set_once a b st = with_channel a st (\<lambda>ch. Inr (put_channel a (ch\<lparr>is_once := b\<rparr>) st))"

definition enable_event ::
  "nat \<Rightarrow> event_type \<Rightarrow> 'cb option \<Rightarrow> ('cb, 'm) reactor_scheme \<Rightarrow> ('cb, 'm) reactor_scheme res" where
  "enable_event a et cb st =
     with_channel a st (\<lambda>ch.
     bind_res (ch_enable et cb ch) (\<lambda>ch1. update_channel a ch1 (put_channel a ch1 st)))"

definition disable_event :: "nat \<Rightarrow> event_type \<Rightarrow> ('cb, 'm) reactor_scheme \<Rightarrow> ('cb, 'm) reactor_scheme res" where
  "disable_event a et st =
     with_channel a st (\<lambda>ch. update_channel a (ch_disable et ch) (put_channel a (ch_disable et ch) st))"

text \<open>The destructor: out of the poller, then \<open>close\<close>, which ends the kernel's registration too.\<close>

definition destroy_channel :: "nat \<Rightarrow> ('cb, 'm) reactor_scheme \<Rightarrow> ('cb, 'm) reactor_scheme res" where
  "destroy_channel a st =
     with_channel a st (\<lambda>ch.
     bind_res (remove_channel ch st) (\<lambda>st1.
     Inr (st1\<lparr>chans := (chans st1)(a := None), epoll := (epoll st1)(ch_fd ch := None)\<rparr>)))"

section \<open>Waiting for events\<close>

text \<open>
  What the descriptors are ready for when \<open>epoll_wait\<close> looks at them, in the order it looks.
  It reports what a registration asks for, as many registrations as fit, and disarms the
  one-shot ones. \<open>EPOLLERR\<close> and \<open>EPOLLHUP\<close> alone trigger nothing in the code and are left out.
\<close>

type_synonym readiness = "int \<times> bool \<times> bool"
type_synonym report = "nat \<times> bool \<times> bool"

definition report_of :: "(int \<Rightarrow> interest option) \<Rightarrow> readiness \<Rightarrow> report option" where
  "report_of ep x =
     (case x of (fd, r, w) \<Rightarrow>
      (case ep fd of
         None \<Rightarrow> None
       | Some i \<Rightarrow> if i_in i \<and> r \<or> i_out i \<and> w then Some (i_ptr i, i_in i \<and> r, i_out i \<and> w) else None))"

definition disarm :: "readiness \<Rightarrow> (int \<Rightarrow> interest option) \<Rightarrow> int \<Rightarrow> interest option" where
  "disarm x ep =
     (case ep (fst x) of
        None \<Rightarrow> ep
      | Some i \<Rightarrow> if report_of ep x \<noteq> None \<and> i_oneshot i
                 then ep(fst x \<mapsto> i\<lparr>i_in := False, i_out := False\<rparr>) else ep)"

fun epoll_wait :: "nat \<Rightarrow> readiness list \<Rightarrow> (int \<Rightarrow> interest option) \<Rightarrow> report list \<times> (int \<Rightarrow> interest option)" where
  "epoll_wait n [] ep = ([], ep)"
| "epoll_wait 0 (x # xs) ep = ([], ep)"
| "epoll_wait (Suc n) (x # xs) ep =
     (case report_of ep x of
        None \<Rightarrow> epoll_wait (Suc n) xs ep
      | Some e \<Rightarrow> (let (es, ep') = epoll_wait n xs (disarm x ep) in (e # es, ep')))"

text \<open>
  A callback is user code; its effect on the whole state is the parameter \<open>run\<close>. It may
  change or destroy channels, its own among them: the flag is cleared after the call, on an
  object that may be gone.
\<close>

type_synonym ('cb, 'm) run_cb = "'cb \<Rightarrow> ('cb, 'm) reactor_scheme \<Rightarrow> ('cb, 'm) reactor_scheme res"

definition channel_event :: "('cb, 'm) run_cb \<Rightarrow> nat \<Rightarrow> event_type \<Rightarrow> ('cb, 'm) reactor_scheme \<Rightarrow> ('cb, 'm) reactor_scheme res" where
  "channel_event run a et st =
     with_channel a st (\<lambda>ch.
     if trigger_arr ch et then
       (case cb_arr ch et of
          None \<Rightarrow> Inl Empty_function
        | Some cb \<Rightarrow> bind_res (run cb st) (\<lambda>st1.
            with_channel a st1 (\<lambda>ch1. Inr (put_channel a (ch_trigger et False ch1) st1))))
     else Inr st)"

definition channel_events :: "('cb, 'm) run_cb \<Rightarrow> nat \<Rightarrow> ('cb, 'm) reactor_scheme \<Rightarrow> ('cb, 'm) reactor_scheme res" where
  "channel_events run a st = bind_res (channel_event run a READ st) (channel_event run a WRITE)"

definition dispatch :: "('cb, 'm) run_cb \<Rightarrow> report \<Rightarrow> ('cb, 'm) reactor_scheme \<Rightarrow> ('cb, 'm) reactor_scheme res" where
  "dispatch run e st =
     (case e of (a, r, w) \<Rightarrow>
      with_channel a st (\<lambda>ch.
      (let ch1 = (if r then ch_trigger READ True ch else ch);
           ch2 = (if w then ch_trigger WRITE True ch1 else ch1)
       in channel_events run a (put_channel a ch2 st))))"

text \<open>
  The loop over the reports: the \<open>i\<close>th is read from the event list, which a callback may have cut
  by then. (A list that is cut and grows again within one callback is not told apart.)
\<close>

primrec dispatch_all :: "('cb, 'm) run_cb \<Rightarrow> nat \<Rightarrow> report list \<Rightarrow> ('cb, 'm) reactor_scheme \<Rightarrow> ('cb, 'm) reactor_scheme res" where
  "dispatch_all run i [] st = Inr st"
| "dispatch_all run i (e # es) st =
     (if i < event_count st then bind_res (dispatch run e st) (dispatch_all run (i + 1) es) else Inl Wild_read)"

text \<open>
  \<open>poll\<close>. With no ready descriptor (the time-out) or a failing \<open>epoll_wait\<close> it does nothing:
  \<open>EINTR\<close> returns, and \<open>assertm(-1)\<close> in the other case does not throw.
\<close>

definition poll :: "('cb, 'm) run_cb \<Rightarrow> readiness list \<Rightarrow> ('cb, 'm) reactor_scheme \<Rightarrow> ('cb, 'm) reactor_scheme res" where
  "poll run ready st =
     (let (es, ep) = epoll_wait (event_count st) ready (epoll st)
      in dispatch_all run 0 es (st\<lparr>epoll := ep\<rparr>))"

text \<open>Operations on channels leave the rest of the state alone.\<close>

lemma more_put_channel [simp]: "reactor.more (put_channel a ch st) = reactor.more st"
  by (simp add: put_channel_def)

lemma more_get_channel: "get_channel fd st = Inr (a, st') \<Longrightarrow> reactor.more st' = reactor.more st"
  by (auto simp: get_channel_def bind_res_Inr_iff)

lemma more_set_once: "set_once a b st = Inr st' \<Longrightarrow> reactor.more st' = reactor.more st"
  by (auto simp: set_once_def with_channel_def split: option.splits)

lemma more_update_channel: "update_channel a ch st = Inr st' \<Longrightarrow> reactor.more st' = reactor.more st"
  by (auto simp: update_channel_def Let_def bind_res_Inr_iff split: if_splits)

lemma more_enable_event: "enable_event a et cb st = Inr st' \<Longrightarrow> reactor.more st' = reactor.more st"
  by (auto simp: enable_event_def with_channel_def bind_res_Inr_iff dest: more_update_channel split: option.splits)

lemma more_destroy_channel: "destroy_channel a st = Inr st' \<Longrightarrow> reactor.more st' = reactor.more st"
  by (auto simp: destroy_channel_def remove_channel_def with_channel_def bind_res_Inr_iff Let_def
      split: option.splits if_splits)

section \<open>The poller mirrors the channels\<close>

text \<open>What users of channels do; the descriptor of a new channel is one no live channel has.\<close>

datatype 'cb channel_op =
    Op_get int bool
  | Op_enable nat event_type "'cb option"
  | Op_disable nat event_type
  | Op_destroy nat

definition do_op :: "'cb channel_op \<Rightarrow> ('cb, 'm) reactor_scheme \<Rightarrow> ('cb, 'm) reactor_scheme res" where
  "do_op op st =
     (case op of
        Op_get fd once \<Rightarrow> bind_res (get_channel fd st) (\<lambda>(a, st1). set_once a once st1)
      | Op_enable a et cb \<Rightarrow> enable_event a et cb st
      | Op_disable a et \<Rightarrow> disable_event a et st
      | Op_destroy a \<Rightarrow> destroy_channel a st)"

definition op_ok :: "('cb, 'm) reactor_scheme \<Rightarrow> 'cb channel_op \<Rightarrow> bool" where
  "op_ok st op =
     (case op of
        Op_get fd once \<Rightarrow> 0 \<le> fd \<and> (\<forall>a ch. chans st a = Some ch \<longrightarrow> ch_fd ch \<noteq> fd)
      | Op_enable a et cb \<Rightarrow> (\<exists>ch. chans st a = Some ch \<and> (cb = None \<longrightarrow> cb_arr ch et \<noteq> None))
      | Op_disable a et \<Rightarrow> chans st a \<noteq> None
      | Op_destroy a \<Rightarrow> chans st a \<noteq> None)"

text \<open>A registration asks for what its channel enables, or is one-shot and has reported.\<close>

definition mirrors :: "nat \<Rightarrow> 'cb channel \<Rightarrow> interest \<Rightarrow> bool" where
  "mirrors a ch i \<longleftrightarrow> i = wanted a ch
     \<or> i_oneshot (wanted a ch) \<and> i = (wanted a ch)\<lparr>i_in := False, i_out := False\<rparr>"

definition channel_ok :: "('cb, 'm) reactor_scheme \<Rightarrow> nat \<Rightarrow> 'cb channel \<Rightarrow> bool" where
  "channel_ok st a ch \<longleftrightarrow> a < next_addr st \<and> 0 \<le> ch_fd ch
     \<and> (\<forall>et. enable_arr ch et \<longrightarrow> cb_arr ch et \<noteq> None)
     \<and> (case epoll st (ch_fd ch) of None \<Rightarrow> \<forall>et. \<not> enable_arr ch et | Some i \<Rightarrow> mirrors a ch i)"

definition live_fds :: "('cb, 'm) reactor_scheme \<Rightarrow> int set" where
  "live_fds st = {fd. \<exists>a ch. chans st a = Some ch \<and> ch_fd ch = fd}"

definition reactor_inv :: "('cb, 'm) reactor_scheme \<Rightarrow> bool" where
  "reactor_inv st \<longleftrightarrow> fd_set st = dom (epoll st) \<and> finite (dom (epoll st))
     \<and> card (dom (epoll st)) \<le> event_count st \<and> dom (epoll st) \<subseteq> live_fds st
     \<and> (\<forall>a b ca cb. chans st a = Some ca \<longrightarrow> chans st b = Some cb \<longrightarrow> ch_fd ca = ch_fd cb \<longrightarrow> a = b)
     \<and> (\<forall>a ch. chans st a = Some ch \<longrightarrow> channel_ok st a ch)"

lemmas op_defs = do_op_def get_channel_def set_once_def enable_event_def disable_event_def
  destroy_channel_def with_channel_def put_channel_def new_channel_def update_channel_def
  remove_channel_def ch_enable_def ch_disable_def

definition new_reactor :: "'cb reactor" where
  "new_reactor = \<lparr>fd_set = {}, event_count = 0, epoll = (\<lambda>_. None), chans = (\<lambda>_. None), next_addr = 0\<rparr>"

lemma inv_sets:
  assumes "reactor_inv st"
  shows "fd_set st = dom (epoll st)" "finite (dom (epoll st))"
    "card (dom (epoll st)) \<le> event_count st" "dom (epoll st) \<subseteq> live_fds st"
  using assms unfolding reactor_inv_def by simp_all

lemma reactor_invI:
  assumes "fd_set st = dom (epoll st)" and "finite (dom (epoll st))"
    and "card (dom (epoll st)) \<le> event_count st" and "dom (epoll st) \<subseteq> live_fds st"
    and "\<And>a b ca cb. chans st a = Some ca \<Longrightarrow> chans st b = Some cb \<Longrightarrow> ch_fd ca = ch_fd cb \<Longrightarrow> a = b"
    and "\<And>a ch. chans st a = Some ch \<Longrightarrow> channel_ok st a ch"
  shows "reactor_inv st"
  unfolding reactor_inv_def using assms(1-4) assms(5,6) by simp

lemma inv_owner:
  "reactor_inv st \<Longrightarrow> chans st a = Some ca \<Longrightarrow> chans st b = Some cb \<Longrightarrow> ch_fd ca = ch_fd cb \<Longrightarrow> a = b"
  by (simp add: reactor_inv_def)

lemma inv_channel: "reactor_inv st \<Longrightarrow> chans st a = Some ch \<Longrightarrow> channel_ok st a ch"
  by (simp add: reactor_inv_def)

lemma inv_new: "reactor_inv new_reactor"
  by (simp add: reactor_inv_def new_reactor_def)

lemma mirrors_wanted [simp]: "mirrors a ch (wanted a ch)"
  by (simp add: mirrors_def)

lemma live_fdsI: "chans st a = Some ch \<Longrightarrow> ch_fd ch \<in> live_fds st"
  by (auto simp: live_fds_def)

lemma live_fdsE: "fd \<in> live_fds st \<Longrightarrow> (\<And>a ch. chans st a = Some ch \<Longrightarrow> ch_fd ch = fd \<Longrightarrow> P) \<Longrightarrow> P"
  by (auto simp: live_fds_def)

text \<open>The descriptors in use when one object is put at an address.\<close>

lemma live_fds_put:
  assumes "chans st' = (chans st)(a \<mapsto> ch')" and "\<And>ch. chans st a = Some ch \<Longrightarrow> ch_fd ch = ch_fd ch'"
  shows "live_fds st' = insert (ch_fd ch') (live_fds st)"
proof -
  have "chans st' a = Some ch'" and other: "\<And>b. b \<noteq> a \<Longrightarrow> chans st' b = chans st b"
    using assms(1) by simp_all
  moreover have "fd = ch_fd ch' \<or> fd \<in> live_fds st" if "fd \<in> live_fds st'" for fd
    using that other assms(1) by (auto simp: live_fds_def split: if_splits)
  moreover have "fd \<in> live_fds st'" if "fd \<in> live_fds st" for fd
    using that
  proof (rule live_fdsE)
    fix b ch assume "chans st b = Some ch" "ch_fd ch = fd"
    then show ?thesis
      using assms(2) [of ch] other [of b] live_fdsI [of st' a ch'] live_fdsI [of st' b ch] calculation(1)
      by (cases "b = a") simp_all
  qed
  ultimately show ?thesis using live_fdsI [of st' a ch'] by blast
qed

text \<open>Registering a live channel, after a change of what it enables or calls.\<close>

lemma update_live:
  assumes inv: "reactor_inv st" and live: "chans st a = Some ch"
    and same: "ch_fd ch' = ch_fd ch" and cbs: "\<And>et. enable_arr ch' et \<Longrightarrow> cb_arr ch' et \<noteq> None"
  shows "\<exists>st'. update_channel a ch' (put_channel a ch' st) = Inr st' \<and> reactor_inv st'
    \<and> chans st' = (chans st)(a \<mapsto> ch') \<and> epoll st' (ch_fd ch) = Some (wanted a ch')
    \<and> next_addr st' = next_addr st"
proof -
  let ?fd = "ch_fd ch"
  let ?st = "st\<lparr>fd_set := insert ?fd (fd_set st), event_count := card (insert ?fd (fd_set st)),
     epoll := (epoll st)(?fd \<mapsto> wanted a ch'), chans := (chans st)(a \<mapsto> ch')\<rparr>"
  have dom: "fd_set st = dom (epoll st)" using inv by (simp add: reactor_inv_def)
  have eq: "update_channel a ch' (put_channel a ch' st) = Inr ?st"
    using dom by (auto simp: update_channel_def put_channel_def same Let_def)
  have own: "b = a" if "chans st b = Some cb" "ch_fd cb = ?fd" for b cb
    by (rule inv_owner [OF inv that(1) live that(2)])
  have ok: "channel_ok st b cb" if "chans st b = Some cb" for b cb
    by (rule inv_channel [OF inv that])
  have "live_fds ?st = insert (ch_fd ch') (live_fds st)"
    by (rule live_fds_put) (use live same in auto)
  then have live': "live_fds ?st = insert ?fd (live_fds st)" by (simp only: same)
  have "reactor_inv ?st"
  proof (rule reactor_invI)
    show "fd_set ?st = dom (epoll ?st)" "finite (dom (epoll ?st))"
      "card (dom (epoll ?st)) \<le> event_count ?st"
      using inv_sets [OF inv] by simp_all
    show "dom (epoll ?st) \<subseteq> live_fds ?st" using inv_sets(4) [OF inv] live' by auto
  next
    fix b cb assume b: "chans ?st b = Some cb"
    show "channel_ok ?st b cb"
    proof (cases "b = a")
      case True
      then have "cb = ch'" using b by simp
      then show ?thesis using ok [OF live] cbs True by (simp add: channel_ok_def same)
    next
      case False
      then have "chans st b = Some cb" "ch_fd cb \<noteq> ?fd" using b own by auto
      then show ?thesis using ok [of b cb] by (simp add: channel_ok_def)
    qed
  next
    fix b c cb cc assume "chans ?st b = Some cb" "chans ?st c = Some cc" "ch_fd cb = ch_fd cc"
    moreover have "\<exists>c0. chans st x = Some c0 \<and> ch_fd c0 = ch_fd cx" if "chans ?st x = Some cx" for x cx
      using that live same by (cases "x = a") simp_all
    ultimately obtain b0 c0 where "chans st b = Some b0" "ch_fd b0 = ch_fd cb"
      "chans st c = Some c0" "ch_fd c0 = ch_fd cc" by blast
    then show "b = c" using inv_owner [OF inv] \<open>ch_fd cb = ch_fd cc\<close> by simp
  qed
  then show ?thesis using eq by simp
qed

lemma enable_live:
  assumes "reactor_inv st" and "chans st a = Some ch" and "cb = None \<longrightarrow> cb_arr ch et \<noteq> None"
  defines "ch' \<equiv> ch\<lparr>cb_arr := (cb_arr ch)(et := (if cb = None then cb_arr ch et else cb)),
     enable_arr := (enable_arr ch)(et := True)\<rparr>"
  shows "\<exists>st'. enable_event a et cb st = Inr st' \<and> reactor_inv st' \<and> chans st' = (chans st)(a \<mapsto> ch')
    \<and> epoll st' (ch_fd ch) = Some (wanted a ch') \<and> next_addr st' = next_addr st"
proof -
  have "channel_ok st a ch" using assms(1,2) by (simp add: reactor_inv_def)
  moreover have "ch_enable et cb ch = Inr ch'"
    using assms(3) by (auto simp: ch_enable_def ch'_def split: option.split)
  ultimately show ?thesis
    using update_live [OF assms(1,2), of ch'] assms(2,3)
    by (auto simp: enable_event_def with_channel_def ch'_def channel_ok_def split: if_splits)
qed

lemma disable_live:
  assumes "reactor_inv st" and "chans st a = Some ch"
  shows "\<exists>st'. disable_event a et st = Inr st' \<and> reactor_inv st' \<and> chans st' = (chans st)(a \<mapsto> ch_disable et ch)
    \<and> epoll st' (ch_fd ch) = Some (wanted a (ch_disable et ch))"
proof -
  have "channel_ok st a ch" using assms by (simp add: reactor_inv_def)
  then have "cb_arr (ch_disable et ch) e \<noteq> None" if "enable_arr (ch_disable et ch) e" for e
    using that by (auto simp: ch_disable_def channel_ok_def split: if_splits)
  then show ?thesis
    using update_live [OF assms, of "ch_disable et ch"] assms(2)
    by (auto simp: disable_event_def with_channel_def ch_disable_def)
qed

lemma get_fresh:
  assumes inv: "reactor_inv st" and "op_ok st (Op_get fd once)"
  defines "ch \<equiv> \<lparr>ch_fd = fd, is_once = once, cb_arr = (\<lambda>_. None), trigger_arr = (\<lambda>_. False),
     enable_arr = (\<lambda>_. False)\<rparr>"
  shows "\<exists>st'. do_op (Op_get fd once) st = Inr st' \<and> reactor_inv st'
    \<and> chans st' = (chans st)(next_addr st \<mapsto> ch) \<and> epoll st' = epoll st"
proof -
  let ?a = "next_addr st"
  let ?st = "st\<lparr>next_addr := ?a + 1, chans := (chans st)(?a \<mapsto> ch)\<rparr>"
  have fd: "0 \<le> fd" and new: "\<And>a c. chans st a = Some c \<Longrightarrow> ch_fd c \<noteq> fd"
    using assms(2) by (auto simp: op_ok_def)
  have ok: "channel_ok st b cb" if "chans st b = Some cb" for b cb
    by (rule inv_channel [OF inv that])
  have free: "chans st ?a = None" using ok by (cases "chans st ?a") (auto simp: channel_ok_def)
  have "fd \<notin> live_fds st" using new by (auto simp: live_fds_def)
  then have unused: "fd \<notin> dom (epoll st)" using inv_sets(4) [OF inv] by auto
  have live': "live_fds ?st = insert fd (live_fds st)"
    using live_fds_put [of ?st st ?a ch, OF _] free by (simp add: ch_def)
  have "reactor_inv ?st"
  proof (rule reactor_invI)
    show "fd_set ?st = dom (epoll ?st)" "finite (dom (epoll ?st))"
      "card (dom (epoll ?st)) \<le> event_count ?st"
      using inv_sets [OF inv] by simp_all
    show "dom (epoll ?st) \<subseteq> live_fds ?st" using inv_sets(4) [OF inv] live' by auto
  next
    fix b cb assume "chans ?st b = Some cb"
    then show "channel_ok ?st b cb"
      using ok [of b cb] fd unused by (auto simp: channel_ok_def ch_def domIff split: if_splits)
  next
    fix b c cb cc assume "chans ?st b = Some cb" "chans ?st c = Some cc" "ch_fd cb = ch_fd cc"
    then show "b = c"
      using new [of b cb] new [of c cc] inv_owner [OF inv, of b cb c cc]
      by (cases "b = ?a"; cases "c = ?a") (auto simp: ch_def)
  qed
  moreover have "do_op (Op_get fd once) st = Inr ?st"
    using fd by (simp add: do_op_def get_channel_def new_channel_def set_once_def with_channel_def
        put_channel_def ch_def)
  ultimately show ?thesis by simp
qed

lemma destroy_live:
  assumes inv: "reactor_inv st" and live: "chans st a = Some ch"
  shows "\<exists>st'. destroy_channel a st = Inr st' \<and> reactor_inv st' \<and> chans st' = (chans st)(a := None)
    \<and> epoll st' = (epoll st)(ch_fd ch := None)"
proof -
  let ?st = "st\<lparr>fd_set := fd_set st - {ch_fd ch}, chans := (chans st)(a := None),
     epoll := (epoll st)(ch_fd ch := None)\<rparr>"
  have own: "b = a" if "chans st b = Some cb" "ch_fd cb = ch_fd ch" for b cb
    by (rule inv_owner [OF inv that(1) live that(2)])
  note sets = inv_sets [OF inv]
  have "reactor_inv ?st"
  proof (rule reactor_invI)
    show "fd_set ?st = dom (epoll ?st)" "finite (dom (epoll ?st))" using sets by simp_all
    show "card (dom (epoll ?st)) \<le> event_count ?st"
      using sets(3) card_Diff1_le [of "dom (epoll st)" "ch_fd ch"] by simp
    show "dom (epoll ?st) \<subseteq> live_fds ?st"
    proof
      fix fd assume "fd \<in> dom (epoll ?st)"
      then have "fd \<in> live_fds st" "fd \<noteq> ch_fd ch" using sets(4) by (auto split: if_splits)
      then obtain b cb where "chans st b = Some cb" "ch_fd cb = fd" by (blast elim: live_fdsE)
      moreover have "b \<noteq> a" using calculation live \<open>fd \<noteq> ch_fd ch\<close> by auto
      ultimately show "fd \<in> live_fds ?st" using live_fdsI [of ?st b cb] by simp
    qed
  next
    fix b cb assume "chans ?st b = Some cb"
    then have "b \<noteq> a" "chans st b = Some cb" by (auto split: if_splits)
    then show "channel_ok ?st b cb"
      using own [of b cb] inv_channel [OF inv, of b cb] by (auto simp: channel_ok_def)
  next
    fix b c cb cc assume "chans ?st b = Some cb" "chans ?st c = Some cc" "ch_fd cb = ch_fd cc"
    then show "b = c" using inv_owner [OF inv, of b cb c cc] by (auto split: if_splits)
  qed
  moreover have "destroy_channel a st = Inr ?st"
    using live sets(1) by (auto simp: destroy_channel_def with_channel_def remove_channel_def Let_def)
  ultimately show ?thesis by simp
qed

lemma do_op_inv:
  assumes "reactor_inv st" and "op_ok st op"
  shows "\<exists>st'. do_op op st = Inr st' \<and> reactor_inv st'"
proof (cases op)
  case (Op_get fd once)
  then show ?thesis using get_fresh [OF assms(1)] assms(2) by blast
next
  case (Op_enable a et cb)
  then obtain ch where "chans st a = Some ch" "cb = None \<longrightarrow> cb_arr ch et \<noteq> None"
    using assms(2) by (auto simp: op_ok_def)
  then show ?thesis using enable_live [OF assms(1)] Op_enable by (simp add: do_op_def) blast
next
  case (Op_disable a et)
  then obtain ch where "chans st a = Some ch" using assms(2) by (auto simp: op_ok_def)
  then show ?thesis using disable_live [OF assms(1)] Op_disable by (simp add: do_op_def) blast
next
  case (Op_destroy a)
  then obtain ch where "chans st a = Some ch" using assms(2) by (auto simp: op_ok_def)
  then show ?thesis using destroy_live [OF assms(1)] Op_destroy by (simp add: do_op_def) blast
qed

section \<open>What one poll reports and calls\<close>

lemma report_of_Some:
  "report_of ep x = Some (a, r, w) \<Longrightarrow>
     \<exists>i. ep (fst x) = Some i \<and> i_ptr i = a \<and> (r \<longrightarrow> i_in i) \<and> (w \<longrightarrow> i_out i) \<and> (r \<or> w)"
  by (auto simp: report_of_def split: prod.splits option.splits if_splits)

lemma report_of_disarm: "fst y \<noteq> fst x \<Longrightarrow> report_of (disarm x ep) y = report_of ep y"
  by (auto simp: report_of_def disarm_def split: prod.splits option.splits)

definition disarmed :: "interest option \<Rightarrow> interest option \<Rightarrow> bool" where
  "disarmed r r' \<longleftrightarrow> r' = r \<or> (\<exists>i. r = Some i \<and> i_oneshot i \<and> r' = Some (i\<lparr>i_in := False, i_out := False\<rparr>))"

lemma disarmed_trans: "disarmed r r' \<Longrightarrow> disarmed r' r'' \<Longrightarrow> disarmed r r''"
  by (auto simp: disarmed_def)

lemma disarm_disarmed: "disarmed (ep fd) (disarm x ep fd)"
  by (auto simp: disarmed_def disarm_def split: option.splits)

lemma epoll_wait_disarms: "disarmed (ep fd) (snd (epoll_wait n xs ep) fd)"
proof (induction n xs ep rule: epoll_wait.induct)
  case (3 n x xs ep)
  show ?case
  proof (cases "report_of ep x")
    case None
    then show ?thesis using "3.IH"(1) by simp
  next
    case (Some e)
    then have "disarmed (disarm x ep fd) (snd (epoll_wait n xs (disarm x ep)) fd)" by (rule "3.IH"(2))
    then show ?thesis using Some disarmed_trans [OF disarm_disarmed]
      by (simp add: case_prod_beta Let_def)
  qed
qed (simp_all add: disarmed_def)

text \<open>Waiting changes only the one-shot registrations that reported, so the mirror stays.\<close>

lemma inv_wait:
  assumes inv: "reactor_inv st" and dis: "\<And>fd. disarmed (epoll st fd) (ep fd)"
  shows "reactor_inv (st\<lparr>epoll := ep\<rparr>)"
proof -
  have dom: "dom ep = dom (epoll st)"
  proof -
    have "(ep fd = None) = (epoll st fd = None)" for fd using dis [of fd] by (auto simp: disarmed_def)
    then show ?thesis by (auto simp: dom_def)
  qed
  show ?thesis
  proof (rule reactor_invI)
    show "dom (epoll (st\<lparr>epoll := ep\<rparr>)) \<subseteq> live_fds (st\<lparr>epoll := ep\<rparr>)"
      using inv_sets(4) [OF inv] by (simp add: dom live_fds_def)
  next
    fix a ch assume "chans (st\<lparr>epoll := ep\<rparr>) a = Some ch"
    then show "channel_ok (st\<lparr>epoll := ep\<rparr>) a ch"
      using inv_channel [OF inv, of a ch] dis [of "ch_fd ch"]
      by (auto simp: channel_ok_def disarmed_def mirrors_def split: option.splits)
  qed (use inv_sets [OF inv] inv_owner [OF inv] in \<open>simp_all add: dom\<close>)
qed

text \<open>With room for every report, each ready descriptor is looked at once.\<close>

lemma map_filter_report_disarm:
  "fst x \<notin> fst ` set xs \<Longrightarrow> List.map_filter (report_of (disarm x ep)) xs = List.map_filter (report_of ep) xs"
  by (induction xs) (auto simp: List.map_filter_def report_of_disarm)

lemma epoll_wait_reports:
  "distinct (map fst xs) \<Longrightarrow> length (List.map_filter (report_of ep) xs) \<le> n
     \<Longrightarrow> fst (epoll_wait n xs ep) = List.map_filter (report_of ep) xs"
proof (induction n xs ep rule: epoll_wait.induct)
  case (2 x xs ep)
  then show ?case by (auto simp: List.map_filter_def split: if_splits)
next
  case (3 n x xs ep)
  show ?case
  proof (cases "report_of ep x")
    case None
    then show ?thesis using "3.IH"(1) "3.prems" by (simp add: map_filter_simps)
  next
    case (Some e)
    then show ?thesis using "3.IH"(2) [OF Some] "3.prems"
      by (simp add: map_filter_simps case_prod_beta Let_def map_filter_report_disarm)
  qed
qed (simp add: map_filter_simps)

lemma reports_fit:
  assumes "distinct (map fst xs)" and "finite (dom ep)"
  shows "length (List.map_filter (report_of ep) xs) \<le> card (dom ep)"
proof -
  let ?ys = "filter (\<lambda>x. report_of ep x \<noteq> None) xs"
  have "length (List.map_filter (report_of ep) xs) = length (map fst ?ys)"
    by (simp add: List.map_filter_def)
  also have "\<dots> = card (set (map fst ?ys))"
    using distinct_map_filter [OF assms(1), of "\<lambda>x. report_of ep x \<noteq> None"] distinct_card by metis
  also have "\<dots> \<le> card (dom ep)"
  proof (rule card_mono [OF assms(2)])
    show "set (map fst ?ys) \<subseteq> dom ep"
      by (auto simp del: split_paired_Ex dest!: report_of_Some)
  qed
  finally show ?thesis .
qed

section \<open>The calls of one poll\<close>

text \<open>The callbacks of one report, in the order in which the channel calls them.\<close>

definition calls_of :: "(nat \<Rightarrow> 'cb channel option) \<Rightarrow> report \<Rightarrow> 'cb list" where
  "calls_of cs e =
     (case e of (a, r, w) \<Rightarrow>
      (case cs a of
         None \<Rightarrow> []
       | Some ch \<Rightarrow> (if r then [the (cb_arr ch READ)] else []) @ (if w then [the (cb_arr ch WRITE)] else [])))"

text \<open>
  Callbacks that leave the reactor alone: \<open>f\<close> is what they do to the rest of the state, where
  they may fail; \<open>act\<close> is the same for callbacks that do not.
\<close>

definition inside :: "('cb \<Rightarrow> 'm \<Rightarrow> 'm res) \<Rightarrow> ('cb, 'm) run_cb" where
  "inside f cb st = bind_res (f cb (reactor.more st)) (\<lambda>m. Inr (reactor.more_update (\<lambda>_. m) st))"

primrec run_calls :: "('cb \<Rightarrow> 'm \<Rightarrow> 'm res) \<Rightarrow> 'cb list \<Rightarrow> 'm \<Rightarrow> 'm res" where
  "run_calls f [] m = Inr m"
| "run_calls f (cb # cbs) m = bind_res (f cb m) (run_calls f cbs)"

definition outside :: "('cb \<Rightarrow> 'm \<Rightarrow> 'm) \<Rightarrow> ('cb, 'm) run_cb" where
  "outside act cb st = Inr (reactor.more_update (act cb) st)"

lemma run_calls_append [simp]: "run_calls f (xs @ ys) m = bind_res (run_calls f xs m) (run_calls f ys)"
proof (induction xs arbitrary: m)
  case (Cons cb cbs)
  show ?case by (cases "f cb m") (simp_all add: Cons)
qed simp

lemma run_calls_outside: "run_calls (\<lambda>cb m. Inr (act cb m)) cbs m = Inr (fold act cbs m)"
  by (induction cbs arbitrary: m) simp_all

lemma outside_inside: "(outside act :: ('cb, 'm) run_cb) = inside (\<lambda>cb m. Inr (act cb m))"
proof (intro ext)
  fix cb and st :: "('cb, 'm) reactor_scheme"
  show "outside act cb st = inside (\<lambda>cb m. Inr (act cb m)) cb st"
    by (cases st) (simp add: outside_def inside_def)
qed

definition flags_clear :: "('cb, 'm) reactor_scheme \<Rightarrow> bool" where
  "flags_clear st \<longleftrightarrow> (\<forall>a ch. chans st a = Some ch \<longrightarrow> trigger_arr ch = (\<lambda>_. False))"

lemma idle_channel: "trigger_arr ch = (\<lambda>_. False) \<Longrightarrow> ch\<lparr>trigger_arr := \<lambda>_. False\<rparr> = (ch :: 'cb channel)"
  by (cases ch) simp

lemma chans_put_back: "chans st a = Some ch \<Longrightarrow> put_channel a ch st = st"
  by (simp add: put_channel_def fun_upd_idem)

lemma channel_event_inside:
  assumes "chans st a = Some ch" and "trigger_arr ch et \<longrightarrow> cb_arr ch et \<noteq> None"
  shows "channel_event (inside f) a et st =
    bind_res (if trigger_arr ch et then f (the (cb_arr ch et)) (reactor.more st) else Inr (reactor.more st))
      (\<lambda>m. Inr (put_channel a (ch_trigger et False ch) (reactor.more_update (\<lambda>_. m) st)))"
proof (cases "trigger_arr ch et")
  case True
  then show ?thesis
    using assms by (auto simp: channel_event_def with_channel_def inside_def bind_res_assoc)
next
  case False
  then have "ch_trigger et False ch = ch" by (simp add: ch_trigger_def fun_upd_idem)
  moreover have "reactor.more_update (\<lambda>_. reactor.more st) st = st" by (cases st) simp
  ultimately show ?thesis using assms False by (simp add: channel_event_def with_channel_def chans_put_back)
qed

lemma put_channel_simps [simp]:
  "chans (put_channel a ch st) = (chans st)(a \<mapsto> ch)"
  "put_channel a ch (put_channel a ch' st) = put_channel a ch st"
  "epoll (put_channel a ch st) = epoll st"
  "reactor.more (put_channel a ch st) = reactor.more st"
  by (simp_all add: put_channel_def)

lemma put_channel_more: "put_channel a ch (reactor.more_update f st) = reactor.more_update f (put_channel a ch st)"
  by (simp add: put_channel_def)

lemma ch_trigger_simps [simp]:
  "trigger_arr (ch_trigger et b ch) = (trigger_arr ch)(et := b)"
  "cb_arr (ch_trigger et b ch) = cb_arr ch"
  "enable_arr (ch_trigger et b ch) = enable_arr ch"
  by (simp_all add: ch_trigger_def)

lemma dispatch_inside:
  assumes ch: "chans st a = Some ch" and clear: "trigger_arr ch = (\<lambda>_. False)"
    and cbs: "r \<longrightarrow> cb_arr ch READ \<noteq> None" "w \<longrightarrow> cb_arr ch WRITE \<noteq> None"
  shows "dispatch (inside f) (a, r, w) st =
    bind_res (run_calls f (calls_of (chans st) (a, r, w)) (reactor.more st))
      (\<lambda>m. Inr (reactor.more_update (\<lambda>_. m) st))"
proof -
  define ch2 where "ch2 = ch\<lparr>trigger_arr := (\<lambda>_. False)(READ := r, WRITE := w)\<rparr>"
  define st2 where "st2 = put_channel a ch2 st"
  let ?reads = "if r then [the (cb_arr ch READ)] else []" and ?writes = "if w then [the (cb_arr ch WRITE)] else []"
  have step1: "channel_event (inside f) a READ st2 = bind_res (run_calls f ?reads (reactor.more st))
      (\<lambda>m. Inr (put_channel a (ch_trigger READ False ch2) (reactor.more_update (\<lambda>_. m) st)))"
    using channel_event_inside [of st2 a ch2 READ f] cbs(1)
    by (cases r) (simp_all add: st2_def ch2_def put_channel_more [symmetric] bind_res_assoc)
  have step2: "channel_event (inside f) a WRITE (put_channel a (ch_trigger READ False ch2) (reactor.more_update (\<lambda>_. m) st))
      = bind_res (run_calls f ?writes m) (\<lambda>m. Inr (reactor.more_update (\<lambda>_. m) st))" for m
  proof -
    have "ch_trigger WRITE False (ch_trigger READ False ch2) = ch"
      using clear by (simp add: ch2_def ch_trigger_def fun_upd_idem fun_upd_twist)
    then show ?thesis
      using channel_event_inside [of "put_channel a (ch_trigger READ False ch2) (reactor.more_update (\<lambda>_. m) st)" a
          "ch_trigger READ False ch2" WRITE f] cbs(2) ch
      by (cases w) (simp_all add: ch2_def put_channel_more chans_put_back bind_res_assoc)
  qed
  have "dispatch (inside f) (a, r, w) st = channel_events (inside f) a st2"
    using ch clear by (cases r; cases w)
      (simp_all add: dispatch_def with_channel_def st2_def ch2_def ch_trigger_def fun_upd_idem idle_channel [OF clear])
  also have "\<dots> = bind_res (run_calls f (?reads @ ?writes) (reactor.more st)) (\<lambda>m. Inr (reactor.more_update (\<lambda>_. m) st))"
    by (simp add: channel_events_def step1 step2 bind_res_assoc)
  finally show ?thesis using ch by (simp add: calls_of_def)
qed

lemma dispatch_all_inside:
  assumes "flags_clear st" and "i + length es \<le> event_count st"
    and "\<And>a r w. (a, r, w) \<in> set es \<Longrightarrow>
      \<exists>ch. chans st a = Some ch \<and> (r \<longrightarrow> cb_arr ch READ \<noteq> None) \<and> (w \<longrightarrow> cb_arr ch WRITE \<noteq> None)"
  shows "dispatch_all (inside f) i es st =
    bind_res (run_calls f (concat (map (calls_of (chans st)) es)) (reactor.more st))
      (\<lambda>m. Inr (reactor.more_update (\<lambda>_. m) st))"
  using assms
proof (induction es arbitrary: i st)
  case Nil
  then show ?case by (cases st) simp
next
  case (Cons e es)
  obtain a r w where e: "e = (a, r, w)" by (cases e)
  then obtain ch where ch: "chans st a = Some ch" "r \<longrightarrow> cb_arr ch READ \<noteq> None" "w \<longrightarrow> cb_arr ch WRITE \<noteq> None"
    using Cons.prems(3) [of a r w] by auto
  have "dispatch (inside f) e st = bind_res (run_calls f (calls_of (chans st) e) (reactor.more st))
      (\<lambda>m. Inr (reactor.more_update (\<lambda>_. m) st))"
    unfolding e using ch Cons.prems(1) by (intro dispatch_inside [of st a ch]) (auto simp: flags_clear_def)
  moreover have "dispatch_all (inside f) (i + 1) es (reactor.more_update (\<lambda>_. m) st) =
      bind_res (run_calls f (concat (map (calls_of (chans st)) es)) m) (\<lambda>m. Inr (reactor.more_update (\<lambda>_. m) st))" for m
    using Cons.IH [of "reactor.more_update (\<lambda>_. m) st" "i + 1"] Cons.prems by (simp add: flags_clear_def comp_def)
  ultimately show ?case using Cons.prems(2) by (simp add: bind_res_assoc)
qed

text \<open>A report names a live channel and an event it enables, so a callback is there.\<close>

lemma report_live:
  assumes inv: "reactor_inv st" and rep: "report_of (epoll st) x = Some (a, r, w)"
  shows "\<exists>ch. chans st a = Some ch \<and> ch_fd ch = fst x
    \<and> (r \<longrightarrow> enable_arr ch READ \<and> cb_arr ch READ \<noteq> None) \<and> (w \<longrightarrow> enable_arr ch WRITE \<and> cb_arr ch WRITE \<noteq> None)"
proof -
  obtain i where i: "epoll st (fst x) = Some i" "i_ptr i = a" "r \<longrightarrow> i_in i" "w \<longrightarrow> i_out i"
    using report_of_Some [OF rep] by blast
  then have "fst x \<in> live_fds st" using inv_sets(4) [OF inv] by auto
  then obtain b ch where ch: "chans st b = Some ch" "ch_fd ch = fst x" by (blast elim: live_fdsE)
  then have ok: "channel_ok st b ch" and "mirrors b ch i"
    using inv_channel [OF inv ch(1)] i(1) by (simp_all add: channel_ok_def)
  then have "i_ptr i = b" "i_in i \<longrightarrow> enable_arr ch READ" "i_out i \<longrightarrow> enable_arr ch WRITE"
    by (auto simp: mirrors_def wanted_def)
  then show ?thesis using ch i ok by (auto simp: channel_ok_def)
qed

text \<open>The calls for one ready descriptor, none if it has no registration that asks for it.\<close>

definition calls_at :: "('cb, 'm) reactor_scheme \<Rightarrow> readiness \<Rightarrow> 'cb list" where
  "calls_at st x = (case report_of (epoll st) x of None \<Rightarrow> [] | Some e \<Rightarrow> calls_of (chans st) e)"

definition ready_calls :: "('cb, 'm) reactor_scheme \<Rightarrow> readiness list \<Rightarrow> 'cb list" where
  "ready_calls st ready = concat (map (calls_at st) ready)"

lemma ready_calls_eq:
  "ready_calls st ready = concat (map (calls_of (chans st)) (List.map_filter (report_of (epoll st)) ready))"
  unfolding ready_calls_def by (induction ready) (auto simp: map_filter_simps calls_at_def split: option.split)

lemma poll_inside:
  assumes inv: "reactor_inv st" and clear: "flags_clear st" and dist: "distinct (map fst ready)"
  shows "poll (inside f) ready st =
    bind_res (run_calls f (ready_calls st ready) (reactor.more st))
      (\<lambda>m. Inr (reactor.more_update (\<lambda>_. m)
          (st\<lparr>epoll := snd (epoll_wait (event_count st) ready (epoll st))\<rparr>)))"
proof -
  let ?es = "List.map_filter (report_of (epoll st)) ready"
  let ?st = "st\<lparr>epoll := snd (epoll_wait (event_count st) ready (epoll st))\<rparr>"
  have fit: "length ?es \<le> event_count st"
    using reports_fit [OF dist inv_sets(2) [OF inv]] inv_sets(3) [OF inv] by linarith
  then have "fst (epoll_wait (event_count st) ready (epoll st)) = ?es" by (rule epoll_wait_reports [OF dist])
  then have "poll (inside f) ready st = dispatch_all (inside f) 0 ?es ?st"
    by (simp add: poll_def case_prod_beta)
  also have "\<dots> = bind_res (run_calls f (concat (map (calls_of (chans ?st)) ?es)) (reactor.more ?st))
      (\<lambda>m. Inr (reactor.more_update (\<lambda>_. m) ?st))"
  proof (rule dispatch_all_inside)
    show "flags_clear ?st" using clear by (simp add: flags_clear_def)
    show "0 + length ?es \<le> event_count ?st" using fit by simp
    fix a r w assume "(a, r, w) \<in> set ?es"
    then obtain x where "report_of (epoll st) x = Some (a, r, w)"
      by (auto simp: List.map_filter_def simp del: split_paired_Ex)
    from report_live [OF inv this] show "\<exists>ch. chans ?st a = Some ch
        \<and> (r \<longrightarrow> cb_arr ch READ \<noteq> None) \<and> (w \<longrightarrow> cb_arr ch WRITE \<noteq> None)" by auto
  qed
  finally show ?thesis by (simp add: ready_calls_eq)
qed

lemma poll_calls:
  assumes "reactor_inv st" and "flags_clear st" and "distinct (map fst ready)"
  shows "poll (outside act) ready st =
    Inr (reactor.more_update (fold act (ready_calls st ready))
          (st\<lparr>epoll := snd (epoll_wait (event_count st) ready (epoll st))\<rparr>))"
  unfolding outside_inside poll_inside [OF assms] run_calls_outside by (cases st) simp

section \<open>Reachable pollers\<close>

text \<open>
  A run: operations on channels, each on an object that is alive, and waits of the loop. An
  operation that throws is no step; that none does is part of what is proved.
\<close>

inductive reactor_reach :: "'cb reactor \<Rightarrow> bool" where
  start: "reactor_reach new_reactor"
| op: "reactor_reach st \<Longrightarrow> op_ok st op \<Longrightarrow> do_op op st = Inr st' \<Longrightarrow> reactor_reach st'"
| wait: "reactor_reach st \<Longrightarrow> reactor_reach (st\<lparr>epoll := snd (epoll_wait (event_count st) ready (epoll st))\<rparr>)"

lemma reach_inv: "reactor_reach st \<Longrightarrow> reactor_inv st"
proof (induction rule: reactor_reach.induct)
  case (op st op st')
  then show ?case using do_op_inv [of st op] by auto
next
  case (wait st ready)
  then show ?case by (blast intro: inv_wait epoll_wait_disarms)
qed (rule inv_new)

lemma flags_do_op: "flags_clear st \<Longrightarrow> do_op op st = Inr st' \<Longrightarrow> flags_clear st'"
  by (auto simp: op_defs flags_clear_def bind_res_Inr_iff Let_def split: channel_op.splits option.splits if_splits)

lemma reach_flags: "reactor_reach st \<Longrightarrow> flags_clear st"
proof (induction rule: reactor_reach.induct)
  case (op st op st')
  then show ?case using flags_do_op by blast
qed (simp_all add: flags_clear_def new_reactor_def)

lemma truncate_simps [simp]:
  "fd_set (reactor.truncate st) = fd_set st" "event_count (reactor.truncate st) = event_count st"
  "epoll (reactor.truncate st) = epoll st" "chans (reactor.truncate st) = chans st"
  "next_addr (reactor.truncate st) = next_addr st"
  by (simp_all add: reactor.truncate_def)

lemma truncate_inv: "reactor_inv (reactor.truncate st) = reactor_inv st"
  by (simp add: reactor_inv_def live_fds_def channel_ok_def)

lemma truncate_flags: "flags_clear (reactor.truncate st) = flags_clear st"
  by (simp add: flags_clear_def)

lemma calls_enabled:
  assumes inv: "reactor_inv st" and ch: "chans st a = Some ch" and "\<not> is_once ch"
  shows "calls_at st (ch_fd ch, r, w) = (if r \<and> enable_arr ch READ then [the (cb_arr ch READ)] else [])
      @ (if w \<and> enable_arr ch WRITE then [the (cb_arr ch WRITE)] else [])"
proof -
  have ok: "channel_ok st a ch" by (rule inv_channel [OF inv ch])
  show ?thesis
  proof (cases "epoll st (ch_fd ch)")
    case None
    then show ?thesis using ok by (simp add: channel_ok_def report_of_def calls_at_def)
  next
    case (Some i)
    then have "i = wanted a ch" using ok assms(3) by (auto simp: channel_ok_def mirrors_def wanted_def)
    then show ?thesis using Some ch by (auto simp: calls_at_def report_of_def calls_of_def wanted_def)
  qed
qed

section \<open>Properties\<close>

text \<open>
  C10: The poller mirrors the channels. Take any run of operations on live channels, in which an
  event is enabled only with a callback and a new channel is only made on a descriptor that no
  live channel has. Then \<open>fd_set\<close> is exactly the set the kernel knows,
  every registration names the live channel of its descriptor and asks for exactly what that
  channel enables (or is one-shot and has reported since), an unregistered channel enables
  nothing, the event list has room for every registered descriptor, and no such operation throws:
  \<open>epoll_ctl\<close> is never asked to add a known descriptor or to change an unknown one.
\<close>

theorem poller_mirrors_channels:
  assumes "reactor_reach st"
  shows "fd_set st = dom (epoll st) \<and> card (fd_set st) \<le> event_count st
    \<and> (\<forall>a ch. chans st a = Some ch \<longrightarrow>
         (case epoll st (ch_fd ch) of None \<Rightarrow> \<forall>et. \<not> enable_arr ch et | Some i \<Rightarrow> mirrors a ch i))
    \<and> (\<forall>fd i. epoll st fd = Some i \<longrightarrow> (\<exists>ch. chans st (i_ptr i) = Some ch \<and> ch_fd ch = fd))
    \<and> (\<forall>op. op_ok st op \<longrightarrow> (\<exists>st'. do_op op st = Inr st' \<and> reactor_reach st'))"
proof -
  have inv: "reactor_inv st" by (rule reach_inv [OF assms])
  have "\<exists>ch. chans st (i_ptr i) = Some ch \<and> ch_fd ch = fd" if i: "epoll st fd = Some i" for fd i
  proof -
    have "fd \<in> live_fds st" using inv_sets(4) [OF inv] i by auto
    then obtain a ch where ch: "chans st a = Some ch" "ch_fd ch = fd" by (blast elim: live_fdsE)
    then have "mirrors a ch i" using inv_channel [OF inv ch(1)] i by (simp add: channel_ok_def)
    then show ?thesis using ch by (auto simp: mirrors_def wanted_def)
  qed
  moreover have "\<exists>st'. do_op op st = Inr st' \<and> reactor_reach st'" if "op_ok st op" for op
    using do_op_inv [OF inv that] reactor_reach.op [OF assms that] by blast
  ultimately show ?thesis
    using inv_sets(1,3) [OF inv] inv_channel [OF inv] by (simp add: channel_ok_def)
qed

definition one_reader :: "string reactor" where
  "one_reader = \<lparr>fd_set = {5}, event_count = 1,
     epoll = [5 \<mapsto> \<lparr>i_ptr = 0, i_in = True, i_out = False, i_oneshot = False\<rparr>],
     chans = [0 \<mapsto> \<lparr>ch_fd = 5, is_once = False, cb_arr = (\<lambda>_. None)(READ \<mapsto> ''read''),
       trigger_arr = (\<lambda>_. False), enable_arr = (\<lambda>_. False)(READ := True)\<rparr>], next_addr = 1\<rparr>"

lemma one_reader_reach: "reactor_reach one_reader"
proof -
  let ?get = "Op_get 5 False" and ?en = "Op_enable 0 READ (Some ''read'')"
  obtain st where st: "do_op ?get new_reactor = Inr st" "do_op ?en st = Inr one_reader" "op_ok st ?en"
    by (simp add: op_defs new_reactor_def one_reader_def op_ok_def wanted_def Let_def)
  have "reactor_reach st"
    by (rule reactor_reach.op [OF reactor_reach.start _ st(1)]) (simp add: op_ok_def new_reactor_def)
  then show ?thesis by (rule reactor_reach.op [OF _ st(3,2)])
qed

theorem poller_mirrors_channels_witness:
  "fd_set one_reader = dom (epoll one_reader) \<and> card (fd_set one_reader) \<le> event_count one_reader
    \<and> (\<exists>st'. do_op (Op_disable 0 READ) one_reader = Inr st' \<and> reactor_reach st')"
proof -
  have "op_ok one_reader (Op_disable 0 READ)" by (simp add: op_ok_def one_reader_def)
  then show ?thesis using poller_mirrors_channels [OF one_reader_reach] by blast
qed

text \<open>
  C19: One poll serves every ready descriptor once, for callbacks that leave the reactor alone but
  may throw. \<open>poll\<close> calls, for the ready descriptors in the order of the kernel and with nobody
  left out, the callbacks of the events that are ready and registered, reading before writing,
  until one throws, and then it ends with that exception; if none does, it ends normally and has
  called all of them. On a channel that is not one-shot these are exactly the ready and enabled
  events. Only one-shot registrations have changed, no channel has, and the dispatch never reads
  behind the end of the event list. (Callbacks that change channels are those of \<open>TcpLoop\<close>.)
\<close>

theorem poll_serves_each_once:
  assumes "reactor_reach (reactor.truncate st)" and "distinct (map fst ready)"
  shows "\<exists>ep. (\<forall>fd. disarmed (epoll st fd) (ep fd))
    \<and> poll (inside f) ready st = bind_res (run_calls f (concat (map (calls_at st) ready)) (reactor.more st))
        (\<lambda>m. Inr (reactor.more_update (\<lambda>_. m) (st\<lparr>epoll := ep\<rparr>)))
    \<and> (\<forall>a ch r w. chans st a = Some ch \<and> \<not> is_once ch \<longrightarrow>
        calls_at st (ch_fd ch, r, w) = (if r \<and> enable_arr ch READ then [the (cb_arr ch READ)] else [])
          @ (if w \<and> enable_arr ch WRITE then [the (cb_arr ch WRITE)] else []))"
proof -
  have inv: "reactor_inv st" and clear: "flags_clear st"
    using reach_inv [OF assms(1)] reach_flags [OF assms(1)] by (simp_all add: truncate_inv truncate_flags)
  let ?ep = "snd (epoll_wait (event_count st) ready (epoll st))"
  have "poll (inside f) ready st = bind_res (run_calls f (concat (map (calls_at st) ready)) (reactor.more st))
        (\<lambda>m. Inr (reactor.more_update (\<lambda>_. m) (st\<lparr>epoll := ?ep\<rparr>)))"
    using poll_inside [OF inv clear assms(2)] by (simp add: ready_calls_def)
  then show ?thesis using epoll_wait_disarms calls_enabled [OF inv] by (intro exI [of _ ?ep]) auto
qed

text \<open>One callback that logs its name, and one that throws.\<close>

definition log_or_throw :: "string \<Rightarrow> string list \<Rightarrow> string list res" where
  "log_or_throw cb log = (if cb = ''throw'' then Inl Runtime_error else Inr (log @ [cb]))"

theorem poll_serves_each_once_witness:
  "\<exists>st'. poll (inside log_or_throw) [(5, True, True)] (reactor.extend one_reader []) = Inr st'
    \<and> reactor.more st' = [''read'']"
proof -
  let ?st = "reactor.extend one_reader ([] :: string list)"
  have "reactor.truncate ?st = one_reader"
    by (simp add: reactor.truncate_def reactor.extend_def one_reader_def)
  then have reach: "reactor_reach (reactor.truncate ?st)" using one_reader_reach by (simp only:)
  show ?thesis
    using poll_serves_each_once [OF reach, of "[(5, True, True)]" log_or_throw]
    by (auto simp: calls_at_def report_of_def calls_of_def reactor.extend_def one_reader_def log_or_throw_def)
qed

section \<open>A list that shrinks\<close>

text \<open>
  Three readable channels in one poll. The callback of the second destroys the channel of the
  first, which has been served, and enables an event of its own: the event list is cut to the
  two descriptors that are left, and the loop of \<open>poll\<close>, which still has the third report to
  look at, reads behind its end.
\<close>

definition reader :: "int \<Rightarrow> string \<Rightarrow> string channel" where
  "reader fd cb = \<lparr>ch_fd = fd, is_once = False, cb_arr = [READ \<mapsto> cb], trigger_arr = (\<lambda>_. False),
     enable_arr = (\<lambda>_. False)(READ := True)\<rparr>"

definition three_readers :: "string reactor" where
  "three_readers = \<lparr>fd_set = {5, 6, 7}, event_count = 3,
     epoll = [5 \<mapsto> wanted 0 (reader 5 ''a''), 6 \<mapsto> wanted 1 (reader 6 ''b''), 7 \<mapsto> wanted 2 (reader 7 ''c'')],
     chans = [0 \<mapsto> reader 5 ''a'', 1 \<mapsto> reader 6 ''b'', 2 \<mapsto> reader 7 ''c''], next_addr = 3\<rparr>"

definition close_served :: "(string, unit) run_cb" where
  "close_served cb st =
     (if cb = ''b'' then bind_res (destroy_channel 0 st) (enable_event 1 READ None) else Inr st)"

lemma three_readers_reach: "reactor_reach three_readers"
proof -
  have grow: "reactor_reach st3" if st: "reactor_reach (st :: string reactor)" and fd: "0 \<le> fd" "fd \<notin> live_fds st"
      and ops: "bind_res (do_op (Op_get fd False) st) (do_op (Op_enable (next_addr st) READ (Some cb))) = Inr st3" for st fd cb st3
  proof -
    obtain st2 where st2: "do_op (Op_get fd False) st = Inr st2" "do_op (Op_enable (next_addr st) READ (Some cb)) st2 = Inr st3"
      using ops by (auto simp: bind_res_Inr_iff)
    have ok: "op_ok st (Op_get fd False)" using fd by (auto simp: op_ok_def live_fds_def)
    have "chans st2 (next_addr st) \<noteq> None" using st2(1) by (auto simp: op_defs bind_res_Inr_iff)
    then have "op_ok st2 (Op_enable (next_addr st) READ (Some cb))" by (auto simp: op_ok_def)
    then show ?thesis using reactor_reach.op [OF reactor_reach.op [OF st ok st2(1)]] st2(2) by blast
  qed
  let ?r1 = "\<lparr>fd_set = {5}, event_count = 1, epoll = [5 \<mapsto> wanted 0 (reader 5 ''a'')], chans = [0 \<mapsto> reader 5 ''a''], next_addr = 1\<rparr>"
  let ?r2 = "\<lparr>fd_set = {5, 6}, event_count = 2, epoll = [5 \<mapsto> wanted 0 (reader 5 ''a''), 6 \<mapsto> wanted 1 (reader 6 ''b'')],
     chans = [0 \<mapsto> reader 5 ''a'', 1 \<mapsto> reader 6 ''b''], next_addr = 2\<rparr>"
  have "reactor_reach ?r1"
    by (rule grow [OF reactor_reach.start, of 5 "''a''"]) (simp_all add: op_defs new_reactor_def live_fds_def wanted_def reader_def Let_def)
  then have "reactor_reach ?r2"
    by (rule grow [of _ 6 "''b''"]) (auto simp: op_defs live_fds_def wanted_def reader_def Let_def)
  then show ?thesis
    by (rule grow [of _ 7 "''c''"]) (auto simp: three_readers_def op_defs live_fds_def wanted_def reader_def Let_def split: if_splits)
qed

theorem poll_reads_behind_list:
  "reactor_reach three_readers
    \<and> poll close_served [(5, True, False), (6, True, False), (7, True, False)] three_readers = Inl Wild_read"
proof
  show "poll close_served [(5, True, False), (6, True, False), (7, True, False)] three_readers = Inl Wild_read"
    by (simp add: poll_def three_readers_def wanted_def reader_def report_of_def disarm_def numeral_3_eq_3 dispatch_def
        channel_events_def channel_event_def op_defs ch_trigger_def close_served_def Let_def)
qed (rule three_readers_reach)

end
