(* ===== verification/TimerWheel.thy ===== *)
theory TimerWheel
  imports Prelude "HOL-Library.Multiset"
begin

text \<open>
  The timing wheel of src/src/timer/TimerScheduler.hpp and .cpp. Times are \<open>uint64_t\<close>
  milliseconds, so they wrap around; the clock is an argument of every operation that reads
  it. A callback is user code: its effect on the wheel, for a callback that adds or removes
  timers itself, is the parameter \<open>run\<close>, and the operations return the callbacks they called
  in order. A list node is named by a number (its address in the code).
\<close>

section \<open>Fallible code that may not return\<close>

definition bind_ro :: "'a res option \<Rightarrow> ('a \<Rightarrow> 'b res option) \<Rightarrow> 'b res option" where
  "bind_ro r f = Option.bind r (\<lambda>x. case x of Inl e \<Rightarrow> Some (Inl e) | Inr y \<Rightarrow> f y)"

lemma bind_ro_simps [simp]:
  "bind_ro None f = None"
  "bind_ro (Some (Inl e)) f = Some (Inl e)"
  "bind_ro (Some (Inr y)) f = f y"
  by (simp_all add: bind_ro_def)

lemma bind_ro_mono [partial_function_mono]:
  assumes "mono_option B" and "\<And>y. mono_option (\<lambda>f. C y f)"
  shows "mono_option (\<lambda>f. bind_ro (B f) (\<lambda>y. C y f))"
  unfolding bind_ro_def
  by (intro bind_mono assms sum.case_eq_if) (auto split: sum.split intro!: assms monotoneI option.leq_refl
      dest: monotoneD [OF assms(2)])

section \<open>The wheel\<close>

type_synonym u64 = "64 word"

record 'cb timer =
  trigger_after_ms :: u64
  timer_cb :: 'cb

text \<open>\<open>TimerId\<close>: the slot time and the address of the list node; \<open>TimerId{}\<close> is no timer.\<close>

record timer_id =
  trigger_at_ms :: u64
  id_it :: "nat option"

definition no_timer :: timer_id where
  "no_timer = \<lparr>trigger_at_ms = 0, id_it = None\<rparr>"

text \<open>\<open>fresh_node\<close> supplies the addresses of new list nodes; it is no member of the class.\<close>

record 'cb wheel =
  slots :: "(nat \<times> 'cb timer) list list"
  slot_ptr :: nat
  trigger_before_ms :: u64
  fresh_node :: nat

type_synonym 'cb run = "'cb \<Rightarrow> 'cb wheel \<Rightarrow> 'cb wheel res"

definition every_ms :: u64 where
  "every_ms = 10"

definition span_sec :: u64 where
  "span_sec = 60"

definition n_slots :: nat where
  "n_slots = 6000"

text \<open>\<open>now\<close> is what \<open>get_now_timestamp\<close> returns if it is called: for the argument -1.\<close>

definition get_slot_timestamp :: "u64 \<Rightarrow> u64 \<Rightarrow> u64" where
  "get_slot_timestamp now a = (let a = (if a = -1 then now else a) in a - a mod every_ms)"

definition new_wheel :: "u64 \<Rightarrow> 'cb wheel" where
  "new_wheel now =
     \<lparr>slots = replicate n_slots [], slot_ptr = 0,
      trigger_before_ms = get_slot_timestamp now (-1), fresh_node = 0\<rparr>"

text \<open>The slot of a time behind \<open>trigger_before_ms\<close>, as \<open>add_timer\<close> and \<open>remove_timer\<close> compute it.\<close>

definition slot_of :: "'cb wheel \<Rightarrow> u64 \<Rightarrow> nat" where
  "slot_of w at_ms =
     (let slot_n = (at_ms - trigger_before_ms w) div every_ms
      in unat ((of_nat (slot_ptr w) + slot_n) mod of_nat (length (slots w))))"

text \<open>The clock readings of \<open>add_timer\<close>: the one it makes, and the two of \<open>get_slot_timestamp\<close>.\<close>

definition add_timer ::
  "'cb run \<Rightarrow> u64 \<Rightarrow> u64 \<Rightarrow> u64 \<Rightarrow> 'cb timer \<Rightarrow> 'cb wheel \<Rightarrow> (timer_id \<times> 'cb wheel \<times> 'cb list) res" where
  "add_timer run now now1 now2 ti w =
     (let at_ms = get_slot_timestamp now1 (trigger_after_ms ti + now)
      in if at_ms \<le> trigger_before_ms w then
           bind_res (run (timer_cb ti) w) (\<lambda>w1. Inr (no_timer, w1, [timer_cb ti]))
         else if span_sec * 1000 \<le> get_slot_timestamp now2 (trigger_after_ms ti) then
           Inr (no_timer, w, [])
         else
           (let k = slot_of w at_ms; node = fresh_node w
            in Inr (\<lparr>trigger_at_ms = at_ms, id_it = Some node\<rparr>,
                    w\<lparr>slots := (slots w)[k := slots w ! k @ [(node, ti)]], fresh_node := node + 1\<rparr>,
                    [])))"

text \<open>Erasing a node that is no longer in the list is \<open>Dead_object\<close>.\<close>

definition remove_timer :: "timer_id \<Rightarrow> 'cb wheel \<Rightarrow> 'cb wheel res" where
  "remove_timer i w =
     (if trigger_at_ms i \<le> trigger_before_ms w then Inr w
      else
        (let k = slot_of w (trigger_at_ms i)
         in case id_it i of
              None \<Rightarrow> Inl Dead_object
            | Some node \<Rightarrow>
                if node \<in> fst ` set (slots w ! k)
                then Inr (w\<lparr>slots := (slots w)[k := filter (\<lambda>x. fst x \<noteq> node) (slots w ! k)]\<rparr>)
                else Inl Dead_object))"

text \<open>
  The loop over one slot. The callback runs while the loop stands at its node, and the loop
  then steps to the node behind it in the list as it is by then.
\<close>

definition after_node :: "nat \<Rightarrow> (nat \<times> 'cb timer) list \<Rightarrow> (nat \<times> 'cb timer) list res" where
  "after_node node l =
     (case dropWhile (\<lambda>x. fst x \<noteq> node) l of [] \<Rightarrow> Inl Dead_object | _ # rest \<Rightarrow> Inr rest)"

partial_function (option) fire_slot ::
  "'cb run \<Rightarrow> nat \<Rightarrow> (nat \<times> 'cb timer) list \<Rightarrow> 'cb wheel \<Rightarrow> 'cb list \<Rightarrow> ('cb wheel \<times> 'cb list) res option" where
  "fire_slot run k rest w fired =
     (case rest of
        [] \<Rightarrow> Some (Inr (w, fired))
      | (node, ti) # _ \<Rightarrow>
          bind_ro (Some (run (timer_cb ti) w)) (\<lambda>w1.
          bind_ro (Some (after_node node (slots w1 ! k))) (\<lambda>rest1.
          fire_slot run k rest1 w1 (fired @ [timer_cb ti]))))"

definition tick :: "'cb wheel \<Rightarrow> 'cb wheel" where
  "tick w = w\<lparr>trigger_before_ms := trigger_before_ms w + every_ms,
             slot_ptr := (slot_ptr w + 1) mod length (slots w)\<rparr>"

definition clear_slot :: "'cb wheel \<Rightarrow> 'cb wheel" where
  "clear_slot w = w\<lparr>slots := (slots w)[slot_ptr w := []]\<rparr>"

partial_function (option) trigger_loop ::
  "'cb run \<Rightarrow> u64 \<Rightarrow> 'cb wheel \<Rightarrow> 'cb list \<Rightarrow> ('cb wheel \<times> 'cb list) res option" where
  "trigger_loop run at_ms w fired =
     (if trigger_before_ms w < at_ms then
        (let w1 = tick w; k = slot_ptr w1
         in bind_ro (fire_slot run k (slots w1 ! k) w1 fired) (\<lambda>(w2, fired2).
            let w3 = clear_slot w2
            in if at_ms \<le> trigger_before_ms w3 then Some (Inr (w3, fired2))
               else trigger_loop run at_ms w3 fired2))
      else Some (Inr (w, fired)))"

text \<open>\<open>trigger_timer\<close> also returns the time after which it wants to be called again.\<close>

definition trigger_timer ::
  "'cb run \<Rightarrow> u64 \<Rightarrow> u64 \<Rightarrow> 'cb wheel \<Rightarrow> ('cb wheel \<times> 'cb list \<times> u64) res option" where
  "trigger_timer run now1 now_ms w =
     bind_ro (trigger_loop run (get_slot_timestamp now1 now_ms) w [])
       (\<lambda>(w', fired). Some (Inr (w', fired, every_ms)))"

section \<open>Slot times\<close>

definition slot_time :: "u64 \<Rightarrow> nat" where
  "slot_time t = unat t div 10 * 10"

lemma unat_every [simp]: "unat every_ms = 10"
  by (simp add: every_ms_def)

lemma unat_slot_timestamp: "a \<noteq> -1 \<Longrightarrow> unat (get_slot_timestamp now a) = slot_time a"
proof -
  assume "a \<noteq> -1"
  moreover have "unat (a - a mod every_ms) = unat a - unat (a mod every_ms)"
    by (rule unat_sub) (simp add: word_le_nat_alt unat_mod_distrib)
  moreover have "unat a - unat a mod 10 = unat a div 10 * 10"
    by (metis minus_mod_eq_div_mult)
  ultimately show ?thesis
    by (simp add: get_slot_timestamp_def Let_def slot_time_def unat_mod_distrib)
qed

lemma slot_time_bounds: "slot_time t \<le> unat t" "unat t < slot_time t + 10" "slot_time t mod 10 = 0"
  unfolding slot_time_def by (simp, metis add_less_cancel_left div_mult_mod_eq mod_less_divisor zero_less_numeral, simp)

section \<open>The agenda: the wheel as a list of due timers\<close>

text \<open>
  The slots in the order in which the wheel will reach them, and every timer with the time at
  which \<open>trigger_before_ms\<close> reaches its slot.
\<close>

definition rot :: "'cb wheel \<Rightarrow> (nat \<times> 'cb timer) list list" where
  "rot w = rotate (slot_ptr w + 1) (slots w)"

primrec agenda_of :: "nat \<Rightarrow> (nat \<times> 'cb timer) list list \<Rightarrow> (nat \<times> nat \<times> 'cb timer) list" where
  "agenda_of b [] = []"
| "agenda_of b (l # ls) = map (\<lambda>x. (b + 10, x)) l @ agenda_of (b + 10) ls"

definition agenda :: "'cb wheel \<Rightarrow> (nat \<times> nat \<times> 'cb timer) list" where
  "agenda w = agenda_of (unat (trigger_before_ms w)) (rot w)"

definition nodes_ok :: "nat \<Rightarrow> (nat \<times> 'cb timer) list list \<Rightarrow> bool" where
  "nodes_ok fresh ls \<longleftrightarrow>
     (\<forall>i < length ls. distinct (map fst (ls ! i)) \<and> (\<forall>x \<in> set (ls ! i). fst x < fresh))
     \<and> (\<forall>i < length ls. \<forall>j < length ls. i \<noteq> j \<longrightarrow> fst ` set (ls ! i) \<inter> fst ` set (ls ! j) = {})"

lemma nodes_okI:
  assumes "\<And>i. i < length ls \<Longrightarrow> distinct (map fst (ls ! i))"
    and "\<And>i x. i < length ls \<Longrightarrow> x \<in> set (ls ! i) \<Longrightarrow> fst x < fresh"
    and "\<And>i j x y. i < length ls \<Longrightarrow> j < length ls \<Longrightarrow> x \<in> set (ls ! i) \<Longrightarrow> y \<in> set (ls ! j)
      \<Longrightarrow> fst x = fst y \<Longrightarrow> i = j"
  shows "nodes_ok fresh ls"
  using assms(1,2) unfolding nodes_ok_def by (auto dest: assms(3))

lemma nodes_okD:
  assumes "nodes_ok fresh ls"
  shows "i < length ls \<Longrightarrow> distinct (map fst (ls ! i))"
    and "i < length ls \<Longrightarrow> x \<in> set (ls ! i) \<Longrightarrow> fst x < fresh"
    and "i < length ls \<Longrightarrow> j < length ls \<Longrightarrow> x \<in> set (ls ! i) \<Longrightarrow> y \<in> set (ls ! j)
      \<Longrightarrow> fst x = fst y \<Longrightarrow> i = j"
proof -
  show "i < length ls \<Longrightarrow> distinct (map fst (ls ! i))"
    "i < length ls \<Longrightarrow> x \<in> set (ls ! i) \<Longrightarrow> fst x < fresh"
    using assms unfolding nodes_ok_def by blast+
  assume *: "i < length ls" "j < length ls" "x \<in> set (ls ! i)" "y \<in> set (ls ! j)" "fst x = fst y"
  show "i = j"
  proof (rule ccontr)
    assume "i \<noteq> j"
    then have "fst ` set (ls ! i) \<inter> fst ` set (ls ! j) = {}"
      using assms * unfolding nodes_ok_def by blast
    then show False using *(3-5) by (metis IntI empty_iff image_eqI)
  qed
qed

lemma nodes_ok_shrink:
  assumes "nodes_ok fresh ls" and "set l \<subseteq> set (ls ! k)" and "distinct (map fst l)"
  shows "nodes_ok fresh (ls[k := l])"
proof -
  have sub: "x \<in> set (ls ! i)" if "i < length ls" "x \<in> set (ls[k := l] ! i)" for i x
    using that assms(2) by (cases "i = k") auto
  show ?thesis
  proof (rule nodes_okI)
    fix i assume "i < length (ls[k := l])"
    then show "distinct (map fst (ls[k := l] ! i))"
      using nodes_okD(1) [OF assms(1), of i] assms(3) by (cases "i = k") simp_all
  next
    fix i x assume "i < length (ls[k := l])" "x \<in> set (ls[k := l] ! i)"
    then show "fst x < fresh" using sub [of i x] nodes_okD(2) [OF assms(1)] by simp
  next
    fix i j x y
    assume "i < length (ls[k := l])" "j < length (ls[k := l])" "x \<in> set (ls[k := l] ! i)"
      "y \<in> set (ls[k := l] ! j)" "fst x = fst y"
    then show "i = j" using sub [of i x] sub [of j y] nodes_okD(3) [OF assms(1), of i j x y] by simp
  qed
qed

lemma nodes_ok_add:
  assumes "nodes_ok fresh ls"
  shows "nodes_ok (fresh + 1) (ls[k := ls ! k @ [(fresh, ti)]])"
proof -
  let ?ls = "ls[k := ls ! k @ [(fresh, ti)]]"
  have mem: "x \<in> set (ls ! i) \<or> i = k \<and> x = (fresh, ti)" if "i < length ls" "x \<in> set (?ls ! i)" for i x
    using that by (cases "i = k") auto
  have old: "fst x < fresh" if "i < length ls" "x \<in> set (ls ! i)" for i x
    using nodes_okD(2) [OF assms that] .
  show ?thesis
  proof (rule nodes_okI)
    fix i assume i: "i < length ?ls"
    then show "distinct (map fst (?ls ! i))"
      using nodes_okD(1) [OF assms, of i] old [of i] by (cases "i = k") (auto simp: less_irrefl)
  next
    fix i x assume "i < length ?ls" "x \<in> set (?ls ! i)"
    then show "fst x < fresh + 1" using mem [of i x] old [of i x] by auto
  next
    fix i j x y
    assume *: "i < length ?ls" "j < length ?ls" "x \<in> set (?ls ! i)" "y \<in> set (?ls ! j)" "fst x = fst y"
    then show "i = j"
      using mem [of i x] mem [of j y] old [of i x] old [of j y] nodes_okD(3) [OF assms, of i j x y]
      by auto
  qed
qed

definition wf_wheel :: "'cb wheel \<Rightarrow> bool" where
  "wf_wheel w \<longleftrightarrow> length (slots w) = n_slots \<and> slot_ptr w < n_slots
     \<and> unat (trigger_before_ms w) mod 10 = 0
     \<and> nodes_ok (fresh_node w) (slots w)"

lemma agenda_of_append_nil [simp]: "agenda_of b (ls @ [[]]) = agenda_of b ls"
  by (induction ls arbitrary: b) simp_all

lemma agenda_of_due: "d \<in> set (agenda_of b ls) \<Longrightarrow> b + 10 \<le> fst d"
  by (induction ls arbitrary: b) fastforce+

lemma agenda_of_sorted: "sorted (map fst (agenda_of b ls))"
  by (induction ls arbitrary: b) (auto simp: sorted_append comp_def map_replicate_const dest: agenda_of_due)

lemma agenda_of_nodes: "map snd (agenda_of b ls) = concat ls"
  by (induction ls arbitrary: b) (simp_all add: comp_def)

lemma agenda_of_later: "t < b + 10 \<Longrightarrow> filter (\<lambda>d. fst d \<le> t) (agenda_of b ls) = []"
  by (auto simp: filter_empty_conv dest: agenda_of_due)

lemma agenda_of_keep: "t < b + 10 \<Longrightarrow> filter (\<lambda>d. t < fst d) (agenda_of b ls) = agenda_of b ls"
  by (auto simp: filter_id_conv dest: agenda_of_due)

lemma agenda_of_insert:
  "i < length ls \<Longrightarrow> mset (agenda_of b (ls[i := ls ! i @ [x]])) = add_mset (b + 10 * (i + 1), x) (mset (agenda_of b ls))"
proof (induction ls arbitrary: b i)
  case (Cons l ls)
  then show ?case by (cases i) (simp_all add: algebra_simps)
qed simp

lemma agenda_of_remove:
  "i < length ls \<Longrightarrow> (\<forall>j < length ls. j \<noteq> i \<longrightarrow> n \<notin> fst ` set (ls ! j)) \<Longrightarrow>
     agenda_of b (ls[i := filter (\<lambda>x. fst x \<noteq> n) (ls ! i)]) = filter (\<lambda>d. fst (snd d) \<noteq> n) (agenda_of b ls)"
proof (induction ls arbitrary: b i)
  case (Cons l ls)
  have keep: "filter (\<lambda>x. fst x \<noteq> n) l = l" if "i \<noteq> 0"
    using Cons.prems(2)[rule_format, of 0] that by (auto simp: filter_id_conv image_iff)
  have all: "filter (\<lambda>d. fst (snd d) \<noteq> n) (agenda_of b' ls) = agenda_of b' ls" if "i = 0" for b'
  proof -
    have "n \<notin> fst ` set l'" if l': "l' \<in> set ls" for l'
    proof -
      obtain j where "j < length ls" "l' = ls ! j" using l' by (auto simp: in_set_conv_nth)
      then show ?thesis using Cons.prems(2)[rule_format, of "Suc j"] \<open>i = 0\<close> by simp
    qed
    then have "n \<notin> fst ` set (concat ls)" by auto
    then show ?thesis
      unfolding agenda_of_nodes [of b' ls, symmetric] by (auto simp: filter_id_conv image_iff)
  qed
  show ?case
  proof (cases i)
    case 0
    then show ?thesis using all by (simp add: filter_map comp_def)
  next
    case (Suc j)
    have "agenda_of (b + 10) (ls[j := filter (\<lambda>x. fst x \<noteq> n) (ls ! j)])
        = filter (\<lambda>d. fst (snd d) \<noteq> n) (agenda_of (b + 10) ls)"
    proof (rule Cons.IH)
      show "j < length ls" using Cons.prems(1) Suc by simp
      show "\<forall>k < length ls. k \<noteq> j \<longrightarrow> n \<notin> fst ` set (ls ! k)"
        using Cons.prems(2)[rule_format, of "Suc _"] Suc by simp
    qed
    then show ?thesis using keep Suc by (simp add: filter_map comp_def)
  qed
qed simp

lemma length_rot [simp]: "length (rot w) = length (slots w)"
  by (simp add: rot_def)

lemma set_rot [simp]: "set (rot w) = set (slots w)"
  by (simp add: rot_def)

lemma nth_rot: "i < length (slots w) \<Longrightarrow> rot w ! i = slots w ! ((slot_ptr w + 1 + i) mod length (slots w))"
  unfolding rot_def by (rule nth_rotate)

lemma agenda_sorted: "sorted (map fst (agenda w))"
  by (simp add: agenda_def agenda_of_sorted)

lemma mod_lt: "(j :: nat) < n \<Longrightarrow> a mod n < n"
  by (rule mod_less_divisor) simp

lemma mod_shift_inj:
  fixes a i j n :: nat
  assumes "i < n" and "j < n"
  shows "(a + i) mod n = (a + j) mod n \<longleftrightarrow> i = j"
proof -
  have "i = j" if "i \<le> j" "j < n" "(a + i) mod n = (a + j) mod n" for i j :: nat
  proof -
    have "n dvd (a + j) - (a + i)" using that mod_eq_dvd_iff_nat [of "a + i" "a + j" n] by simp
    then have "n dvd j - i" by simp
    then show ?thesis using that dvd_imp_le [of n "j - i"] by (cases "j - i = 0") auto
  qed
  from this [of i j] this [of j i] assms show ?thesis by (cases "i \<le> j") auto
qed

text \<open>A change of one slot is a change of one element of the rotated list.\<close>

lemma rot_upd:
  assumes "i < length (slots w)" and "slot_ptr w < length (slots w)"
  shows "rot (w\<lparr>slots := (slots w)[(slot_ptr w + 1 + i) mod length (slots w) := l]\<rparr>) = (rot w)[i := l]"
proof (rule nth_equalityI)
  fix j assume "j < length (rot (w\<lparr>slots := (slots w)[(slot_ptr w + 1 + i) mod length (slots w) := l]\<rparr>))"
  then have j: "j < length (slots w)" by simp
  have "(slot_ptr w + 1 + i) mod length (slots w) = (slot_ptr w + 1 + j) mod length (slots w) \<longleftrightarrow> i = j"
    by (rule mod_shift_inj [OF assms(1) j])
  then show "rot (w\<lparr>slots := (slots w)[(slot_ptr w + 1 + i) mod length (slots w) := l]\<rparr>) ! j = (rot w)[i := l] ! j"
    using assms(1) j mod_lt [OF j] by (cases "i = j") (simp_all add: nth_rot)
qed simp

section \<open>Triggering\<close>

text \<open>Callbacks that leave the wheel alone.\<close>

definition quiet :: "'cb run" where
  "quiet cb w = Inr w"

lemma quiet_apply: "quiet cb w = Inr w"
  by (simp add: quiet_def)

text \<open>Adding a timer runs its callback at once or none at all.\<close>

lemma add_timer_quiet:
  "add_timer quiet now now1 now2 ti w =
     (if get_slot_timestamp now1 (trigger_after_ms ti + now) \<le> trigger_before_ms w
      then Inr (no_timer, w, [timer_cb ti])
      else Inr (fst (projr (add_timer quiet now now1 now2 ti w)),
                fst (snd (projr (add_timer quiet now now1 now2 ti w))), []))"
  by (simp add: add_timer_def Let_def quiet_apply [of "timer_cb ti" w])

lemma fire_slot_quiet:
  "slots w ! k = pre @ l \<Longrightarrow> distinct (map fst (slots w ! k)) \<Longrightarrow>
     fire_slot quiet k l w fired = Some (Inr (w, fired @ map (timer_cb \<circ> snd) l))"
proof (induction l arbitrary: pre fired)
  case Nil
  then show ?case by (simp add: fire_slot.simps)
next
  case (Cons x l)
  obtain node ti where x: "x = (node, ti)" by (cases x)
  have "after_node node (slots w ! k) = Inr l"
    using Cons.prems by (auto simp: x after_node_def dropWhile_append split: if_splits)
  then show ?case
    using Cons.IH [of "pre @ [x]"] Cons.prems by (subst fire_slot.simps) (simp add: x quiet_apply [of "timer_cb ti" w])
qed

text \<open>One round of the loop: the next slot is emptied.\<close>

definition turn :: "'cb wheel \<Rightarrow> 'cb wheel" where
  "turn w = clear_slot (tick w)"

lemma turn_fields:
  "trigger_before_ms (turn w) = trigger_before_ms w + every_ms"
  "slot_ptr (turn w) = (slot_ptr w + 1) mod length (slots w)"
  "slots (turn w) = (slots w)[(slot_ptr w + 1) mod length (slots w) := []]"
  "fresh_node (turn w) = fresh_node w"
  by (simp_all add: turn_def clear_slot_def tick_def)

lemma rot_turn:
  assumes "slot_ptr w < length (slots w)"
  shows "rot (turn w) = tl (rot w) @ [[]]"
proof (rule nth_equalityI)
  let ?n = "length (slots w)"
  fix i assume "i < length (rot (turn w))"
  then have i: "i < ?n" by (simp add: turn_fields)
  have pos: "(slot_ptr w + 1) mod ?n < ?n" by (rule mod_lt [OF i])
  have "rot (turn w) ! i = slots (turn w) ! (((slot_ptr w + 1) mod ?n + 1 + i) mod ?n)"
    using i nth_rot [of i "turn w"] by (simp add: turn_fields)
  also have "((slot_ptr w + 1) mod ?n + 1 + i) mod ?n = (slot_ptr w + 1 + (i + 1)) mod ?n"
  proof -
    have "(a mod ?n + 1 + i) mod ?n = (a + (i + 1)) mod ?n" for a
      by (simp only: add.assoc mod_add_left_eq add.commute [of 1 i])
    then show ?thesis .
  qed
  finally have rt: "rot (turn w) ! i = (slots w)[(slot_ptr w + 1) mod ?n := []] ! ((slot_ptr w + 1 + (i + 1)) mod ?n)"
    by (simp only: turn_fields)
  show "rot (turn w) ! i = (tl (rot w) @ [[]]) ! i"
  proof (cases "i + 1 = ?n")
    case True
    have "(slot_ptr w + 1 + (i + 1)) mod ?n = (slot_ptr w + 1) mod ?n"
      unfolding True by (rule mod_add_self2)
    then have "rot (turn w) ! i = []" using rt pos by (simp only: nth_list_update_eq)
    moreover have "i = length (tl (rot w))" using True by simp
    ultimately show ?thesis by (simp only: nth_append_length)
  next
    case False
    then have i1: "i + 1 < ?n" using i by simp
    have "(slot_ptr w + 1 + (i + 1)) mod ?n \<noteq> (slot_ptr w + 1 + 0) mod ?n"
      using mod_shift_inj [OF i1, of 0 "slot_ptr w + 1"] i by fastforce
    then have "rot (turn w) ! i = rot w ! (i + 1)"
      using rt i1 by (simp add: nth_rot)
    moreover have "i < length (tl (rot w))" using i1 by simp
    ultimately show ?thesis by (simp add: nth_append nth_tl)
  qed
qed (use assms in \<open>simp add: turn_fields\<close>)

lemma word_add_every:
  assumes "trigger_before_ms w < (at_ms :: u64)"
    and "unat (trigger_before_ms w) mod 10 = 0" and "unat at_ms mod 10 = 0"
  shows "unat (trigger_before_ms w + every_ms) = unat (trigger_before_ms w) + 10"
    and "unat (trigger_before_ms w) + 10 \<le> unat at_ms"
proof -
  have lt: "unat (trigger_before_ms w) < unat at_ms" using assms(1) by (simp add: word_less_nat_alt)
  then show le: "unat (trigger_before_ms w) + 10 \<le> unat at_ms"
    using assms(2,3) by presburger
  moreover have "unat at_ms < 2 ^ LENGTH(64)" by (rule unsigned_less)
  ultimately have "unat (trigger_before_ms w) + unat every_ms < 2 ^ LENGTH(64)" by simp
  then show "unat (trigger_before_ms w + every_ms) = unat (trigger_before_ms w) + 10"
    by (simp add: unat_add_lem [THEN iffD1])
qed

lemma rot_hd:
  assumes "wf_wheel w"
  shows "\<exists>ls. rot w = slots w ! ((slot_ptr w + 1) mod length (slots w)) # ls"
proof -
  have "0 < length (slots w)" using assms by (simp add: wf_wheel_def n_slots_def)
  then show ?thesis using nth_rot [of 0 w] length_rot [of w] by (cases "rot w") auto
qed

lemma wf_turn:
  assumes "wf_wheel w" and "unat (trigger_before_ms w + every_ms) = unat (trigger_before_ms w) + 10"
  shows "wf_wheel (turn w)"
proof -
  have n: "0 < length (slots w)" and b: "unat (trigger_before_ms w) mod 10 = 0"
    using assms(1) by (simp_all add: wf_wheel_def n_slots_def)
  have "nodes_ok (fresh_node w) (slots (turn w))"
    unfolding turn_fields by (rule nodes_ok_shrink) (use assms(1) in \<open>simp_all add: wf_wheel_def\<close>)
  then show ?thesis
    using assms n b by (simp add: wf_wheel_def turn_fields mod_add_eq [symmetric] del: mod_mod_trivial)
qed

lemma trigger_loop_done:
  "\<not> trigger_before_ms w < at_ms \<Longrightarrow> trigger_loop run at_ms w fired = Some (Inr (w, fired))"
  by (subst trigger_loop.simps) (simp only: if_False)

lemma trigger_loop_quiet:
  assumes "wf_wheel w" and "unat at_ms mod 10 = 0"
  shows "\<exists>w'. trigger_loop quiet at_ms w fired
      = Some (Inr (w', fired @ map (timer_cb \<circ> snd \<circ> snd) (filter (\<lambda>d. fst d \<le> unat at_ms) (agenda w))))
    \<and> agenda w' = filter (\<lambda>d. unat at_ms < fst d) (agenda w) \<and> wf_wheel w'
    \<and> trigger_before_ms w' = max (trigger_before_ms w) at_ms \<and> fresh_node w' = fresh_node w"
  using assms
proof (induction "unat at_ms - unat (trigger_before_ms w)" arbitrary: w fired rule: less_induct)
  case less
  let ?b = "unat (trigger_before_ms w)"
  show ?case
  proof (cases "trigger_before_ms w < at_ms")
    case False
    then have "unat at_ms \<le> ?b" by (simp add: word_less_nat_alt)
    then have "filter (\<lambda>d. fst d \<le> unat at_ms) (agenda w) = []"
        "filter (\<lambda>d. unat at_ms < fst d) (agenda w) = agenda w"
      unfolding agenda_def by (simp_all add: agenda_of_later agenda_of_keep)
    moreover have "max (trigger_before_ms w) at_ms = trigger_before_ms w"
      using False by (simp add: max_def not_less)
    moreover have "trigger_loop quiet at_ms w fired = Some (Inr (w, fired))"
      using False by (rule trigger_loop_done)
    ultimately show ?thesis using less.prems by simp
  next
    case True
    have b10: "?b mod 10 = 0" and len: "length (slots w) = n_slots"
      using less.prems by (simp_all add: wf_wheel_def)
    note add = word_add_every [OF True b10 less.prems(2)]
    let ?k = "slot_ptr (tick w)" and ?w = "turn w"
    obtain ls where rot: "rot w = slots w ! ?k # ls"
      using rot_hd [OF less.prems(1)] by (auto simp: tick_def)
    have wf: "wf_wheel ?w" by (rule wf_turn [OF less.prems(1) add(1)])
    have k: "?k < length (slots w)" by (simp add: tick_def len n_slots_def)
    have ok: "distinct (map fst (slots w ! ?k))"
      using less.prems(1) k by (auto simp: wf_wheel_def dest: nodes_okD(1))
    have ptr: "slot_ptr w < length (slots w)" using less.prems(1) by (simp add: wf_wheel_def)
    have ag: "agenda w = map (\<lambda>x. (?b + 10, x)) (slots w ! ?k) @ agenda ?w"
      using rot_turn [OF ptr] rot by (simp add: agenda_def turn_fields add(1))
    have fire: "fire_slot quiet ?k (slots w ! ?k) (tick w) fired
        = Some (Inr (tick w, fired @ map (timer_cb \<circ> snd) (slots w ! ?k)))"
      by (rule fire_slot_quiet [where pre = "[]"]) (use ok in \<open>simp_all add: tick_def\<close>)
    let ?fired = "fired @ map (timer_cb \<circ> snd) (slots w ! ?k)"
    have step: "trigger_loop quiet at_ms w fired
        = (if at_ms \<le> trigger_before_ms ?w then Some (Inr (?w, ?fired)) else trigger_loop quiet at_ms ?w ?fired)"
      using True fire by (subst trigger_loop.simps) (simp add: Let_def turn_def tick_def)
    have tail: "trigger_loop quiet at_ms w fired = trigger_loop quiet at_ms ?w ?fired"
      unfolding step by (cases "at_ms \<le> trigger_before_ms ?w") (simp_all add: trigger_loop_done)
    have "unat at_ms - unat (trigger_before_ms ?w) < unat at_ms - ?b"
      using add by (simp add: turn_fields)
    from less.hyps [OF this wf less.prems(2), of ?fired] obtain w' where w':
        "trigger_loop quiet at_ms ?w ?fired
          = Some (Inr (w', ?fired @ map (timer_cb \<circ> snd \<circ> snd) (filter (\<lambda>d. fst d \<le> unat at_ms) (agenda ?w))))"
        "agenda w' = filter (\<lambda>d. unat at_ms < fst d) (agenda ?w)" "wf_wheel w'"
        "trigger_before_ms w' = max (trigger_before_ms ?w) at_ms" "fresh_node w' = fresh_node ?w"
      by blast
    have le: "trigger_before_ms ?w \<le> at_ms"
      using add by (simp add: turn_fields word_le_nat_alt)
    have due: "filter (\<lambda>d. fst d \<le> unat at_ms) (agenda w)
        = map (\<lambda>x. (?b + 10, x)) (slots w ! ?k) @ filter (\<lambda>d. fst d \<le> unat at_ms) (agenda ?w)"
      using add(2) by (simp add: ag filter_map comp_def)
    show ?thesis
    proof (intro exI [of _ w'] conjI)
      show "trigger_loop quiet at_ms w fired
          = Some (Inr (w', fired @ map (timer_cb \<circ> snd \<circ> snd) (filter (\<lambda>d. fst d \<le> unat at_ms) (agenda w))))"
        unfolding tail w'(1) due by (simp add: comp_def)
      show "agenda w' = filter (\<lambda>d. unat at_ms < fst d) (agenda w)"
        using add(2) by (simp add: w'(2) ag filter_map comp_def)
      show "trigger_before_ms w' = max (trigger_before_ms w) at_ms"
        using w'(4) le less_imp_le [OF True] by (simp add: max_def)
    qed (simp_all add: w' turn_fields)
  qed
qed

lemma slot_timestamp_mod: "a \<noteq> -1 \<Longrightarrow> unat (get_slot_timestamp now a) mod 10 = 0"
  by (simp add: unat_slot_timestamp slot_time_def)

lemma trigger_timer_quiet:
  assumes "wf_wheel w" and "t \<noteq> -1"
  shows "\<exists>w'. trigger_timer quiet now1 t w
      = Some (Inr (w', map (timer_cb \<circ> snd \<circ> snd) (filter (\<lambda>d. fst d \<le> slot_time t) (agenda w)), every_ms))
    \<and> agenda w' = filter (\<lambda>d. slot_time t < fst d) (agenda w) \<and> wf_wheel w'
    \<and> trigger_before_ms w' = max (trigger_before_ms w) (get_slot_timestamp now1 t)"
proof -
  let ?at = "get_slot_timestamp now1 t"
  obtain w' where "trigger_loop quiet ?at w []
      = Some (Inr (w', [] @ map (timer_cb \<circ> snd \<circ> snd) (filter (\<lambda>d. fst d \<le> unat ?at) (agenda w))))"
      "agenda w' = filter (\<lambda>d. unat ?at < fst d) (agenda w)" "wf_wheel w'"
      "trigger_before_ms w' = max (trigger_before_ms w) ?at"
    using trigger_loop_quiet [OF assms(1) slot_timestamp_mod [OF assms(2)], of now1 "[]"] by blast
  then show ?thesis
    by (simp add: trigger_timer_def unat_slot_timestamp [OF assms(2)])
qed

section \<open>Adding and removing\<close>

text \<open>How many slots ahead of the next one a time lies, and when the wheel will reach that slot.\<close>

definition slots_ahead :: "'cb wheel \<Rightarrow> nat \<Rightarrow> nat" where
  "slots_ahead w at = ((at - unat (trigger_before_ms w)) div 10 - 1) mod n_slots"

definition reached_at :: "'cb wheel \<Rightarrow> nat \<Rightarrow> nat" where
  "reached_at w at = unat (trigger_before_ms w) + 10 * (slots_ahead w at + 1)"

lemma reached_at_exact:
  assumes "wf_wheel w" and "at mod 10 = 0" and "unat (trigger_before_ms w) < at"
    and "at \<le> unat (trigger_before_ms w) + 60000"
  shows "reached_at w at = at"
proof -
  let ?b = "unat (trigger_before_ms w)" and ?q = "(at - unat (trigger_before_ms w)) div 10"
  have "?b mod 10 = 0" using assms(1) by (simp add: wf_wheel_def)
  then obtain c a where ca: "?b = 10 * c" "at = 10 * a"
    using assms(2) by (auto elim!: dvdE simp: dvd_eq_mod_eq_0 [symmetric])
  then have "at - ?b = 10 * (a - c)" by simp
  then have q: "at = ?b + 10 * ?q" "0 < ?q" "?q \<le> 6000"
    using ca assms(3,4) by simp_all
  then have "(?q - 1) mod n_slots = ?q - 1" by (simp add: n_slots_def)
  then show ?thesis using q by (simp add: reached_at_def slots_ahead_def)
qed

lemma slot_of_ahead:
  assumes "wf_wheel w" and "trigger_before_ms w < at_ms" and "unat at_ms mod 10 = 0"
  shows "slot_of w at_ms = (slot_ptr w + 1 + slots_ahead w (unat at_ms)) mod n_slots"
proof -
  let ?b = "unat (trigger_before_ms w)" and ?q = "(unat at_ms - unat (trigger_before_ms w)) div 10"
  have n: "length (slots w) = n_slots" "slot_ptr w < n_slots" and b: "?b mod 10 = 0"
    using assms(1) by (simp_all add: wf_wheel_def)
  have lt: "?b < unat at_ms" using assms(2) by (simp add: word_less_nat_alt)
  then have q: "0 < ?q"
  proof -
    obtain c a where "?b = 10 * c" "unat at_ms = 10 * a"
      using b assms(3) by (auto elim!: dvdE simp: dvd_eq_mod_eq_0 [symmetric])
    then show ?thesis using lt by simp
  qed
  have "unat (at_ms - trigger_before_ms w) = unat at_ms - ?b"
    using assms(2) by (intro unat_sub) simp
  then have qw: "unat ((at_ms - trigger_before_ms w) div every_ms) = ?q"
    by (simp add: unat_div_distrib)
  have "unat at_ms < 2 ^ LENGTH(64)" by (rule unsigned_less)
  then have small: "slot_ptr w + ?q < 2 ^ LENGTH(64)" using n by (simp add: n_slots_def)
  have "unat (of_nat (slot_ptr w) :: u64) = slot_ptr w"
    using n by (simp add: n_slots_def unat_of_nat)
  then have sum: "unat (of_nat (slot_ptr w) + (at_ms - trigger_before_ms w) div every_ms) = slot_ptr w + ?q"
    using small qw by (simp add: unat_add_lem [THEN iffD1])
  have "unat (of_nat n_slots :: u64) = n_slots" by (simp add: n_slots_def)
  then have "slot_of w at_ms = (slot_ptr w + ?q) mod n_slots"
    by (simp add: slot_of_def Let_def n unat_mod_distrib sum)
  also have "slot_ptr w + ?q = slot_ptr w + 1 + (?q - 1)" using q by simp
  also have "\<dots> mod n_slots = (slot_ptr w + 1 + (?q - 1) mod n_slots) mod n_slots"
    by (simp only: mod_add_right_eq)
  finally show ?thesis by (simp only: slots_ahead_def)
qed

lemma agenda_upd:
  assumes "wf_wheel w" and "i < n_slots" and "k = (slot_ptr w + 1 + i) mod n_slots"
  shows "slots w ! k = rot w ! i"
    and "agenda (w\<lparr>slots := (slots w)[k := l], fresh_node := f\<rparr>)
      = agenda_of (unat (trigger_before_ms w)) ((rot w)[i := l])"
proof -
  have n: "length (slots w) = n_slots" "slot_ptr w < n_slots" using assms(1) by (simp_all add: wf_wheel_def)
  show "slots w ! k = rot w ! i" using assms(2,3) n by (simp add: nth_rot)
  have "rot (w\<lparr>slots := (slots w)[k := l], fresh_node := f\<rparr>) = rot (w\<lparr>slots := (slots w)[k := l]\<rparr>)"
    by (simp add: rot_def)
  also have "\<dots> = (rot w)[i := l]"
    using rot_upd [of i w l] assms(2,3) n by simp
  finally show "agenda (w\<lparr>slots := (slots w)[k := l], fresh_node := f\<rparr>)
      = agenda_of (unat (trigger_before_ms w)) ((rot w)[i := l])"
    by (simp add: agenda_def)
qed

lemma slots_ahead_less: "slots_ahead w at < n_slots"
  by (simp add: slots_ahead_def n_slots_def)

text \<open>The delays and clock readings under which nothing wraps around.\<close>

definition calm :: "u64 \<Rightarrow> u64 \<Rightarrow> bool" where
  "calm now after \<longleftrightarrow> unat now + unat after < 2 ^ 64 - 1"

lemma calm_unat:
  assumes "calm now after"
  shows "unat (after + now) = unat now + unat after" and "after + now \<noteq> -1" and "after \<noteq> -1"
proof -
  have "unat (-1 :: u64) = 2 ^ 64 - 1" by (simp add: unsigned_minus_1_eq_mask mask_eq_exp_minus_1)
  moreover have "unat after + unat now < 2 ^ LENGTH(64)" using assms by (simp add: calm_def)
  then show sum: "unat (after + now) = unat now + unat after"
    by (simp add: unat_add_lem [THEN iffD1])
  ultimately show "after + now \<noteq> -1" "after \<noteq> -1"
    using assms by (auto simp: calm_def)
qed

text \<open>Where \<open>add_timer\<close> puts a timer.\<close>

lemma add_timer_cases:
  assumes "wf_wheel w" and "calm now (trigger_after_ms ti)"
  defines "at \<equiv> slot_time (trigger_after_ms ti + now)"
  shows "at \<le> unat (trigger_before_ms w) \<Longrightarrow> add_timer run now now1 now2 ti w
      = bind_res (run (timer_cb ti) w) (\<lambda>w1. Inr (no_timer, w1, [timer_cb ti]))"
    and "unat (trigger_before_ms w) < at \<Longrightarrow> 60000 \<le> unat (trigger_after_ms ti) \<Longrightarrow>
      add_timer run now now1 now2 ti w = Inr (no_timer, w, [])"
    and "unat (trigger_before_ms w) < at \<Longrightarrow> unat (trigger_after_ms ti) < 60000 \<Longrightarrow>
      \<exists>i w'. add_timer run now now1 now2 ti w = Inr (i, w', [])
        \<and> unat (trigger_at_ms i) = at \<and> id_it i = Some (fresh_node w) \<and> wf_wheel w'
        \<and> trigger_before_ms w' = trigger_before_ms w
        \<and> fresh_node w \<in> fst ` set (slots w' ! slot_of w' (trigger_at_ms i))
        \<and> mset (agenda w') = add_mset (reached_at w at, fresh_node w, ti) (mset (agenda w))"
proof -
  let ?a = "trigger_after_ms ti"
  let ?at = "get_slot_timestamp now1 (?a + now)"
  note calm = calm_unat [OF assms(2)]
  have at: "unat ?at = at" using calm by (simp add: unat_slot_timestamp at_def)
  have after: "span_sec * 1000 \<le> get_slot_timestamp now2 ?a \<longleftrightarrow> 60000 \<le> unat ?a"
  proof -
    have "span_sec * 1000 \<le> get_slot_timestamp now2 ?a \<longleftrightarrow> 60000 \<le> slot_time ?a"
      by (simp add: word_le_nat_alt unat_slot_timestamp calm span_sec_def)
    also have "\<dots> \<longleftrightarrow> 6000 \<le> unat ?a div 10" unfolding slot_time_def by linarith
    also have "\<dots> \<longleftrightarrow> 60000 \<le> unat ?a" by (simp add: less_eq_div_iff_mult_less_eq)
    finally show ?thesis .
  qed
  show "at \<le> unat (trigger_before_ms w) \<Longrightarrow> add_timer run now now1 now2 ti w
      = bind_res (run (timer_cb ti) w) (\<lambda>w1. Inr (no_timer, w1, [timer_cb ti]))"
    by (simp add: add_timer_def word_le_nat_alt at)
  show "unat (trigger_before_ms w) < at \<Longrightarrow> 60000 \<le> unat ?a \<Longrightarrow>
      add_timer run now now1 now2 ti w = Inr (no_timer, w, [])"
    by (simp add: add_timer_def word_le_nat_alt at Let_def after [unfolded word_le_nat_alt])
  assume lt: "unat (trigger_before_ms w) < at" and small: "unat ?a < 60000"
  let ?k = "slot_of w ?at" and ?i = "slots_ahead w at"
  let ?w = "w\<lparr>slots := (slots w)[?k := slots w ! ?k @ [(fresh_node w, ti)]], fresh_node := fresh_node w + 1\<rparr>"
  have "trigger_before_ms w < ?at" using lt by (simp add: word_less_nat_alt at)
  then have k: "?k = (slot_ptr w + 1 + ?i) mod n_slots"
    using slot_of_ahead [OF assms(1) _ slot_timestamp_mod [OF calm(2)], of now1] at by simp
  note upd = agenda_upd [OF assms(1) slots_ahead_less k]
  have "?i < length (rot w)" using assms(1) slots_ahead_less by (simp add: wf_wheel_def)
  from agenda_of_insert [OF this, of "unat (trigger_before_ms w)" "(fresh_node w, ti)"]
  have ag: "mset (agenda ?w) = add_mset (reached_at w at, fresh_node w, ti) (mset (agenda w))"
    by (simp add: upd reached_at_def agenda_def [of w])
  have wf: "wf_wheel ?w"
    using assms(1) nodes_ok_add [of "fresh_node w" "slots w" ?k ti] by (simp add: wf_wheel_def)
  have "?k < length (slots w)" using assms(1) by (simp add: k wf_wheel_def n_slots_def)
  moreover have "slot_of ?w ?at = ?k" by (simp add: slot_of_def)
  ultimately have node: "fresh_node w \<in> fst ` set (slots ?w ! slot_of ?w ?at)" by simp
  have "add_timer run now now1 now2 ti w = Inr (\<lparr>trigger_at_ms = ?at, id_it = Some (fresh_node w)\<rparr>, ?w, [])"
    using lt small by (simp add: add_timer_def word_le_nat_alt at Let_def after [unfolded word_le_nat_alt])
  then show "\<exists>i w'. add_timer run now now1 now2 ti w = Inr (i, w', [])
        \<and> unat (trigger_at_ms i) = at \<and> id_it i = Some (fresh_node w) \<and> wf_wheel w'
        \<and> trigger_before_ms w' = trigger_before_ms w
        \<and> fresh_node w \<in> fst ` set (slots w' ! slot_of w' (trigger_at_ms i))
        \<and> mset (agenda w') = add_mset (reached_at w at, fresh_node w, ti) (mset (agenda w))"
    using ag wf node by (intro exI conjI) (assumption | simp add: at)+
qed

lemma remove_timer_live:
  assumes "wf_wheel w" and "trigger_before_ms w < trigger_at_ms i" and "unat (trigger_at_ms i) mod 10 = 0"
    and "id_it i = Some node" and "node \<in> fst ` set (slots w ! slot_of w (trigger_at_ms i))"
  shows "\<exists>w'. remove_timer i w = Inr w' \<and> wf_wheel w' \<and> trigger_before_ms w' = trigger_before_ms w
    \<and> node \<notin> fst ` set (slots w' ! slot_of w' (trigger_at_ms i))
    \<and> agenda w' = filter (\<lambda>d. fst (snd d) \<noteq> node) (agenda w)"
proof -
  let ?k = "slot_of w (trigger_at_ms i)" and ?j = "slots_ahead w (unat (trigger_at_ms i))"
  let ?l = "filter (\<lambda>x. fst x \<noteq> node) (slots w ! ?k)"
  let ?w = "w\<lparr>slots := (slots w)[?k := ?l]\<rparr>"
  have n: "length (slots w) = n_slots" "nodes_ok (fresh_node w) (slots w)"
    using assms(1) by (simp_all add: wf_wheel_def)
  have k: "?k = (slot_ptr w + 1 + ?j) mod n_slots" by (rule slot_of_ahead [OF assms(1-3)])
  note upd = agenda_upd [OF assms(1) slots_ahead_less k]
  have w: "?w = w\<lparr>slots := (slots w)[?k := ?l], fresh_node := fresh_node w\<rparr>" by simp
  have "agenda ?w = agenda_of (unat (trigger_before_ms w)) ((rot w)[?j := filter (\<lambda>x. fst x \<noteq> node) (rot w ! ?j)])"
    by (subst w) (simp only: upd)
  also have "\<dots> = filter (\<lambda>d. fst (snd d) \<noteq> node) (agenda w)"
    unfolding agenda_def
  proof (rule agenda_of_remove)
    show j: "?j < length (rot w)" using slots_ahead_less by (simp add: n)
    obtain x where x: "x \<in> set (slots w ! ?k)" "fst x = node" using assms(5) by auto
    have klt: "?k < length (slots w)" unfolding k n by (simp add: n_slots_def)
    show "\<forall>a < length (rot w). a \<noteq> ?j \<longrightarrow> node \<notin> fst ` set (rot w ! a)"
    proof (intro allI impI notI)
      fix a assume a: "a < length (rot w)" "a \<noteq> ?j" "node \<in> fst ` set (rot w ! a)"
      let ?m = "(slot_ptr w + 1 + a) mod n_slots"
      have "?m < length (slots w)" by (simp add: n n_slots_def)
      moreover have "rot w ! a = slots w ! ?m" using a(1) nth_rot [of a w] by (simp add: n)
      ultimately have "?m = ?k" using a(3) x klt nodes_okD(3) [OF n(2), of ?m ?k _ x] by auto
      then show False
        using a(1,2) mod_shift_inj [of a n_slots ?j "slot_ptr w + 1"]
          slots_ahead_less [of w "unat (trigger_at_ms i)"] by (simp add: k n)
    qed
  qed
  finally have ag: "agenda ?w = filter (\<lambda>d. fst (snd d) \<noteq> node) (agenda w)" .
  have "nodes_ok (fresh_node w) ((slots w)[?k := ?l])"
  proof (rule nodes_ok_shrink [OF n(2)])
    have "?k < length (slots w)" unfolding k n by (simp add: n_slots_def)
    then show "distinct (map fst ?l)" using nodes_okD(1) [OF n(2)] by (simp add: distinct_map_filter)
  qed auto
  then have wf: "wf_wheel ?w" using assms(1) by (simp add: wf_wheel_def)
  have "remove_timer i w = Inr ?w"
    using assms(2,4,5) by (simp add: remove_timer_def Let_def)
  moreover have "node \<notin> fst ` set (slots ?w ! slot_of ?w (trigger_at_ms i))"
  proof -
    have "?k < length (slots w)" unfolding k n by (simp add: n_slots_def)
    moreover have "slot_of ?w (trigger_at_ms i) = ?k" by (simp add: slot_of_def)
    ultimately show ?thesis by auto
  qed
  ultimately show ?thesis using ag wf by (intro exI [of _ ?w]) simp
qed

lemma agenda_node_less:
  assumes "wf_wheel w" and "d \<in> set (agenda w)"
  shows "fst (snd d) < fresh_node w"
proof -
  have "snd d \<in> set (map snd (agenda w))" using assms(2) by simp
  then have "snd d \<in> set (concat (slots w))"
    unfolding agenda_def agenda_of_nodes by (simp only: set_concat set_rot)
  then obtain l where "l \<in> set (slots w)" "snd d \<in> set l" by auto
  then obtain j where "j < length (slots w)" "snd d \<in> set (slots w ! j)"
    unfolding in_set_conv_nth [of l] by blast
  moreover have "nodes_ok (fresh_node w) (slots w)" using assms(1) by (simp add: wf_wheel_def)
  ultimately show ?thesis using nodes_okD(2) by blast
qed

text \<open>A timer is added and the wheel triggered.\<close>

lemma add_then_trigger:
  assumes "wf_wheel w" and "calm now (trigger_after_ms ti)" and "t \<noteq> -1"
  defines "at \<equiv> slot_time (trigger_after_ms ti + now)"
  assumes "unat (trigger_before_ms w) < at" and "unat (trigger_after_ms ti) < 60000"
  shows "\<exists>i w1 w2 fired. add_timer run now now1 now2 ti w = Inr (i, w1, [])
       \<and> trigger_timer quiet now3 t w1 = Some (Inr (w2, fired, 10))
       \<and> mset fired = mset (map (timer_cb \<circ> snd \<circ> snd) (filter (\<lambda>d. fst d \<le> slot_time t) (agenda w)))
           + (if reached_at w at \<le> slot_time t then {#timer_cb ti#} else {#})"
proof -
  obtain i w1 where w1: "add_timer run now now1 now2 ti w = Inr (i, w1, [])" "wf_wheel w1"
      "mset (agenda w1) = add_mset (reached_at w at, fresh_node w, ti) (mset (agenda w))"
    using add_timer_cases(3) [OF assms(1,2), folded at_def, OF assms(5,6)] by blast
  obtain w2 where w2: "trigger_timer quiet now3 t w1 = Some (Inr (w2,
      map (timer_cb \<circ> snd \<circ> snd) (filter (\<lambda>d. fst d \<le> slot_time t) (agenda w1)), every_ms))"
    using trigger_timer_quiet [OF w1(2) assms(3)] by blast
  have "mset (map (timer_cb \<circ> snd \<circ> snd) (filter (\<lambda>d. fst d \<le> slot_time t) (agenda w1)))
      = image_mset (timer_cb \<circ> snd \<circ> snd) (filter_mset (\<lambda>d. fst d \<le> slot_time t) (mset (agenda w1)))"
    by simp
  also have "\<dots> = mset (map (timer_cb \<circ> snd \<circ> snd) (filter (\<lambda>d. fst d \<le> slot_time t) (agenda w)))
         + (if reached_at w at \<le> slot_time t then {#timer_cb ti#} else {#})"
    unfolding w1(3) by simp
  finally show ?thesis using w1(1) w2 by (simp add: every_ms_def)
qed

section \<open>The scheduler as an interface\<close>

text \<open>
  What \<open>TimerSchedulerAdapter\<close> relies on: a trigger calls exactly the callbacks that are due,
  in the order of their times, and keeps the others.
\<close>

locale timer_queue =
  fixes due :: "'q \<Rightarrow> (nat \<times> 'e) list"
    and trigger :: "u64 \<Rightarrow> 'q \<Rightarrow> ('q \<times> 'e list) option"
    and ok :: "'q \<Rightarrow> bool"
  assumes due_sorted: "ok q \<Longrightarrow> sorted (map fst (due q))"
    and trigger_due: "ok q \<Longrightarrow> t \<noteq> -1 \<Longrightarrow>
      \<exists>q'. trigger t q = Some (q', map snd (filter (\<lambda>d. fst d \<le> slot_time t) (due q)))
        \<and> due q' = filter (\<lambda>d. slot_time t < fst d) (due q) \<and> ok q'"
begin

fun triggers :: "u64 list \<Rightarrow> 'q \<Rightarrow> ('q \<times> 'e list) option" where
  "triggers [] q = Some (q, [])"
| "triggers (t # ts) q =
     (case trigger t q of None \<Rightarrow> None
      | Some (q1, fired) \<Rightarrow>
          (case triggers ts q1 of None \<Rightarrow> None | Some (q2, fired2) \<Rightarrow> Some (q2, fired @ fired2)))"

lemma sorted_filter_le_split:
  "sorted (map fst ds) \<Longrightarrow> a \<le> b \<Longrightarrow>
     filter (\<lambda>d. fst d \<le> a) ds @ filter (\<lambda>d. fst d \<le> b) (filter (\<lambda>d. a < fst d) ds)
       = filter (\<lambda>d. fst d \<le> b) (ds :: (nat \<times> 'e) list)"
proof (induction ds)
  case (Cons d ds)
  show ?case
  proof (cases "fst d \<le> a")
    case True
    then show ?thesis using Cons by simp
  next
    case False
    then have "filter (\<lambda>d. fst d \<le> a) (d # ds) = []" and "filter (\<lambda>d. a < fst d) (d # ds) = d # ds"
      using Cons.prems by (auto simp: filter_empty_conv filter_id_conv)
    then show ?thesis by simp
  qed
qed simp

text \<open>Triggers at times that do not go back together do what the last of them would do alone.\<close>

lemma triggers_due:
  "ok q \<Longrightarrow> -1 \<notin> set (ts @ [t]) \<Longrightarrow> sorted (map slot_time (ts @ [t])) \<Longrightarrow>
     \<exists>q'. triggers (ts @ [t]) q = Some (q', map snd (filter (\<lambda>d. fst d \<le> slot_time t) (due q)))
       \<and> due q' = filter (\<lambda>d. slot_time t < fst d) (due q) \<and> ok q'"
proof (induction ts arbitrary: q)
  case Nil
  then show ?case using trigger_due [of q t] by auto
next
  case (Cons s ts)
  have le: "slot_time s \<le> slot_time t" using Cons.prems by simp
  obtain q1 where q1: "trigger s q = Some (q1, map snd (filter (\<lambda>d. fst d \<le> slot_time s) (due q)))"
      "due q1 = filter (\<lambda>d. slot_time s < fst d) (due q)" "ok q1"
    using trigger_due [of q s] Cons.prems by auto
  have "-1 \<notin> set (ts @ [t])" "sorted (map slot_time (ts @ [t]))" using Cons.prems by simp_all
  from Cons.IH [OF q1(3) this] obtain q2 where q2:
      "triggers (ts @ [t]) q1 = Some (q2, map snd (filter (\<lambda>d. fst d \<le> slot_time t) (due q1)))"
      "due q2 = filter (\<lambda>d. slot_time t < fst d) (due q1)" "ok q2"
    by blast
  have "filter (\<lambda>d. slot_time t < fst d) (filter (\<lambda>d. slot_time s < fst d) (due q))
      = filter (\<lambda>d. slot_time t < fst d) (due q)"
    using le by (auto intro!: filter_cong)
  then show ?case
    using q1 q2 sorted_filter_le_split [OF due_sorted [OF Cons.prems(1)] le]
    by (simp flip: map_append)
qed

end

text \<open>The wheel with quiet callbacks.\<close>

definition due_callbacks :: "'cb wheel \<Rightarrow> (nat \<times> 'cb) list" where
  "due_callbacks w = map (\<lambda>d. (fst d, timer_cb (snd (snd d)))) (agenda w)"

definition quiet_trigger :: "u64 \<Rightarrow> 'cb wheel \<Rightarrow> ('cb wheel \<times> 'cb list) option" where
  "quiet_trigger t w =
     (case trigger_timer quiet t t w of Some (Inr (w', fired, _)) \<Rightarrow> Some (w', fired) | _ \<Rightarrow> None)"

interpretation tw: timer_queue due_callbacks quiet_trigger wf_wheel
proof
  fix w :: "'cb wheel" and t :: u64
  assume wf: "wf_wheel w"
  show "sorted (map fst (due_callbacks w))"
    using agenda_sorted [of w] by (simp add: due_callbacks_def comp_def)
  assume t: "t \<noteq> -1"
  obtain w' where "trigger_timer quiet t t w = Some (Inr (w',
        map (timer_cb \<circ> snd \<circ> snd) (filter (\<lambda>d. fst d \<le> slot_time t) (agenda w)), every_ms))"
      "agenda w' = filter (\<lambda>d. slot_time t < fst d) (agenda w)" "wf_wheel w'"
    using trigger_timer_quiet [OF wf t] by blast
  then show "\<exists>w'. quiet_trigger t w = Some (w', map snd (filter (\<lambda>d. fst d \<le> slot_time t) (due_callbacks w)))
      \<and> due_callbacks w' = filter (\<lambda>d. slot_time t < fst d) (due_callbacks w) \<and> wf_wheel w'"
    by (simp add: quiet_trigger_def due_callbacks_def filter_map comp_def)
qed

section \<open>Properties\<close>

lemma wf_new_wheel: "now \<noteq> -1 \<Longrightarrow> wf_wheel (new_wheel now) \<and> agenda (new_wheel now) = []"
proof -
  assume "now \<noteq> -1"
  then have "get_slot_timestamp now (-1) = get_slot_timestamp now now"
    by (simp add: get_slot_timestamp_def)
  moreover have "unat (get_slot_timestamp now now) mod 10 = 0"
    by (rule slot_timestamp_mod [OF \<open>now \<noteq> -1\<close>])
  moreover have "agenda_of b (replicate n []) = []" for b n by (induction n arbitrary: b) simp_all
  moreover have "rotate k (replicate n x) = replicate n x" for k n and x :: "(nat \<times> 'a timer) list"
    by (rule nth_equalityI) (simp_all add: nth_rotate)
  ultimately show "wf_wheel (new_wheel now) \<and> agenda (new_wheel now) = []"
    by (simp add: wf_wheel_def new_wheel_def agenda_def rot_def n_slots_def nodes_ok_def)
qed

text \<open>
  C6: \<open>trigger_timer\<close> does what a timer queue should. For a well-formed wheel and callbacks
  that leave it alone, the call returns; it has called exactly the callbacks whose slot is
  reached by the slot time of its argument, in the order of their slots and within a slot in
  the order of their insertion; the others are kept unchanged, however many slots or whole
  revolutions the call moves; and it asks to be called again after 10 ms.
\<close>

theorem trigger_fires_the_due:
  assumes "wf_wheel w" and "t \<noteq> -1"
  shows "\<exists>w'. trigger_timer quiet now1 t w
      = Some (Inr (w', map (timer_cb \<circ> snd \<circ> snd) (filter (\<lambda>d. fst d \<le> slot_time t) (agenda w)), 10))
    \<and> agenda w' = filter (\<lambda>d. slot_time t < fst d) (agenda w)
    \<and> sorted (map fst (agenda w)) \<and> wf_wheel w'"
  using trigger_timer_quiet [OF assms] agenda_sorted [of w] by (auto simp: every_ms_def)

text \<open>
  The first time from now on at which the wheel reaches the slot of a time \<open>at\<close>: \<open>at\<close> itself when
  that is at most a revolution ahead.
\<close>

definition due_time :: "nat \<Rightarrow> nat \<Rightarrow> nat" where
  "due_time before at = before + 10 + (at - before - 10) mod 60000"

lemma due_time_near: "before < at \<Longrightarrow> at \<le> before + 60000 \<Longrightarrow> before mod 10 = 0 \<Longrightarrow> at mod 10 = 0 \<Longrightarrow> due_time before at = at"
proof -
  assume *: "before < at" "at \<le> before + 60000" "before mod 10 = 0" "at mod 10 = 0"
  then obtain c a where "before = 10 * c" "at = 10 * a" by (auto elim!: dvdE simp: dvd_eq_mod_eq_0 [symmetric])
  then have "before + 10 \<le> at" using *(1) by simp
  then show ?thesis using *(2) by (simp add: due_time_def)
qed

lemma reached_at_due:
  assumes "wf_wheel w" and "at mod 10 = 0" and "unat (trigger_before_ms w) < at"
  shows "reached_at w at = due_time (unat (trigger_before_ms w)) at"
proof -
  let ?b = "unat (trigger_before_ms w)"
  have "?b mod 10 = 0" using assms(1) by (simp add: wf_wheel_def)
  then obtain c a where ca: "?b = 10 * c" "at = 10 * a"
    using assms(2) by (auto elim!: dvdE simp: dvd_eq_mod_eq_0 [symmetric])
  have "(at - ?b) div 10 = a - c" "at - ?b - 10 = 10 * (a - c - 1)" using ca by simp_all
  moreover have "10 * (a - c - 1) mod 60000 = 10 * ((a - c - 1) mod 6000)"
    using mult_mod_right [of 10 "a - c - 1" 6000] by simp
  ultimately show ?thesis by (simp add: reached_at_def slots_ahead_def due_time_def n_slots_def)
qed

text \<open>A timer is filed, and then the wheel triggered any number of times.\<close>

lemma file_then_triggers:
  assumes "wf_wheel w" and "calm now (trigger_after_ms ti)"
  defines "at \<equiv> slot_time (trigger_after_ms ti + now)"
  assumes "unat (trigger_before_ms w) < at" and "unat (trigger_after_ms ti) < 60000"
  obtains i w1 where "add_timer run now now1 now2 ti w = Inr (i, w1, [])" and "wf_wheel w1"
    and "\<forall>ts t. -1 \<notin> set (ts @ [t]) \<and> sorted (map slot_time (ts @ [t])) \<longrightarrow>
      (\<exists>w2 fired. tw.triggers (ts @ [t]) w1 = Some (w2, fired)
       \<and> mset fired = mset (map snd (filter (\<lambda>d. fst d \<le> slot_time t) (due_callbacks w)))
           + (if due_time (unat (trigger_before_ms w)) at \<le> slot_time t then {#timer_cb ti#} else {#})
       \<and> mset (due_callbacks w2) = mset (filter (\<lambda>d. slot_time t < fst d) (due_callbacks w))
           + (if due_time (unat (trigger_before_ms w)) at \<le> slot_time t then {#}
              else {#(due_time (unat (trigger_before_ms w)) at, timer_cb ti)#}))"
proof -
  let ?due = "due_time (unat (trigger_before_ms w)) at"
  have due: "reached_at w at = ?due"
    by (rule reached_at_due [OF assms(1) _ assms(4)]) (simp add: at_def slot_time_bounds)
  obtain i w1 where w1: "add_timer run now now1 now2 ti w = Inr (i, w1, [])" "wf_wheel w1"
      "mset (agenda w1) = add_mset (?due, fresh_node w, ti) (mset (agenda w))"
    using add_timer_cases(3) [OF assms(1,2), folded at_def, OF assms(4,5), of run now1 now2] unfolding due by blast
  have "mset (due_callbacks w1) = image_mset (\<lambda>d. (fst d, timer_cb (snd (snd d)))) (mset (agenda w1))"
    by (simp add: due_callbacks_def)
  also have "\<dots> = add_mset (?due, timer_cb ti) (mset (due_callbacks w))"
    unfolding w1(3) by (simp add: due_callbacks_def)
  finally have ag: "mset (due_callbacks w1) = add_mset (?due, timer_cb ti) (mset (due_callbacks w))" .
  have filed: "mset (filter P (due_callbacks w1)) = mset (filter P (due_callbacks w)) + (if P (?due, timer_cb ti) then {#(?due, timer_cb ti)#} else {#})" for P
    using arg_cong [OF ag, of "filter_mset P"] by simp
  have "\<exists>w2 fired. tw.triggers (ts @ [t]) w1 = Some (w2, fired)
       \<and> mset fired = mset (map snd (filter (\<lambda>d. fst d \<le> slot_time t) (due_callbacks w)))
           + (if ?due \<le> slot_time t then {#timer_cb ti#} else {#})
       \<and> mset (due_callbacks w2) = mset (filter (\<lambda>d. slot_time t < fst d) (due_callbacks w))
           + (if ?due \<le> slot_time t then {#} else {#(?due, timer_cb ti)#})"
    if ts: "-1 \<notin> set (ts @ [t])" "sorted (map slot_time (ts @ [t]))" for ts t
  proof -
    obtain w2 where w2: "tw.triggers (ts @ [t]) w1 = Some (w2, map snd (filter (\<lambda>d. fst d \<le> slot_time t) (due_callbacks w1)))"
        "due_callbacks w2 = filter (\<lambda>d. slot_time t < fst d) (due_callbacks w1)"
      using tw.triggers_due [OF w1(2) ts] by blast
    have "mset (map snd (filter (\<lambda>d. fst d \<le> slot_time t) (due_callbacks w1)))
        = image_mset snd (mset (filter (\<lambda>d. fst d \<le> slot_time t) (due_callbacks w1)))" by simp
    then show ?thesis using w2 filed by auto
  qed
  then show ?thesis using that [OF w1(1,2)] by blast
qed

text \<open>
  C21: A call of \<open>add_timer\<close>, and any calls of \<open>trigger_timer\<close> after it whose slot times do not go
  back, with callbacks that leave the wheel alone. The timer's slot time is the time asked for,
  rounded down to 10 ms. If the wheel has reached it, the callback runs at once, in the call; else
  a delay of a minute or more is dropped, and any other is filed. A filed timer is called
  exactly once, by the first trigger that reaches the time at which the wheel comes to its slot,
  together with the others due, and until then it stays in the wheel. That time is the slot
  time if that is at most a revolution (60 s) ahead of the wheel; for a wheel that is further
  behind it is earlier by a multiple of a revolution.
\<close>

theorem timer_fires_on_time:
  assumes "wf_wheel w" and "calm now (trigger_after_ms ti)"
  defines "at \<equiv> slot_time (trigger_after_ms ti + now)" and "before \<equiv> unat (trigger_before_ms w)"
  shows "unat now + unat (trigger_after_ms ti) < at + 10 \<and> at \<le> unat now + unat (trigger_after_ms ti) \<and>
    (if at \<le> before then add_timer quiet now now1 now2 ti w = Inr (no_timer, w, [timer_cb ti])
     else if 60000 \<le> unat (trigger_after_ms ti) then add_timer quiet now now1 now2 ti w = Inr (no_timer, w, [])
     else (at \<le> before + 60000 \<longrightarrow> due_time before at = at)
       \<and> (\<exists>i w1. add_timer quiet now now1 now2 ti w = Inr (i, w1, [])
       \<and> (\<forall>ts t. -1 \<notin> set (ts @ [t]) \<and> sorted (map slot_time (ts @ [t])) \<longrightarrow>
           (\<exists>w2 fired. tw.triggers (ts @ [t]) w1 = Some (w2, fired)
            \<and> mset fired = mset (map snd (filter (\<lambda>d. fst d \<le> slot_time t) (due_callbacks w)))
                + (if due_time before at \<le> slot_time t then {#timer_cb ti#} else {#})
            \<and> mset (due_callbacks w2) = mset (filter (\<lambda>d. slot_time t < fst d) (due_callbacks w))
                + (if due_time before at \<le> slot_time t then {#} else {#(due_time before at, timer_cb ti)#})))))"
proof -
  note cases = add_timer_cases [OF assms(1,2), where run = quiet and ?now1.0 = now1 and ?now2.0 = now2, folded at_def]
  have bounds: "unat now + unat (trigger_after_ms ti) < at + 10" "at \<le> unat now + unat (trigger_after_ms ti)"
    using slot_time_bounds [of "trigger_after_ms ti + now"] calm_unat(1) [OF assms(2)] by (simp_all add: at_def)
  have near: "before < at \<Longrightarrow> at \<le> before + 60000 \<Longrightarrow> due_time before at = at"
    using assms(1) by (intro due_time_near) (simp_all add: before_def at_def wf_wheel_def slot_time_bounds)
  consider "at \<le> before" | "before < at" "60000 \<le> unat (trigger_after_ms ti)"
    | (filed) "before < at" "unat (trigger_after_ms ti) < 60000" by linarith
  then show ?thesis
  proof cases
    case filed
    note now = file_then_triggers [OF assms(1,2), folded at_def before_def, OF filed, of quiet now1 now2]
    show ?thesis
      by (rule now) (use bounds near filed in \<open>auto simp: not_le intro: exI\<close>)
  qed (use bounds cases(1,2) in \<open>simp_all add: before_def quiet_def not_le\<close>)
qed

definition tick_timer :: "string timer" where
  "tick_timer = \<lparr>trigger_after_ms = 50, timer_cb = ''tick''\<rparr>"

lemma calm_tick: "calm 1000 (trigger_after_ms tick_timer)"
  by (simp add: calm_def tick_timer_def)

theorem timer_fires_on_time_witness:
  "\<exists>i w1 w2 w3. add_timer quiet 1000 0 0 tick_timer (new_wheel 1000) = Inr (i, w1, [])
     \<and> tw.triggers ([1010, 1030] @ [1049]) w1 = Some (w2, []) \<and> tw.triggers ([1020] @ [1055]) w1 = Some (w3, [''tick''])"
proof -
  have wf: "wf_wheel (new_wheel 1000 :: string wheel)" "due_callbacks (new_wheel 1000 :: string wheel) = []"
    using wf_new_wheel [of 1000] by (auto simp: due_callbacks_def)
  have b: "unat (trigger_before_ms (new_wheel 1000 :: string wheel)) = 1000"
    by (simp add: new_wheel_def get_slot_timestamp_def every_ms_def)
  have num: "slot_time (trigger_after_ms tick_timer + 1000) = 1050" "unat (trigger_after_ms tick_timer) = 50"
      "timer_cb tick_timer = ''tick''" "due_time 1000 1050 = 1050" by (simp_all add: slot_time_def tick_timer_def due_time_def)
  obtain i w1 where w1: "add_timer quiet 1000 0 0 tick_timer (new_wheel 1000) = Inr (i, w1, [])"
      "\<forall>ts t. -1 \<notin> set (ts @ [t]) \<and> sorted (map slot_time (ts @ [t])) \<longrightarrow>
           (\<exists>w2 fired. tw.triggers (ts @ [t]) w1 = Some (w2, fired)
            \<and> mset fired = (if 1050 \<le> slot_time t then {#''tick''#} else {#})
            \<and> mset (due_callbacks w2) = (if 1050 \<le> slot_time t then {#} else {#(1050, ''tick'')#}))"
    using timer_fires_on_time [OF wf(1) calm_tick, of 0 0] unfolding num b wf(2) by (simp del: map_append sorted_append) blast
  obtain w2 where "tw.triggers ([1010, 1030] @ [1049]) w1 = Some (w2, [])"
    using w1(2) [rule_format, of "[1010, 1030]" 1049] by (auto simp: slot_time_def)
  moreover obtain w3 fired where "tw.triggers ([1020] @ [1055]) w1 = Some (w3, fired)" "mset fired = {#''tick''#}"
    using w1(2) [rule_format, of "[1020]" 1055] by (auto simp: slot_time_def)
  ultimately show ?thesis using w1(1) by auto
qed

theorem trigger_fires_the_due_witness:
  "\<exists>i w1 w2. add_timer quiet 1000 0 0 tick_timer (new_wheel 1000) = Inr (i, w1, [])
     \<and> trigger_timer quiet 0 1050 w1 = Some (Inr (w2, [''tick''], 10)) \<and> agenda w2 = []"
proof -
  have wf: "wf_wheel (new_wheel 1000 :: string wheel)" "agenda (new_wheel 1000 :: string wheel) = []"
    "unat (trigger_before_ms (new_wheel 1000 :: string wheel)) = 1000"
    using wf_new_wheel [of 1000] by (auto simp: new_wheel_def get_slot_timestamp_def every_ms_def)
  obtain i w1 where w1: "add_timer quiet 1000 0 0 tick_timer (new_wheel 1000) = Inr (i, w1, [])" "wf_wheel w1"
      "mset (agenda w1) = {#(reached_at (new_wheel 1000 :: string wheel) 1050, fresh_node (new_wheel 1000 :: string wheel), tick_timer)#}"
    using add_timer_cases(3) [OF wf(1) calm_tick, of quiet 0 0]
    by (auto simp: slot_time_def tick_timer_def wf(2,3))
  have "reached_at (new_wheel 1000 :: string wheel) 1050 = 1050"
    by (rule reached_at_exact [OF wf(1)]) (simp_all add: wf(3))
  then have "agenda w1 = [(1050, fresh_node (new_wheel 1000 :: string wheel), tick_timer)]"
    using w1(3) by simp
  then show ?thesis
    using w1(1) trigger_fires_the_due [OF w1(2), of 1050 0] by (auto simp: slot_time_def tick_timer_def)
qed

text \<open>
  A wheel that lags behind the clock fires timers a whole revolution early. When the slot
  time of an accepted timer is more than 60 s (and at most 120 s) ahead of
  \<open>trigger_before_ms\<close>, as after a callback that blocked the loop, the slot is computed modulo
  the number of slots, and the first trigger that comes within 60 s before the timer's time,
  or later, calls it.
\<close>

theorem late_wheel_fires_early:
  assumes "wf_wheel w" and "calm now (trigger_after_ms ti)" and "t \<noteq> -1"
    and "unat (trigger_after_ms ti) < 60000"
  defines "at \<equiv> slot_time (trigger_after_ms ti + now)"
  assumes "unat (trigger_before_ms w) + 60000 < at" and "at \<le> unat (trigger_before_ms w) + 120000"
  shows "\<exists>i w1 w2 fired. add_timer run now now1 now2 ti w = Inr (i, w1, [])
       \<and> trigger_timer quiet now3 t w1 = Some (Inr (w2, fired, 10))
       \<and> mset fired = mset (map (timer_cb \<circ> snd \<circ> snd) (filter (\<lambda>d. fst d \<le> slot_time t) (agenda w)))
           + (if at - 60000 \<le> slot_time t then {#timer_cb ti#} else {#})"
proof -
  let ?b = "unat (trigger_before_ms w)"
  have lt: "?b < at" using assms(6) by simp
  have at: "at mod 10 = 0" by (simp add: at_def slot_time_bounds)
  have "?b mod 10 = 0" using assms(1) by (simp add: wf_wheel_def)
  then obtain c a where ca: "?b = 10 * c" "at = 10 * a"
    using at by (auto elim!: dvdE simp: dvd_eq_mod_eq_0 [symmetric])
  then have "(at - ?b) div 10 = a - c" by simp
  moreover have "a - c - 1 = (a - c - 6001) + 6000" "a - c - 6001 < 6000" "c + 6000 < a"
    using ca assms(6,7) by simp_all
  ultimately have "slots_ahead w at = a - c - 6001"
    by (simp only: slots_ahead_def n_slots_def mod_add_self2 mod_less)
  then have "reached_at w at = at - 60000"
    using ca \<open>c + 6000 < a\<close> by (simp add: reached_at_def)
  then show ?thesis
    using add_then_trigger [OF assms(1-3), folded at_def, OF lt assms(4), of run now1 now2 now3] by simp
qed

definition late_timer :: "string timer" where
  "late_timer = \<lparr>trigger_after_ms = 30000, timer_cb = ''late''\<rparr>"

lemma sample_wheel:
  "wf_wheel (new_wheel 1000 :: string wheel)" "agenda (new_wheel 1000 :: string wheel) = []"
  "unat (trigger_before_ms (new_wheel 1000 :: string wheel)) = 1000"
  using wf_new_wheel [of 1000] by (auto simp: new_wheel_def get_slot_timestamp_def every_ms_def)

text \<open>At 41 s, 40 s after the wheel was last triggered, a delay of 30 s: called at once.\<close>

theorem late_wheel_fires_early_witness:
  "\<exists>i w1 w2 fired. add_timer quiet 41000 0 0 late_timer (new_wheel 1000) = Inr (i, w1, [])
     \<and> trigger_timer quiet 0 41000 w1 = Some (Inr (w2, fired, 10)) \<and> mset fired = {#''late''#}"
proof -
  have "calm 41000 (trigger_after_ms late_timer)" by (simp add: calm_def late_timer_def)
  from late_wheel_fires_early [OF sample_wheel(1) this, of 41000 quiet 0 0 0] show ?thesis
    by (simp add: slot_time_def late_timer_def sample_wheel)
qed

text \<open>
  C34: \<open>remove_timer\<close> cancels a pending timer and leaves the rest of the wheel as it was before
  the timer was added. A second removal of the same timer erases a list node that no longer
  exists.
\<close>

theorem remove_cancels_once:
  assumes "wf_wheel w" and "calm now (trigger_after_ms ti)"
    and "unat (trigger_before_ms w) < slot_time (trigger_after_ms ti + now)"
    and "unat (trigger_after_ms ti) < 60000"
  shows "\<exists>i w1 w2. add_timer run now now1 now2 ti w = Inr (i, w1, []) \<and> remove_timer i w1 = Inr w2
    \<and> mset (agenda w2) = mset (agenda w) \<and> wf_wheel w2
    \<and> trigger_before_ms w2 = trigger_before_ms w \<and> remove_timer i w2 = Inl Dead_object"
proof -
  let ?at = "slot_time (trigger_after_ms ti + now)" and ?n = "fresh_node w"
  obtain i w1 where w1: "add_timer run now now1 now2 ti w = Inr (i, w1, [])" "wf_wheel w1"
      "unat (trigger_at_ms i) = ?at" "id_it i = Some ?n" "trigger_before_ms w1 = trigger_before_ms w"
      "?n \<in> fst ` set (slots w1 ! slot_of w1 (trigger_at_ms i))"
      "mset (agenda w1) = add_mset (reached_at w ?at, ?n, ti) (mset (agenda w))"
    using add_timer_cases(3) [OF assms] by blast
  have lt: "trigger_before_ms w1 < trigger_at_ms i"
    using assms(3) w1(3,5) by (simp add: word_less_nat_alt)
  have "unat (trigger_at_ms i) mod 10 = 0" by (simp add: w1(3) slot_time_bounds)
  from remove_timer_live [OF w1(2) lt this w1(4,6)] obtain w2 where w2:
      "remove_timer i w1 = Inr w2" "wf_wheel w2" "trigger_before_ms w2 = trigger_before_ms w1"
      "?n \<notin> fst ` set (slots w2 ! slot_of w2 (trigger_at_ms i))"
      "agenda w2 = filter (\<lambda>d. fst (snd d) \<noteq> ?n) (agenda w1)"
    by blast
  have "mset (agenda w2) = filter_mset (\<lambda>d. fst (snd d) \<noteq> ?n) (mset (agenda w))"
    using w1(7) by (simp add: w2(5))
  also have "\<dots> = mset (agenda w)"
    using agenda_node_less [OF assms(1)] by (fastforce simp: filter_mset_eq_conv)
  finally have "mset (agenda w2) = mset (agenda w)" .
  moreover have "remove_timer i w2 = Inl Dead_object"
    using lt w1(4) w2(3,4) by (simp add: remove_timer_def Let_def)
  ultimately show ?thesis using w1(1,5) w2(1-3) by auto
qed

theorem remove_cancels_once_witness:
  "\<exists>i w1 w2. add_timer quiet 1000 0 0 tick_timer (new_wheel 1000) = Inr (i, w1, [])
    \<and> remove_timer i w1 = Inr w2 \<and> agenda w2 = [] \<and> remove_timer i w2 = Inl Dead_object"
  using remove_cancels_once [OF sample_wheel(1) calm_tick, of quiet 0 0]
  by (simp add: slot_time_def tick_timer_def sample_wheel) blast

text \<open>
  Triggering often is triggering once. Any sequence of calls of \<open>trigger_timer\<close> whose slot
  times do not decrease, as \<open>TimerSchedulerAdapter\<close> makes them every 10 ms, calls together
  exactly the callbacks that are due by the last of them, each once and in the order of their
  times, and leaves the others.
\<close>

theorem repeated_triggers:
  assumes "wf_wheel w" and "-1 \<notin> set (ts @ [t])" and "sorted (map slot_time (ts @ [t]))"
  shows "\<exists>w'. tw.triggers (ts @ [t]) w
      = Some (w', map snd (filter (\<lambda>d. fst d \<le> slot_time t) (due_callbacks w)))
    \<and> due_callbacks w' = filter (\<lambda>d. slot_time t < fst d) (due_callbacks w) \<and> wf_wheel w'"
  by (rule tw.triggers_due [OF assms])

theorem repeated_triggers_witness:
  "\<exists>w'. tw.triggers ([1000, 1009] @ [1020]) (new_wheel 1000 :: string wheel)
      = Some (w', map snd (filter (\<lambda>d. fst d \<le> slot_time 1020) (due_callbacks (new_wheel 1000))))
    \<and> due_callbacks w' = filter (\<lambda>d. slot_time 1020 < fst d) (due_callbacks (new_wheel 1000)) \<and> wf_wheel w'"
  by (rule repeated_triggers [OF sample_wheel(1)]) (simp_all add: slot_time_def)

section \<open>The states of a wheel\<close>

text \<open>Any sequence of calls, with callbacks that leave the wheel alone and any id to remove.\<close>

inductive wheel_reach :: "'cb wheel \<Rightarrow> bool" where
  made: "now \<noteq> -1 \<Longrightarrow> wheel_reach (new_wheel now)"
| added: "wheel_reach w \<Longrightarrow> calm now (trigger_after_ms ti) \<Longrightarrow>
    add_timer quiet now now1 now2 ti w = Inr (i, w', fired) \<Longrightarrow> wheel_reach w'"
| removed: "wheel_reach w \<Longrightarrow> remove_timer i w = Inr w' \<Longrightarrow> wheel_reach w'"
| triggered: "wheel_reach w \<Longrightarrow> now \<noteq> -1 \<Longrightarrow>
    trigger_timer quiet now1 now w = Some (Inr (w', fired, after)) \<Longrightarrow> wheel_reach w'"

lemma slot_of_less:
  assumes "length (slots w) = n_slots"
  shows "slot_of w at_ms < n_slots"
proof -
  have "unat (of_nat n_slots :: u64) = n_slots" by (simp add: n_slots_def)
  then show ?thesis using assms by (simp add: slot_of_def Let_def unat_mod n_slots_def)
qed

lemma remove_timer_wf:
  assumes "wf_wheel w" and "remove_timer i w = Inr w'"
  shows "wf_wheel w'"
proof -
  let ?k = "slot_of w (trigger_at_ms i)"
  have n: "length (slots w) = n_slots" "nodes_ok (fresh_node w) (slots w)" using assms(1) by (simp_all add: wf_wheel_def)
  have "wf_wheel (w\<lparr>slots := (slots w)[?k := filter (\<lambda>x. fst x \<noteq> node) (slots w ! ?k)]\<rparr>)" for node
  proof -
    have "distinct (map fst (filter (\<lambda>x. fst x \<noteq> node) (slots w ! ?k)))"
      using nodes_okD(1) [OF n(2)] slot_of_less [OF n(1)] by (simp add: n(1) distinct_map_filter)
    then have "nodes_ok (fresh_node w) ((slots w)[?k := filter (\<lambda>x. fst x \<noteq> node) (slots w ! ?k)])"
      by (intro nodes_ok_shrink [OF n(2)]) auto
    then show ?thesis using assms(1) by (simp add: wf_wheel_def)
  qed
  then show ?thesis
    using assms by (auto simp: remove_timer_def Let_def split: if_splits option.splits)
qed

lemma add_timer_wf:
  assumes "wf_wheel w" and "calm now (trigger_after_ms ti)"
  shows "\<exists>i w' fired. add_timer quiet now now1 now2 ti w = Inr (i, w', fired) \<and> wf_wheel w'"
proof -
  let ?at = "slot_time (trigger_after_ms ti + now)"
  consider "?at \<le> unat (trigger_before_ms w)" | "unat (trigger_before_ms w) < ?at" "60000 \<le> unat (trigger_after_ms ti)"
    | "unat (trigger_before_ms w) < ?at" "unat (trigger_after_ms ti) < 60000" by linarith
  then show ?thesis
  proof cases
    case 1
    then show ?thesis using add_timer_cases(1) [OF assms 1, of quiet now1 now2] assms(1) by (simp add: quiet_def)
  next
    case 2
    then show ?thesis using add_timer_cases(2) [OF assms 2, of quiet now1 now2] assms(1) by simp
  next
    case 3
    then show ?thesis using add_timer_cases(3) [OF assms 3, of quiet now1 now2] by blast
  qed
qed

lemma wheel_reach_wf: "wheel_reach w \<Longrightarrow> wf_wheel w"
proof (induction rule: wheel_reach.induct)
  case (made now)
  then show ?case using wf_new_wheel by blast
next
  case (added w now ti now1 now2 i w' fired)
  then show ?case using add_timer_wf [of w now ti now1 now2] by auto
next
  case (removed w i w')
  then show ?case using remove_timer_wf by blast
next
  case (triggered w now now1 w' fired after)
  then show ?case using trigger_timer_quiet [of w now now1] by auto
qed



end
