(* ===== verification/Coroutines.thy ===== *)
theory Coroutines
  imports Channels TimerWheel "HOL-Library.Multiset"
begin

text \<open>
  Coroutines and their scheduler (src/src/co/Coroutine.hpp, Coroutine.cpp, co_fun.cpp, and
  \<open>ResourceQueue\<close> of src/src/base/base.hpp), for one loop and its thread. A coroutine is named
  by a number, its address. Its body is a program: what it does up to its next suspension and,
  for a call that returns a value, how it goes on with it. The switch of stacks and registers
  (co_swap.s) that lets such a program stop and go on is the subject of \<open>ContextSwitch\<close>.
\<close>

section \<open>Programs and state\<close>

text \<open>
  \<open>Co_io\<close> is \<open>co_read\<close>, \<open>co_write\<close> or \<open>co_accept\<close>, \<open>Co_call\<close> the bare system call, which is also
  what a suspended \<open>Co_io\<close> does when it is resumed; \<open>Co_spawn\<close> is the scheduler's \<open>add_callback\<close>
  called from a coroutine; \<open>Co_throw\<close> is an exception the body does not catch.
\<close>

datatype co_prog =
    Co_end
  | Co_io event_type int "int \<Rightarrow> co_prog"
  | Co_call "int \<Rightarrow> co_prog"
  | Co_sleep u64 co_prog
  | Co_close int co_prog
  | Co_spawn co_prog co_prog
  | Co_yield co_prog
  | Co_throw cerror

text \<open>The functions of co_fun.hpp as such programs; a delay is an \<open>int\<close> converted to \<open>uint64_t\<close>.\<close>

definition co_read :: "int \<Rightarrow> (int \<Rightarrow> co_prog) \<Rightarrow> co_prog" where
  "co_read fd k = Co_io READ fd k"

definition co_write :: "int \<Rightarrow> (int \<Rightarrow> co_prog) \<Rightarrow> co_prog" where
  "co_write fd k = Co_io WRITE fd k"

definition co_accept :: "int \<Rightarrow> (int \<Rightarrow> co_prog) \<Rightarrow> co_prog" where
  "co_accept fd k = Co_io READ fd k"

definition co_sleep :: "32 word \<Rightarrow> co_prog \<Rightarrow> co_prog" where
  "co_sleep ms p = Co_sleep (scast ms) p"

text \<open>
  The scheduler over the poller of its loop, whose callbacks are the coroutines to be woken.
  \<open>handlers\<close> is the number of \<open>handle_co\<close> callbacks in the list of the loop; \<open>suspended\<close> is what a
  coroutine does when it is resumed, none once it has ended; \<open>co_wheel\<close> is the wheel of the
  loop. \<open>pool_queue\<close> and \<open>co_count\<close> are the pool, which the schedulers of a server share (\<open>CoServer\<close>);
  \<open>next_co\<close> supplies addresses. \<open>io_calls\<close> and
  \<open>clock_calls\<close> count the system calls and readings of the clock; \<open>scheduled\<close> and \<open>resumed\<close> only
  record what went through the ready queue, and \<open>elsewhere\<close> which coroutines of the pool are live on
  other schedulers.
\<close>

record co_state = "nat reactor" +
  is_schedule :: bool
  ready_queue :: "nat list"
  co_map :: "nat set"
  fd_map :: "int \<Rightarrow> nat option"
  co_count :: int
  pool_queue :: "nat list"
  next_co :: nat
  elsewhere :: "nat set"
  suspended :: "nat \<Rightarrow> co_prog option"
  handlers :: nat
  co_wheel :: "nat wheel"
  io_calls :: nat
  clock_calls :: nat
  scheduled :: "nat list"
  resumed :: "nat list"

text \<open>What the environment returns: results of system calls and times, in the order of the calls.\<close>

record co_env =
  sys_io :: "nat \<Rightarrow> int"
  sys_clock :: "nat \<Rightarrow> u64"

definition co_init :: "u64 \<Rightarrow> co_state" where
  "co_init now =
     \<lparr>fd_set = {}, event_count = 0, epoll = (\<lambda>_. None), chans = (\<lambda>_. None), next_addr = 0,
      is_schedule = False, ready_queue = [], co_map = {}, fd_map = (\<lambda>_. None), co_count = 0,
      pool_queue = [], next_co = 0, elsewhere = {}, suspended = (\<lambda>_. None), handlers = 0, co_wheel = new_wheel now,
      io_calls = 0, clock_calls = 0, scheduled = [], resumed = []\<rparr>"

section \<open>The pool and the ready queue\<close>

text \<open>\<open>ResourceQueue::get(true)\<close>: the front of the queue, or a new coroutine.\<close>

definition pool_get :: "co_state \<Rightarrow> nat \<times> co_state" where
  "pool_get st =
     (case pool_queue st of
        [] \<Rightarrow> (next_co st, st\<lparr>next_co := next_co st + 1\<rparr>)
      | c # cs \<Rightarrow> (c, st\<lparr>pool_queue := cs\<rparr>))"

definition get_co_channel :: "co_state \<Rightarrow> nat \<times> co_state" where
  "get_co_channel st = pool_get (st\<lparr>co_count := co_count st + 1\<rparr>)"

text \<open>Erasing a coroutine from the map destroys its channel, which gives it back to the pool.\<close>

definition release_co :: "nat \<Rightarrow> co_state \<Rightarrow> co_state" where
  "release_co c st =
     (if c \<in> co_map st
      then st\<lparr>co_map := co_map st - {c}, pool_queue := pool_queue st @ [c], co_count := co_count st - 1\<rparr>
      else st)"

definition push_ready :: "nat \<Rightarrow> co_state \<Rightarrow> co_state" where
  "push_ready c st = st\<lparr>ready_queue := ready_queue st @ [c], scheduled := scheduled st @ [c]\<rparr>"

text \<open>
  \<open>schedule_co\<close>, for a caller that holds the mutex of the loop or not: posting \<open>handle_co\<close> to the
  loop locks it.
\<close>

definition schedule_co :: "bool \<Rightarrow> nat option \<Rightarrow> co_state \<Rightarrow> co_state res" where
  "schedule_co holds_mu co st =
     (let st1 = (case co of None \<Rightarrow> st | Some c \<Rightarrow> push_ready c st)
      in if is_schedule st1 then Inr st1
         else if holds_mu then Inl Self_deadlock
         else Inr (st1\<lparr>handlers := handlers st1 + 1, is_schedule := True\<rparr>))"

definition add_co :: "co_prog \<Rightarrow> co_state \<Rightarrow> co_state res" where
  "add_co body st =
     (let (c, st1) = get_co_channel st;
          st2 = st1\<lparr>co_map := insert c (co_map st1), suspended := (suspended st1)(c \<mapsto> body)\<rparr>
      in schedule_co False None (push_ready c st2))"

section \<open>What a coroutine calls\<close>

text \<open>The channel of a descriptor, made one-shot when it is created.\<close>

definition fd_channel :: "int \<Rightarrow> co_state \<Rightarrow> (nat \<times> co_state) res" where
  "fd_channel fd st =
     (case fd_map st fd of
        Some a \<Rightarrow> Inr (a, st)
      | None \<Rightarrow>
          bind_res (get_channel fd st) (\<lambda>(a, st1).
          bind_res (set_once a True st1) (\<lambda>st2.
          Inr (a, st2\<lparr>fd_map := (fd_map st2)(fd \<mapsto> a)\<rparr>))))"

text \<open>
  The wait of \<open>_co_io_fun\<close>: the callback that wakes the coroutine is set only when the event is
  not enabled yet, and a one-shot event stays enabled when it has reported.
\<close>

definition co_wait :: "nat \<Rightarrow> event_type \<Rightarrow> nat \<Rightarrow> co_state \<Rightarrow> co_state res" where
  "co_wait a et co st =
     with_channel a st (\<lambda>ch. enable_event a et (if enable_arr ch et then None else Some co) st)"

text \<open>\<open>co_sleep\<close> up to its suspension: the loop's \<open>add_timer\<close> holds the mutex.\<close>

definition co_add_timer :: "co_env \<Rightarrow> u64 \<Rightarrow> nat \<Rightarrow> co_state \<Rightarrow> co_state res" where
  "co_add_timer env ms co st =
     (let n = clock_calls st; clk = sys_clock env
      in bind_res (add_timer quiet (clk n) (clk (n + 1)) (clk (n + 2))
                     \<lparr>trigger_after_ms = ms, timer_cb = co\<rparr> (co_wheel st)) (\<lambda>(i, w, fired).
         let st1 = st\<lparr>co_wheel := w, clock_calls := n + 3\<rparr>
         in case fired of [] \<Rightarrow> Inr st1 | c # _ \<Rightarrow> schedule_co True (Some c) st1))"

definition co_close :: "int \<Rightarrow> co_state \<Rightarrow> co_state res" where
  "co_close fd st =
     (case fd_map st fd of
        None \<Rightarrow> Inr st
      | Some a \<Rightarrow> bind_res (destroy_channel a st) (\<lambda>st1. Inr (st1\<lparr>fd_map := (fd_map st1)(fd := None)\<rparr>)))"

definition sys_call :: "co_env \<Rightarrow> co_state \<Rightarrow> int \<times> co_state" where
  "sys_call env st = (sys_io env (io_calls st), st\<lparr>io_calls := io_calls st + 1\<rparr>)"

definition suspend :: "nat \<Rightarrow> co_prog \<Rightarrow> co_state \<Rightarrow> co_state" where
  "suspend co p st = st\<lparr>suspended := (suspended st)(co \<mapsto> p)\<rparr>"

text \<open>
  A resumed coroutine runs until it suspends itself or its body ends: then it is erased from
  the map and switches back.
\<close>

primrec run_co :: "co_env \<Rightarrow> nat \<Rightarrow> co_prog \<Rightarrow> co_state \<Rightarrow> co_state res" where
  "run_co env co Co_end st = Inr (release_co co st)"
| "run_co env co (Co_io et fd k) st =
     bind_res (fd_channel fd st) (\<lambda>(a, st1).
     let (ret, st2) = sys_call env st1
     in if 0 \<le> ret then run_co env co (k ret) st2
        else bind_res (co_wait a et co st2) (\<lambda>st3. Inr (suspend co (Co_call k) st3)))"
| "run_co env co (Co_call k) st = (let (ret, st1) = sys_call env st in run_co env co (k ret) st1)"
| "run_co env co (Co_sleep ms p) st =
     bind_res (co_add_timer env ms co st) (\<lambda>st1. Inr (suspend co p st1))"
| "run_co env co (Co_close fd p) st = bind_res (co_close fd st) (run_co env co p)"
| "run_co env co (Co_spawn body p) st = bind_res (add_co body st) (run_co env co p)"
| "run_co env co (Co_yield p) st = Inr (suspend co p st)"
| "run_co env co (Co_throw e) st = Inl e"

text \<open>
  \<open>resume\<close>: a coroutine that has ended returns from \<open>co_fun\<close> to the null address on its stack.
\<close>

definition resume_co :: "co_env \<Rightarrow> nat \<Rightarrow> co_state \<Rightarrow> co_state res" where
  "resume_co env co st =
     (case suspended st co of
        None \<Rightarrow> Inl Dead_object
      | Some p \<Rightarrow> run_co env co p (st\<lparr>suspended := (suspended st)(co := None), resumed := resumed st @ [co]\<rparr>))"

section \<open>The loop over the ready queue\<close>

text \<open>
  \<open>handle_co\<close> ends although every resumed coroutine may make others ready: whatever a run of a
  body leaves to be done, in itself or in what it spawns, is a part of that body. Programs
  branch infinitely, so their order is not a number; the queue is compared as a multiset.
\<close>

definition part_of :: "(co_prog \<times> co_prog) set" where
  "part_of = {(p, q). case q of
       Co_end \<Rightarrow> False
     | Co_io et fd k \<Rightarrow> p = Co_call k \<or> p \<in> range k
     | Co_call k \<Rightarrow> p \<in> range k
     | Co_sleep ms q' \<Rightarrow> p = q'
     | Co_close fd q' \<Rightarrow> p = q'
     | Co_spawn b q' \<Rightarrow> p = b \<or> p = q'
     | Co_yield q' \<Rightarrow> p = q'
     | Co_throw e \<Rightarrow> False}"

lemma wf_part_of: "wf part_of"
  unfolding wf_def
proof (intro allI impI)
  fix P q assume "\<forall>q. (\<forall>p. (p, q) \<in> part_of \<longrightarrow> P p) \<longrightarrow> P q"
  then have step: "P q" if "\<And>p. (p, q) \<in> part_of \<Longrightarrow> P p" for q using that by blast
  have call: "P (Co_call k)" if "\<And>r. P (k r)" for k
    by (rule step) (use that in \<open>auto simp: part_of_def\<close>)
  show "P q"
  proof (induction q)
    case (Co_io et fd k)
    then have k: "P (k r)" for r by blast
    show ?case by (rule step) (use k call [of k] in \<open>auto simp: part_of_def\<close>)
  next
    case (Co_call k)
    then show ?case by (intro call) blast
  next
    case (Co_spawn b p)
    show ?case by (rule step) (use Co_spawn in \<open>auto simp: part_of_def\<close>)
  next
    case (Co_sleep ms p)
    show ?case by (rule step) (use Co_sleep in \<open>simp add: part_of_def\<close>)
  next
    case (Co_close fd p)
    show ?case by (rule step) (use Co_close in \<open>simp add: part_of_def\<close>)
  next
    case (Co_yield p)
    show ?case by (rule step) (use Co_yield in \<open>simp add: part_of_def\<close>)
  next
    case Co_end
    show ?case by (rule step) (simp add: part_of_def)
  next
    case (Co_throw e)
    show ?case by (rule step) (simp add: part_of_def)
  qed
qed

abbreviation smaller :: "(co_prog \<times> co_prog) set" where
  "smaller \<equiv> part_of\<^sup>+"

lemma smaller_part: "(p, q) \<in> part_of \<Longrightarrow> (p, q) \<in> smaller" by (rule r_into_trancl)

lemma smaller_step: "(p, q') \<in> smaller \<Longrightarrow> (q', q) \<in> part_of \<Longrightarrow> (p, q) \<in> smaller" by (rule trancl_into_trancl)

text \<open>What a run leaves suspended is new and smaller than the body, or was there before.\<close>

definition leaves :: "co_prog \<Rightarrow> co_state \<Rightarrow> co_state \<Rightarrow> bool" where
  "leaves p st st' \<longleftrightarrow>
     (\<exists>new. ready_queue st' = ready_queue st @ new \<and> scheduled st' = scheduled st @ new
        \<and> (\<forall>c \<in> set new. \<exists>p'. suspended st' c = Some p' \<and> (p', p) \<in> smaller))
     \<and> resumed st' = resumed st \<and> elsewhere st' = elsewhere st
     \<and> (\<forall>c. suspended st' c = suspended st c \<or> (\<exists>p'. suspended st' c = Some p' \<and> (p', p) \<in> smaller))"

lemma leaves_same:
  "ready_queue st' = ready_queue st \<Longrightarrow> scheduled st' = scheduled st \<Longrightarrow> resumed st' = resumed st
     \<Longrightarrow> elsewhere st' = elsewhere st \<Longrightarrow> suspended st' = suspended st \<Longrightarrow> leaves p st st'"
  by (simp add: leaves_def)

lemma leaves_then:
  assumes "leaves p st st1" and "leaves q st1 st2" and "(q, p) \<in> part_of"
  shows "leaves p st st2"
proof -
  have le: "(p', q) \<in> smaller \<Longrightarrow> (p', p) \<in> smaller" for p' by (rule smaller_step [OF _ assms(3)])
  obtain new1 where n1: "ready_queue st1 = ready_queue st @ new1" "scheduled st1 = scheduled st @ new1"
      "\<And>c. c \<in> set new1 \<Longrightarrow> \<exists>p'. suspended st1 c = Some p' \<and> (p', p) \<in> smaller"
    and s1: "resumed st1 = resumed st \<and> elsewhere st1 = elsewhere st"
      "\<And>c. suspended st1 c = suspended st c \<or> (\<exists>p'. suspended st1 c = Some p' \<and> (p', p) \<in> smaller)"
    using assms(1) unfolding leaves_def by blast
  obtain new2 where n2: "ready_queue st2 = ready_queue st1 @ new2" "scheduled st2 = scheduled st1 @ new2"
      "\<And>c. c \<in> set new2 \<Longrightarrow> \<exists>p'. suspended st2 c = Some p' \<and> (p', q) \<in> smaller"
    and s2: "resumed st2 = resumed st1 \<and> elsewhere st2 = elsewhere st1"
      "\<And>c. suspended st2 c = suspended st1 c \<or> (\<exists>p'. suspended st2 c = Some p' \<and> (p', q) \<in> smaller)"
    using assms(2) unfolding leaves_def by blast
  have "\<exists>p'. suspended st2 c = Some p' \<and> (p', p) \<in> smaller" if "c \<in> set (new1 @ new2)" for c
    using that n1(3) [of c] n2(3) [of c] s2(2) [of c] le by (cases "c \<in> set new2") fastforce+
  moreover have "suspended st2 c = suspended st c \<or> (\<exists>p'. suspended st2 c = Some p' \<and> (p', p) \<in> smaller)" for c
    using s1(2) [of c] s2(2) [of c] le by metis
  ultimately show ?thesis
    unfolding leaves_def using n1(1,2) n2(1,2) s1(1) s2(1) by (intro conjI exI [of _ "new1 @ new2"]) auto
qed

lemma leaves_suspend: "(p', p) \<in> part_of \<Longrightarrow> leaves p st (suspend co p' st)"
  by (auto simp: leaves_def suspend_def intro: smaller_part)

text \<open>The part of the state the operations on channels, system calls and timers leave alone.\<close>

definition same_co :: "co_state \<Rightarrow> co_state \<Rightarrow> bool" where
  "same_co st st' \<longleftrightarrow> is_schedule st' = is_schedule st \<and> ready_queue st' = ready_queue st
     \<and> co_map st' = co_map st \<and> co_count st' = co_count st \<and> pool_queue st' = pool_queue st
     \<and> next_co st' = next_co st \<and> elsewhere st' = elsewhere st
     \<and> suspended st' = suspended st \<and> handlers st' = handlers st
     \<and> scheduled st' = scheduled st \<and> resumed st' = resumed st"

lemma same_co_trans: "same_co st st1 \<Longrightarrow> same_co st1 st2 \<Longrightarrow> same_co st st2"
  by (simp add: same_co_def)

lemma same_co_more:
  assumes "reactor.more st' = reactor.more st"
  shows "same_co st st'" and "fd_map st' = fd_map st"
proof -
  show "same_co st st'" using assms unfolding same_co_def by (cases st; cases st') simp
  show "fd_map st' = fd_map st" using assms by (cases st; cases st') simp
qed

lemma same_fd_channel: "fd_channel fd st = Inr (a, st') \<Longrightarrow> same_co st st'"
  by (auto simp: fd_channel_def bind_res_Inr_iff same_co_def split: option.splits prod.splits
      dest!: more_get_channel [THEN same_co_more(1)] more_set_once [THEN same_co_more(1)])

lemma same_co_wait: "co_wait a et co st = Inr st' \<Longrightarrow> same_co st st'"
  by (auto simp: co_wait_def with_channel_def split: option.splits dest: more_enable_event [THEN same_co_more(1)])

lemma same_co_close: "co_close fd st = Inr st' \<Longrightarrow> same_co st st'"
  by (auto simp: co_close_def bind_res_Inr_iff same_co_def split: option.splits
      dest!: more_destroy_channel [THEN same_co_more(1)])

lemma same_sys_call: "same_co st (snd (sys_call env st))"
  by (simp add: sys_call_def same_co_def)

text \<open>A timer that is due at once makes its coroutine ready; else nothing is scheduled.\<close>

lemma co_add_timer_cases:
  assumes "co_add_timer env ms co st = Inr st'"
  shows "same_co st st' \<or> is_schedule st \<and> same_co (push_ready co st) st'"
proof -
  obtain i w fired where add: "add_timer quiet (sys_clock env (clock_calls st)) (sys_clock env (clock_calls st + 1))
      (sys_clock env (clock_calls st + 2)) \<lparr>trigger_after_ms = ms, timer_cb = co\<rparr> (co_wheel st) = Inr (i, w, fired)"
    using assms by (auto simp: co_add_timer_def Let_def bind_res_Inr_iff)
  then have "fired = [] \<or> fired = [co]"
    by (auto simp: add_timer_def Let_def bind_res_Inr_iff split: if_splits)
  then show ?thesis
  proof
    assume "fired = []"
    then have "st' = st\<lparr>co_wheel := w, clock_calls := clock_calls st + 3\<rparr>"
      using assms add by (simp add: co_add_timer_def Let_def)
    then show ?thesis by (simp add: same_co_def)
  next
    assume "fired = [co]"
    then have "schedule_co True (Some co) (st\<lparr>co_wheel := w, clock_calls := clock_calls st + 3\<rparr>) = Inr st'"
      using assms add by (simp add: co_add_timer_def Let_def)
    then have "is_schedule st \<and> st' = push_ready co (st\<lparr>co_wheel := w, clock_calls := clock_calls st + 3\<rparr>)"
      by (simp add: schedule_co_def push_ready_def Let_def split: if_splits)
    then show ?thesis by (simp add: same_co_def push_ready_def)
  qed
qed

lemma leaves_same_co: "same_co st st' \<Longrightarrow> leaves p st st'"
  by (rule leaves_same) (simp_all add: same_co_def)

lemma leaves_after: "same_co st st1 \<Longrightarrow> leaves p st1 st2 \<Longrightarrow> leaves p st st2"
  by (simp add: leaves_def same_co_def)

lemma add_co_eq:
  "add_co b st = Inr
     (let (c, st1) = get_co_channel st
      in st1\<lparr>co_map := insert c (co_map st1), suspended := (suspended st1)(c \<mapsto> b),
             ready_queue := ready_queue st1 @ [c], scheduled := scheduled st1 @ [c],
             handlers := (if is_schedule st1 then handlers st1 else handlers st1 + 1), is_schedule := True\<rparr>)"
  by (cases "is_schedule st")
    (simp_all add: add_co_def schedule_co_def push_ready_def get_co_channel_def pool_get_def split: list.split)

lemma get_co_channel_frame:
  "get_co_channel st = (c, st1) \<Longrightarrow> ready_queue st1 = ready_queue st \<and> scheduled st1 = scheduled st
     \<and> resumed st1 = resumed st \<and> suspended st1 = suspended st \<and> co_map st1 = co_map st
     \<and> is_schedule st1 = is_schedule st \<and> handlers st1 = handlers st \<and> co_count st1 = co_count st + 1
     \<and> (case pool_queue st of [] \<Rightarrow> c = next_co st \<and> next_co st1 = next_co st + 1 \<and> pool_queue st1 = []
        | x # xs \<Rightarrow> c = x \<and> next_co st1 = next_co st \<and> pool_queue st1 = xs)
     \<and> elsewhere st1 = elsewhere st \<and> reactor.truncate st1 = reactor.truncate st \<and> fd_map st1 = fd_map st"
  by (auto simp: get_co_channel_def pool_get_def reactor.truncate_def split: list.splits)

lemma leaves_add_co:
  assumes "add_co b st = Inr st'" and "(b, p) \<in> part_of"
  shows "leaves p st st'"
  using assms(1) smaller_part [OF assms(2)]
  by (auto simp: add_co_eq leaves_def split: prod.splits dest!: get_co_channel_frame)

lemma leaves_run: "run_co env co p st = Inr st' \<Longrightarrow> leaves p st st'"
proof (induction p arbitrary: st)
  case Co_end
  then show ?case by (intro leaves_same) (auto simp: release_co_def split: if_splits)
next
  case (Co_io et fd k)
  obtain a st1 where chan: "fd_channel fd st = Inr (a, st1)" using Co_io.prems by (auto simp: bind_res_Inr_iff)
  obtain ret st2 where call: "sys_call env st1 = (ret, st2)" by fastforce
  have same: "same_co st st2"
    using same_co_trans [OF same_fd_channel [OF chan]] same_sys_call [of st1 env] call by simp
  show ?case
  proof (cases "0 \<le> ret")
    case True
    then have "run_co env co (k ret) st2 = Inr st'" using Co_io.prems chan call by simp
    then have "leaves (k ret) st2 st'" by (rule Co_io.IH [OF rangeI])
    then show ?thesis
      by (rule leaves_then [OF leaves_same_co [OF same]]) (simp add: part_of_def)
  next
    case False
    then obtain st3 where st3: "co_wait a et co st2 = Inr st3" "st' = suspend co (Co_call k) st3"
      using Co_io.prems chan call by (auto simp: bind_res_Inr_iff)
    have "same_co st st3" by (rule same_co_trans [OF same same_co_wait [OF st3(1)]])
    then show ?thesis unfolding st3(2) by (rule leaves_after [OF _ leaves_suspend]) (simp add: part_of_def)
  qed
next
  case (Co_call k)
  obtain ret st1 where call: "sys_call env st = (ret, st1)" by fastforce
  then have "leaves (k ret) st1 st'" using Co_call.IH [OF rangeI] Co_call.prems by simp
  moreover have "same_co st st1" using same_sys_call [of st env] call by simp
  ultimately show ?case
    using leaves_then [OF leaves_same_co, of st st1 "k ret" st' "Co_call k"] by (simp add: part_of_def)
next
  case (Co_sleep ms p)
  then obtain st1 where st1: "co_add_timer env ms co st = Inr st1" "st' = suspend co p st1"
    by (auto simp: bind_res_Inr_iff)
  have "(p, Co_sleep ms p) \<in> smaller" by (rule smaller_part) (simp add: part_of_def)
  then show ?case using co_add_timer_cases [OF st1(1)]
    by (auto simp: st1(2) leaves_def same_co_def suspend_def push_ready_def)
next
  case (Co_close fd p)
  then obtain st1 where st1: "co_close fd st = Inr st1" "run_co env co p st1 = Inr st'"
    by (auto simp: bind_res_Inr_iff)
  show ?case
    by (rule leaves_then [OF leaves_same_co [OF same_co_close [OF st1(1)]] Co_close.IH [OF st1(2)]])
      (simp add: part_of_def)
next
  case (Co_spawn b p)
  then obtain st1 where st1: "add_co b st = Inr st1" "run_co env co p st1 = Inr st'"
    by (auto simp: bind_res_Inr_iff)
  show ?case
    by (rule leaves_then [OF leaves_add_co [OF st1(1)] Co_spawn.IH(2) [OF st1(2)]]) (simp_all add: part_of_def)
next
  case (Co_yield p)
  then show ?case by (auto intro!: leaves_suspend simp: part_of_def)
next
  case (Co_throw e)
  then show ?case by simp
qed

text \<open>The programs that wait in the queue get smaller as a multiset.\<close>

definition queue_weight :: "co_state \<Rightarrow> co_prog multiset" where
  "queue_weight st = mset (List.map_filter (suspended st) (ready_queue st))"

lemma map_filter_smaller:
  assumes "\<And>c. c \<in> set q \<Longrightarrow> f' c = f c \<or> f' c = None \<or> (\<exists>p'. f' c = Some p' \<and> (p', p) \<in> r)"
  shows "\<exists>I J K. mset (List.map_filter f q) = I + J \<and> mset (List.map_filter f' q) = I + K
    \<and> (\<forall>k \<in># K. (k, p) \<in> r)"
  using assms
proof (induction q)
  case Nil
  then show ?case by (intro exI [of _ "{#}"]) (simp add: map_filter_simps)
next
  case (Cons c q)
  have "\<And>c. c \<in> set q \<Longrightarrow> f' c = f c \<or> f' c = None \<or> (\<exists>p'. f' c = Some p' \<and> (p', p) \<in> r)"
    by (rule Cons.prems) simp
  from Cons.IH [OF this] obtain I J K where IJK: "mset (List.map_filter f q) = I + J"
      "mset (List.map_filter f' q) = I + K" "\<forall>k \<in># K. (k, p) \<in> r" by blast
  have "f' c = f c \<or> f' c = None \<or> (\<exists>p'. f' c = Some p' \<and> (p', p) \<in> r)" by (rule Cons.prems) simp
  then show ?case
  proof (elim disjE exE conjE)
    assume eq: "f' c = f c"
    let ?x = "case f c of None \<Rightarrow> {#} | Some x \<Rightarrow> {#x#}"
    show ?thesis using IJK eq
      by (intro exI [of _ "?x + I"] exI [of _ J] exI [of _ K]) (auto simp: map_filter_simps split: option.splits)
  next
    let ?x = "case f c of None \<Rightarrow> {#} | Some x \<Rightarrow> {#x#}"
    assume "f' c = None"
    then show ?thesis using IJK
      by (intro exI [of _ I] exI [of _ "?x + J"] exI [of _ K]) (auto simp: map_filter_simps split: option.splits)
  next
    let ?x = "case f c of None \<Rightarrow> {#} | Some x \<Rightarrow> {#x#}"
    fix p' assume "f' c = Some p'" "(p', p) \<in> r"
    then show ?thesis using IJK
      by (intro exI [of _ I] exI [of _ "?x + J"] exI [of _ "{#p'#} + K"])
        (auto simp: map_filter_simps split: option.splits)
  qed
qed

lemma resume_decreases:
  assumes ready: "ready_queue st = co # q" and res: "resume_co env co (st\<lparr>ready_queue := q\<rparr>) = Inr st'"
  shows "(queue_weight st', queue_weight st) \<in> mult smaller"
proof -
  obtain p where p: "suspended st co = Some p"
    using res by (auto simp: resume_co_def split: option.splits)
  let ?st = "st\<lparr>ready_queue := q, suspended := (suspended st)(co := None), resumed := resumed st @ [co]\<rparr>"
  have "run_co env co p ?st = Inr st'" using res p by (simp add: resume_co_def)
  then have "leaves p ?st st'" by (rule leaves_run)
  then obtain new where queue: "ready_queue st' = q @ new"
      and new: "\<And>c. c \<in> set new \<Longrightarrow> \<exists>p'. suspended st' c = Some p' \<and> (p', p) \<in> smaller"
      and old: "\<And>c. suspended st' c = suspended ?st c \<or> (\<exists>p'. suspended st' c = Some p' \<and> (p', p) \<in> smaller)"
    unfolding leaves_def by auto
  have "suspended st' c = suspended st c \<or> suspended st' c = None
      \<or> (\<exists>p'. suspended st' c = Some p' \<and> (p', p) \<in> smaller)" for c
    using old [of c] by (auto split: if_splits)
  then obtain I J K where IJK: "mset (List.map_filter (suspended st) q) = I + J"
      "mset (List.map_filter (suspended st') q) = I + K" "\<forall>k \<in># K. (k, p) \<in> smaller"
    using map_filter_smaller [of q "suspended st'" "suspended st" p smaller] by blast
  let ?N = "mset (List.map_filter (suspended st') new)"
  have "queue_weight st' = I + (K + ?N)"
    using IJK(2) queue by (simp add: queue_weight_def List.map_filter_def ac_simps)
  moreover have "queue_weight st = I + ({#p#} + J)"
    using IJK(1) p ready by (simp add: queue_weight_def map_filter_simps)
  moreover have "\<exists>j \<in># {#p#} + J. (k, j) \<in> smaller" if "k \<in># K + ?N" for k
  proof -
    have "(k, p) \<in> smaller" if k: "k \<in># ?N"
    proof -
      obtain c where "c \<in> set new" "suspended st' c = Some k" using k by (auto simp: List.map_filter_def)
      then show ?thesis using new [of c] by auto
    qed
    then show ?thesis using that IJK(3) by auto
  qed
  ultimately show ?thesis
    using one_step_implies_mult [of "{#p#} + J" "K + ?N" smaller I] by simp
qed

function handle_loop :: "co_env \<Rightarrow> co_state \<Rightarrow> co_state res" where
  "handle_loop env st =
     (case ready_queue st of
        [] \<Rightarrow> Inr (st\<lparr>is_schedule := False\<rparr>)
      | co # q \<Rightarrow>
          (case resume_co env co (st\<lparr>ready_queue := q\<rparr>) of
             Inl e \<Rightarrow> Inl e
           | Inr st1 \<Rightarrow> handle_loop env st1))"
  by pat_completeness auto
termination
proof (relation "inv_image (mult smaller) (\<lambda>(env, st). queue_weight st)")
  show "wf (inv_image (mult smaller) (\<lambda>(env :: co_env, st). queue_weight st))"
    by (intro wf_inv_image wf_mult wf_trancl wf_part_of)
qed (auto intro: resume_decreases)

declare handle_loop.simps [simp del]

text \<open>The callback in the list of the loop: the loop takes it from the list and calls \<open>handle_co\<close>.\<close>

definition run_handler :: "co_env \<Rightarrow> co_state \<Rightarrow> co_state res" where
  "run_handler env st = handle_loop env (st\<lparr>handlers := handlers st - 1\<rparr>)"

end
