(* ===== verification/CoRaces.thy ===== *)
theory CoRaces
  imports Coroutines
begin

text \<open>
  What the missing lock of the schedulers (src/src/co/Coroutine.cpp) and of the pool
  (src/src/co/Coroutine.hpp) costs. \<open>accept_cb\<close> (src/src/tcp/TCPServer2.cpp) calls \<open>add_callback\<close> of a
  scheduler on the thread of the acceptor, while the thread of that scheduler may be within
  \<open>handle_co\<close>. In \<open>Coroutines\<close> and \<open>CoServer\<close> each of the two runs as a whole; here they are cut into
  their statements, which interleave in any order. A statement is still atomic and its effect
  is seen at once, which the code does not guarantee either.
\<close>

section \<open>Scheduling, a statement at a time\<close>

text \<open>
  The calls of \<open>add_callback\<close> or \<open>schedule_co\<close> on one scheduler: those of its own thread, which come
  from a coroutine that runs or from the callbacks of its loop, and those of other threads.
\<close>

datatype caller = Own | Other nat

text \<open>
  How far a call is: not begun or done; behind the \<open>push_back\<close>; behind the test of \<open>is_schedule\<close>,
  which was false; behind the post of \<open>handle_co\<close>, before it sets \<open>is_schedule\<close>.
\<close>

datatype call_at = Outside | Pushed | Unscheduled | Posted

text \<open>
  Where \<open>handle_co\<close> is: not running; at the test of its loop; in the coroutine it resumed; behind
  the last test, before it clears \<open>is_schedule\<close>.
\<close>

datatype handler_at = Parked | Testing | Resuming nat | Leaving

text \<open>\<open>posts\<close> is the number of \<open>handle_co\<close> callbacks in the list of the loop; \<open>ran_log\<close> records who was resumed.\<close>

record race =
  queue :: "nat list"
  flag :: bool
  posts :: nat
  handler :: handler_at
  calls :: "caller \<Rightarrow> call_at"
  ran_log :: "nat list"

definition race_init :: race where
  "race_init = \<lparr>queue = [], flag = False, posts = 0, handler = Parked, calls = (\<lambda>_. Outside), ran_log = []\<rparr>"

text \<open>The own thread calls only where \<open>handle_co\<close> is not running or has resumed a coroutine.\<close>

fun may_call :: "handler_at \<Rightarrow> caller \<Rightarrow> bool" where
  "may_call h (Other k) = True"
| "may_call h Own = (case h of Parked \<Rightarrow> True | Resuming c \<Rightarrow> True | _ \<Rightarrow> False)"

definition call_begin :: "caller \<Rightarrow> nat \<Rightarrow> race \<Rightarrow> race option" where
  "call_begin k c s =
     (if may_call (handler s) k \<and> calls s k = Outside
      then Some (s\<lparr>queue := queue s @ [c], calls := (calls s)(k := Pushed)\<rparr>) else None)"

definition call_next :: "caller \<Rightarrow> race \<Rightarrow> race option" where
  "call_next k s =
     (case calls s k of
        Outside \<Rightarrow> None
      | Pushed \<Rightarrow> Some (s\<lparr>calls := (calls s)(k := (if flag s then Outside else Unscheduled))\<rparr>)
      | Unscheduled \<Rightarrow> Some (s\<lparr>posts := posts s + 1, calls := (calls s)(k := Posted)\<rparr>)
      | Posted \<Rightarrow> Some (s\<lparr>flag := True, calls := (calls s)(k := Outside)\<rparr>))"

text \<open>The thread of the scheduler, when no call of its own is under way.\<close>

definition handler_next :: "race \<Rightarrow> race option" where
  "handler_next s =
     (if calls s Own \<noteq> Outside then None
      else case handler s of
        Parked \<Rightarrow> if 0 < posts s then Some (s\<lparr>posts := posts s - 1, handler := Testing\<rparr>) else None
      | Testing \<Rightarrow>
          (case queue s of
             [] \<Rightarrow> Some (s\<lparr>handler := Leaving\<rparr>)
           | c # cs \<Rightarrow> Some (s\<lparr>queue := cs, handler := Resuming c, ran_log := ran_log s @ [c]\<rparr>))
      | Resuming c \<Rightarrow> Some (s\<lparr>handler := Testing\<rparr>)
      | Leaving \<Rightarrow> Some (s\<lparr>flag := False, handler := Parked\<rparr>))"

datatype race_move = Begin caller nat | Go caller | Handle

fun race_next :: "race_move \<Rightarrow> race \<Rightarrow> race option" where
  "race_next (Begin k c) s = call_begin k c s"
| "race_next (Go k) s = call_next k s"
| "race_next Handle s = handler_next s"

primrec race_run :: "race_move list \<Rightarrow> race \<Rightarrow> race option" where
  "race_run [] s = Some s"
| "race_run (m # ms) s = (case race_next m s of None \<Rightarrow> None | Some s' \<Rightarrow> race_run ms s')"

section \<open>The two overlaps\<close>

text \<open>
  A call reads the flag behind the last test of \<open>handle_co\<close> and before it is cleared, with
  somebody in the queue; or \<open>handle_co\<close> clears the flag while a call is between its post and its
  setting of the flag. Neither matters when another \<open>handle_co\<close> is posted.
\<close>

fun overlap :: "race_move \<Rightarrow> race \<Rightarrow> bool" where
  "overlap (Begin k c) s = False"
| "overlap (Go k) s \<longleftrightarrow> calls s k = Pushed \<and> flag s \<and> handler s = Leaving \<and> posts s = 0 \<and> queue s \<noteq> []"
| "overlap Handle s \<longleftrightarrow> handler s = Leaving \<and> posts s = 0 \<and> (\<exists>k. calls s k = Posted)"

primrec no_overlap :: "race_move list \<Rightarrow> race \<Rightarrow> bool" where
  "no_overlap [] s = True"
| "no_overlap (m # ms) s \<longleftrightarrow> \<not> overlap m s \<and> (case race_next m s of None \<Rightarrow> True | Some s' \<Rightarrow> no_overlap ms s')"

text \<open>
  Nobody is lost: coroutines in the queue have a \<open>handle_co\<close> posted or at work, or a call that is
  going to post it; and so has the flag.
\<close>

definition pending :: "race \<Rightarrow> bool" where
  "pending s \<longleftrightarrow> (\<exists>k. calls s k = Pushed \<or> calls s k = Unscheduled)"

definition race_inv :: "race \<Rightarrow> bool" where
  "race_inv s \<longleftrightarrow>
     (queue s \<noteq> [] \<longrightarrow> 0 < posts s \<or> handler s = Testing \<or> (\<exists>c. handler s = Resuming c)
        \<or> pending s)
   \<and> (flag s \<or> (\<exists>k. calls s k = Posted) \<longrightarrow> 0 < posts s \<or> handler s \<noteq> Parked)"

lemma race_inv_init: "race_inv race_init"
  by (simp add: race_inv_def pending_def race_init_def)

lemma race_inv_begin: "call_begin k c s = Some s' \<Longrightarrow> race_inv s \<Longrightarrow> race_inv s'"
  by (auto simp: call_begin_def race_inv_def pending_def split: if_splits)

lemma race_inv_go: "call_next k s = Some s' \<Longrightarrow> race_inv s \<Longrightarrow> \<not> overlap (Go k) s \<Longrightarrow> race_inv s'"
proof (cases "calls s k")
  case Posted
  assume "call_next k s = Some s'" and inv: "race_inv s"
  then have s': "s' = s\<lparr>flag := True, calls := (calls s)(k := Outside)\<rparr>" using Posted by (simp add: call_next_def)
  have "pending s'" if "pending s"
  proof -
    from that obtain j where j: "calls s j = Pushed \<or> calls s j = Unscheduled" by (auto simp: pending_def)
    then have "calls s' j = calls s j" using Posted by (auto simp: s')
    then show ?thesis using j by (auto simp: pending_def)
  qed
  then show ?thesis using inv Posted unfolding s' race_inv_def by auto
next
  case Pushed
  assume "call_next k s = Some s'" "race_inv s" "\<not> overlap (Go k) s"
  note asm = this
  show ?thesis
  proof (cases "flag s")
    case True
    then have s': "s' = s\<lparr>calls := (calls s)(k := Outside)\<rparr>" using asm(1) Pushed by (simp add: call_next_def)
    show ?thesis using asm(2,3) Pushed True unfolding s' by (cases "handler s") (auto simp: race_inv_def)
  next
    case False
    then have s': "s' = s\<lparr>calls := (calls s)(k := Unscheduled)\<rparr>" using asm(1) Pushed by (simp add: call_next_def)
    have "pending s'" by (auto simp: pending_def s')
    moreover have "\<exists>j. calls s j = Posted" if "calls s' j = Posted" for j
      using that by (auto simp: s' split: if_splits)
    ultimately show ?thesis using asm(2) False by (auto simp: race_inv_def s' simp del: fun_upd_apply)
  qed
qed (auto simp: call_next_def race_inv_def pending_def)

lemma race_inv_handle: "handler_next s = Some s' \<Longrightarrow> race_inv s \<Longrightarrow> \<not> overlap Handle s \<Longrightarrow> race_inv s'"
  by (auto simp: handler_next_def race_inv_def pending_def split: handler_at.splits list.splits if_splits)

lemma race_inv_next: "race_next m s = Some s' \<Longrightarrow> race_inv s \<Longrightarrow> \<not> overlap m s \<Longrightarrow> race_inv s'"
  by (cases m) (auto intro: race_inv_begin race_inv_go race_inv_handle)

lemma race_inv_run: "race_run ms s = Some s' \<Longrightarrow> race_inv s \<Longrightarrow> no_overlap ms s \<Longrightarrow> race_inv s'"
proof (induction ms arbitrary: s)
  case (Cons m ms)
  then obtain s1 where s1: "race_next m s = Some s1" "race_run ms s1 = Some s'" by (auto split: option.splits)
  then show ?case using Cons.IH [OF s1(2) race_inv_next [OF s1(1)]] Cons.prems by simp
qed simp

text \<open>
  The first overlap loses a wake-up: the queue has somebody and \<open>handle_co\<close> is neither posted nor
  at work; it takes a later call to have it posted.
\<close>

definition lost :: "race \<Rightarrow> bool" where
  "lost s \<longleftrightarrow> queue s \<noteq> [] \<and> posts s = 0 \<and> handler s = Parked \<and> (\<forall>k. calls s k = Outside)"

text \<open>The second ends the scheduler: \<open>is_schedule\<close> is set with no \<open>handle_co\<close> to clear it.\<close>

definition dead :: "race \<Rightarrow> bool" where
  "dead s \<longleftrightarrow> flag s \<and> posts s = 0 \<and> handler s = Parked \<and> (\<forall>k. calls s k = Outside \<or> calls s k = Pushed)"

lemma dead_next: "race_next m s = Some s' \<Longrightarrow> dead s \<Longrightarrow> dead s' \<and> ran_log s' = ran_log s"
proof (cases m)
  case (Go k)
  assume moved: "race_next m s = Some s'" and dead: "dead s"
  have "calls s k \<noteq> Outside" using moved Go by (auto simp: call_next_def)
  then have k: "calls s k = Pushed" "flag s" using dead by (auto simp: dead_def)
  then have "s' = s\<lparr>calls := (calls s)(k := Outside)\<rparr>" using moved Go by (simp add: call_next_def)
  then show ?thesis using dead by (simp add: dead_def)
qed (auto simp: dead_def call_begin_def handler_next_def split: if_splits)

lemma dead_run: "race_run ms s = Some s' \<Longrightarrow> dead s \<Longrightarrow> dead s' \<and> ran_log s' = ran_log s"
proof (induction ms arbitrary: s)
  case (Cons m ms)
  then show ?case using dead_next [of m s] by (fastforce split: option.splits)
qed simp

text \<open>What \<open>handle_co\<close> does, once it has been taken from the list and is left alone.\<close>

lemma handle_all:
  "calls s Own = Outside \<Longrightarrow> handler s = Testing \<Longrightarrow>
     race_run (concat (replicate (length (queue s)) [Handle, Handle]) @ [Handle, Handle]) s
       = Some (s\<lparr>queue := [], ran_log := ran_log s @ queue s, flag := False, handler := Parked\<rparr>)"
proof (induction "queue s" arbitrary: s)
  case Nil
  then show ?case by (simp add: handler_next_def Nil(1) [symmetric])
next
  case (Cons c cs)
  let ?s = "s\<lparr>queue := cs, ran_log := ran_log s @ [c]\<rparr>"
  have same: "s\<lparr>queue := cs, ran_log := ran_log s @ [c], handler := Testing\<rparr> = ?s" using Cons.prems by simp
  have "race_run (concat (replicate (length (queue ?s)) [Handle, Handle]) @ [Handle, Handle]) ?s
      = Some (?s\<lparr>queue := [], ran_log := ran_log ?s @ queue ?s, flag := False, handler := Parked\<rparr>)"
    using Cons.prems by (intro Cons.hyps(1)) simp_all
  then show ?case using Cons.hyps(2) [symmetric] by (simp add: handler_next_def Cons.prems same)
qed

lemma race_run_append: "race_run (ms @ ns) s = (case race_run ms s of None \<Rightarrow> None | Some s1 \<Rightarrow> race_run ns s1)"
  by (induction ms arbitrary: s) (simp_all split: option.split)

lemma set_handles: "set (concat (replicate n [Handle, Handle]) @ [Handle, Handle]) \<subseteq> {Handle}"
  by (induction n) simp_all

text \<open>Without an overlap, everybody in the queue is resumed by the thread left alone.\<close>

lemma served_when_left_alone:
  assumes inv: "race_inv s" and idle: "\<forall>k. calls s k = Outside"
  shows "\<exists>hs s'. set hs \<subseteq> {Handle} \<and> race_run hs s = Some s' \<and> handler s' = Parked \<and> queue s' = []
    \<and> ran_log s' = ran_log s @ queue s"
proof -
  let ?good = "\<lambda>s. \<exists>hs s'. set hs \<subseteq> {Handle} \<and> race_run hs s = Some s' \<and> handler s' = Parked \<and> queue s' = []
    \<and> ran_log s' = ran_log s @ queue s"
  have own: "calls s Own = Outside" using idle by simp
  have testing: "?good s" if "calls s Own = Outside" "handler s = Testing" for s :: race
    by (rule exI, rule exI, rule conjI [OF set_handles conjI [OF handle_all [OF that]]]) simp
  have step: "?good s" if moved: "race_next Handle s = Some s1" and good: "?good s1"
      and same: "queue s1 = queue s" "ran_log s1 = ran_log s" for s s1
  proof -
    obtain hs s' where "set hs \<subseteq> {Handle}" "race_run hs s1 = Some s'" "handler s' = Parked" "queue s' = []"
        "ran_log s' = ran_log s1 @ queue s1" using good by blast
    then show ?thesis using moved same by (intro exI [of _ "Handle # hs"] exI [of _ s']) simp
  qed
  have parked: "?good s" if "calls s Own = Outside" "handler s = Parked" "0 < posts s" for s :: race
    by (rule step [OF _ testing, of _ "s\<lparr>posts := posts s - 1, handler := Testing\<rparr>"])
      (use that in \<open>simp_all add: handler_next_def\<close>)
  show ?thesis
  proof (cases "handler s")
    case Parked
    show ?thesis
    proof (cases "queue s = []")
      case True
      then show ?thesis using Parked by (intro exI [of _ "[]"] exI [of _ s]) simp
    next
      case False
      then have "0 < posts s" using inv idle Parked by (simp add: race_inv_def pending_def)
      then show ?thesis by (rule parked [OF own Parked])
    qed
  next
    case Testing
    then show ?thesis by (rule testing [OF own])
  next
    case (Resuming c)
    show ?thesis by (rule step [OF _ testing, of _ "s\<lparr>handler := Testing\<rparr>"]) (use own Resuming in \<open>simp_all add: handler_next_def\<close>)
  next
    case Leaving
    let ?s = "s\<lparr>flag := False, handler := Parked\<rparr>"
    have moved: "race_next Handle s = Some ?s" using own Leaving by (simp add: handler_next_def)
    show ?thesis
    proof (cases "queue s = []")
      case True
      then show ?thesis using moved by (intro exI [of _ "[Handle]"] exI [of _ ?s]) simp
    next
      case False
      then have "0 < posts s" using inv idle Leaving by (simp add: race_inv_def pending_def)
      then show ?thesis by (intro step [OF moved parked]) (use own in simp_all)
    qed
  qed
qed

section \<open>Whole calls\<close>

text \<open>
  The model of \<open>Coroutines\<close> is this one with every call and every \<open>handle_co\<close> run as a whole: the
  operations there are runs here.
\<close>

definition co_race :: "handler_at \<Rightarrow> co_state \<Rightarrow> race" where
  "co_race h st = \<lparr>queue = ready_queue st, flag = is_schedule st, posts = handlers st, handler = h,
     calls = (\<lambda>_. Outside), ran_log = resumed st\<rparr>"

definition runs_of :: "caller \<Rightarrow> race \<Rightarrow> race \<Rightarrow> bool" where
  "runs_of k s s' \<longleftrightarrow> (\<exists>ms. set ms \<subseteq> insert Handle (insert (Go k) (range (Begin k))) \<and> race_run ms s = Some s')"

lemma runs_refl: "runs_of k s s"
  unfolding runs_of_def by (rule exI [of _ "[]"]) simp

lemma runs_trans: "runs_of k s s1 \<Longrightarrow> runs_of k s1 s2 \<Longrightarrow> runs_of k s s2"
proof -
  assume "runs_of k s s1" "runs_of k s1 s2"
  then obtain ms ns where "set ms \<subseteq> insert Handle (insert (Go k) (range (Begin k)))" "race_run ms s = Some s1"
      "set ns \<subseteq> insert Handle (insert (Go k) (range (Begin k)))" "race_run ns s1 = Some s2"
    unfolding runs_of_def by blast
  then show ?thesis unfolding runs_of_def by (intro exI [of _ "ms @ ns"]) (simp add: race_run_append)
qed

lemma runs_handle: "race_next Handle s = Some s' \<Longrightarrow> runs_of k s s'"
  unfolding runs_of_def by (rule exI [of _ "[Handle]"]) simp

text \<open>One call, from its first statement to its last.\<close>

lemma call_runs:
  assumes "may_call h k"
  shows "runs_of k (co_race h st) ((co_race h st)\<lparr>queue := ready_queue st @ [c], flag := True,
      posts := (if is_schedule st then handlers st else handlers st + 1)\<rparr>)"
proof (cases "is_schedule st")
  case True
  have "race_run [Begin k c, Go k] (co_race h st) = Some ((co_race h st)\<lparr>queue := ready_queue st @ [c]\<rparr>)"
    using assms True by (simp add: call_begin_def call_next_def co_race_def fun_eq_iff)
  then show ?thesis unfolding runs_of_def using True
    by (intro exI [of _ "[Begin k c, Go k]"]) (simp add: co_race_def)
next
  case False
  have "race_run [Begin k c, Go k, Go k, Go k] (co_race h st)
      = Some ((co_race h st)\<lparr>queue := ready_queue st @ [c], flag := True, posts := handlers st + 1\<rparr>)"
    using assms False by (simp add: call_begin_def call_next_def co_race_def fun_eq_iff)
  then show ?thesis unfolding runs_of_def using False
    by (intro exI [of _ "[Begin k c, Go k, Go k, Go k]"]) simp
qed

lemma add_co_runs:
  assumes "add_co b st = Inr st'" and "may_call h k"
  shows "runs_of k (co_race h st) (co_race h st')"
proof -
  obtain c st1 where c: "get_co_channel st = (c, st1)" by fastforce
  note frame = get_co_channel_frame [OF c]
  have "co_race h st' = (co_race h st)\<lparr>queue := ready_queue st @ [c], flag := True,
      posts := (if is_schedule st then handlers st else handlers st + 1)\<rparr>"
    using assms(1) c frame by (auto simp: add_co_eq co_race_def)
  then show ?thesis using call_runs [OF assms(2)] by simp
qed

lemma same_co_race: "same_co st st' \<Longrightarrow> co_race h st' = co_race h st"
  by (simp add: same_co_def co_race_def)

lemma co_race_simps [simp]: "co_race h (suspend co p st) = co_race h st" "co_race h (release_co c st) = co_race h st"
  by (simp_all add: co_race_def suspend_def release_co_def)

lemma run_co_runs: "run_co env co p st = Inr st' \<Longrightarrow> runs_of Own (co_race (Resuming co) st) (co_race (Resuming co) st')"
proof (induction p arbitrary: st)
  case (Co_io et fd k)
  obtain a st1 where chan: "fd_channel fd st = Inr (a, st1)" using Co_io.prems by (auto simp: bind_res_Inr_iff)
  obtain ret st2 where call: "sys_call env st1 = (ret, st2)" by fastforce
  have same: "same_co st st2"
    using same_co_trans [OF same_fd_channel [OF chan]] same_sys_call [of st1 env] call by simp
  show ?case
  proof (cases "0 \<le> ret")
    case True
    then have "run_co env co (k ret) st2 = Inr st'" using Co_io.prems chan call by simp
    from Co_io.IH [OF rangeI this] show ?thesis by (simp add: same_co_race [OF same])
  next
    case False
    then obtain st3 where st3: "co_wait a et co st2 = Inr st3" "st' = suspend co (Co_call k) st3"
      using Co_io.prems chan call by (auto simp: bind_res_Inr_iff)
    then show ?thesis using same_co_race [OF same_co_trans [OF same same_co_wait [OF st3(1)]]] by (simp add: runs_refl)
  qed
next
  case (Co_call k)
  obtain ret st1 where call: "sys_call env st = (ret, st1)" by fastforce
  then have "run_co env co (k ret) st1 = Inr st'" using Co_call.prems by simp
  from Co_call.IH [OF rangeI this] show ?case
    using same_co_race [of st st1] same_sys_call [of st env] call by simp
next
  case (Co_sleep ms p)
  then obtain st1 where st1: "co_add_timer env ms co st = Inr st1" "st' = suspend co p st1" by (auto simp: bind_res_Inr_iff)
  from co_add_timer_cases [OF st1(1)] show ?case
  proof
    assume "same_co st st1"
    then show ?thesis using st1(2) by (simp add: same_co_race runs_refl)
  next
    assume now: "is_schedule st \<and> same_co (push_ready co st) st1"
    then have "co_race (Resuming co) st' = (co_race (Resuming co) st)\<lparr>queue := ready_queue st @ [co], flag := True,
        posts := (if is_schedule st then handlers st else handlers st + 1)\<rparr>"
      using st1(2) by (simp add: same_co_def co_race_def push_ready_def suspend_def)
    then show ?thesis using call_runs [of "Resuming co" Own st co] by simp
  qed
next
  case (Co_close fd p)
  then obtain st1 where st1: "co_close fd st = Inr st1" "run_co env co p st1 = Inr st'" by (auto simp: bind_res_Inr_iff)
  from Co_close.IH [OF st1(2)] show ?case by (simp add: same_co_race [OF same_co_close [OF st1(1)]])
next
  case (Co_spawn b p)
  then obtain st1 where st1: "add_co b st = Inr st1" "run_co env co p st1 = Inr st'" by (auto simp: bind_res_Inr_iff)
  have "runs_of Own (co_race (Resuming co) st) (co_race (Resuming co) st1)" by (rule add_co_runs [OF st1(1)]) simp
  then show ?case by (rule runs_trans [OF _ Co_spawn.IH(2) [OF st1(2)]])
qed (auto simp: runs_refl)

lemma handle_loop_runs:
  "handle_loop env st = Inr st' \<Longrightarrow> runs_of Own (co_race Testing st) (co_race Parked st')"
proof (induction env st rule: handle_loop.induct)
  case (1 env st)
  show ?case
  proof (cases "ready_queue st")
    case Nil
    then have st': "st' = st\<lparr>is_schedule := False\<rparr>" using "1.prems" by (simp add: handle_loop.simps)
    have "runs_of Own (co_race Testing st) (co_race Leaving st)"
      by (rule runs_handle) (simp add: handler_next_def co_race_def Nil)
    moreover have "runs_of Own (co_race Leaving st) (co_race Parked st')"
      by (rule runs_handle) (simp add: handler_next_def co_race_def st')
    ultimately show ?thesis by (rule runs_trans)
  next
    case (Cons co q)
    then obtain st1 where st1: "resume_co env co (st\<lparr>ready_queue := q\<rparr>) = Inr st1" "handle_loop env st1 = Inr st'"
      using "1.prems" by (auto simp: handle_loop.simps split: sum.splits)
    obtain p where p: "run_co env co p (st\<lparr>ready_queue := q, suspended := (suspended st)(co := None), resumed := resumed st @ [co]\<rparr>) = Inr st1"
      using st1(1) by (auto simp: resume_co_def split: option.splits)
    let ?st = "st\<lparr>ready_queue := q, suspended := (suspended st)(co := None), resumed := resumed st @ [co]\<rparr>"
    have "runs_of Own (co_race Testing st) (co_race (Resuming co) ?st)"
      by (rule runs_handle) (simp add: handler_next_def co_race_def Cons)
    moreover have "runs_of Own (co_race (Resuming co) ?st) (co_race (Resuming co) st1)" by (rule run_co_runs [OF p])
    moreover have "runs_of Own (co_race (Resuming co) st1) (co_race Testing st1)"
      by (rule runs_handle) (simp add: handler_next_def co_race_def)
    ultimately show ?thesis using "1.IH" [OF Cons st1] by (blast intro: runs_trans)
  qed
qed

theorem whole_calls_are_runs:
  shows "add_co b st = Inr st' \<Longrightarrow> runs_of (Other k) (co_race Parked st) (co_race Parked st')"
    and "0 < handlers st \<Longrightarrow> run_handler env st = Inr st' \<Longrightarrow> runs_of Own (co_race Parked st) (co_race Parked st')"
proof -
  show "add_co b st = Inr st' \<Longrightarrow> runs_of (Other k) (co_race Parked st) (co_race Parked st')"
    by (rule add_co_runs) simp_all
  assume posted: "0 < handlers st" and "run_handler env st = Inr st'"
  then have run: "handle_loop env (st\<lparr>handlers := handlers st - 1\<rparr>) = Inr st'" by (simp add: run_handler_def)
  have "runs_of Own (co_race Parked st) (co_race Testing (st\<lparr>handlers := handlers st - 1\<rparr>))"
    by (rule runs_handle) (use posted in \<open>simp add: handler_next_def co_race_def\<close>)
  then show "runs_of Own (co_race Parked st) (co_race Parked st')" by (rule runs_trans [OF _ handle_loop_runs [OF run]])
qed

section \<open>What the missing lock costs\<close>

lemma overlap_loses:
  assumes over: "overlap (Go k) s" and alone: "\<forall>j. j \<noteq> k \<longrightarrow> calls s j = Outside" and k: "k \<noteq> Own"
  shows "\<exists>s'. race_run [Go k, Handle] s = Some s' \<and> lost s' \<and> queue s' = queue s \<and> handler_next s' = None"
proof -
  let ?s = "s\<lparr>calls := (calls s)(k := Outside), flag := False, handler := Parked\<rparr>"
  have own: "calls s Own = Outside" using alone k by metis
  have "race_run [Go k, Handle] s = Some ?s"
    using over own k by (simp add: call_next_def handler_next_def)
  moreover have "lost ?s" using over alone by (simp add: lost_def)
  moreover have "handler_next ?s = None" using over by (simp add: handler_next_def)
  ultimately show ?thesis by (intro exI [of _ ?s]) simp
qed

lemma overlap_kills:
  assumes over: "overlap Handle s" and at: "calls s k = Posted" and alone: "\<forall>j. j \<noteq> k \<longrightarrow> calls s j = Outside"
    and k: "k \<noteq> Own"
  shows "\<exists>s'. race_run [Handle, Go k] s = Some s' \<and> dead s' \<and> ran_log s' = ran_log s"
proof -
  let ?s = "s\<lparr>flag := True, handler := Parked, calls := (calls s)(k := Outside)\<rparr>"
  have own: "calls s Own = Outside" using alone k by metis
  have "race_run [Handle, Go k] s = Some ?s"
    using over at own k by (simp add: call_next_def handler_next_def)
  moreover have "dead ?s" using over alone by (simp add: dead_def)
  ultimately show ?thesis by (intro exI [of _ ?s]) simp
qed


text \<open>
  Coroutine 8 is queued by another thread while \<open>handle_co\<close> is leaving, and stays there; and the
  very first call on a scheduler may kill it, when its loop is quicker than the caller.
\<close>

definition late_push :: "race_move list" where
  "late_push = [Begin (Other 0) 7, Go (Other 0), Go (Other 0), Go (Other 0), Handle, Handle, Handle, Handle, Begin (Other 0) 8]"

definition late_flag :: "race_move list" where
  "late_flag = [Begin (Other 0) 7, Go (Other 0), Go (Other 0), Handle, Handle, Handle, Handle]"


section \<open>The counter of the pool\<close>

text \<open>
  \<open>get_channel\<close> increments \<open>count\<close> under a mutex, \<open>~Channel\<close> decrements it without: a read and a write
  each, and the mutex does not keep them apart. The two hold the value they read.
\<close>

datatype count_move = Get_read | Get_write | Drop_read | Drop_write

record tally =
  total :: int
  get_reg :: "int option"
  drop_reg :: "int option"

definition count_next :: "count_move \<Rightarrow> tally \<Rightarrow> tally option" where
  "count_next m t =
     (case m of
        Get_read \<Rightarrow> if get_reg t = None then Some (t\<lparr>get_reg := Some (total t)\<rparr>) else None
      | Get_write \<Rightarrow> map_option (\<lambda>v. t\<lparr>total := v + 1, get_reg := None\<rparr>) (get_reg t)
      | Drop_read \<Rightarrow> if drop_reg t = None then Some (t\<lparr>drop_reg := Some (total t)\<rparr>) else None
      | Drop_write \<Rightarrow> map_option (\<lambda>v. t\<lparr>total := v - 1, drop_reg := None\<rparr>) (drop_reg t))"

primrec count_run :: "count_move list \<Rightarrow> tally \<Rightarrow> tally option" where
  "count_run [] t = Some t"
| "count_run (m # ms) t = (case count_next m t of None \<Rightarrow> None | Some t' \<Rightarrow> count_run ms t')"

text \<open>
  One coroutine given out and one taken back leave the counter as it was when one follows the
  other; when they overlap one of the two changes is lost, so the number of connections the
  accept loop compares with its limit drifts away from the number there are, in either
  direction.
\<close>

theorem unlocked_count_drifts:
  "count_run [Get_read, Get_write, Drop_read, Drop_write] \<lparr>total = n, get_reg = None, drop_reg = None\<rparr>
      = Some \<lparr>total = n, get_reg = None, drop_reg = None\<rparr>
   \<and> count_run [Get_read, Drop_read, Get_write, Drop_write] \<lparr>total = n, get_reg = None, drop_reg = None\<rparr>
      = Some \<lparr>total = n - 1, get_reg = None, drop_reg = None\<rparr>
   \<and> count_run [Get_read, Drop_read, Drop_write, Get_write] \<lparr>total = n, get_reg = None, drop_reg = None\<rparr>
      = Some \<lparr>total = n + 1, get_reg = None, drop_reg = None\<rparr>"
  by (simp add: count_next_def)

end
