(* ===== verification/BaseBuffer.thy ===== *)
theory BaseBuffer
  imports Prelude
begin

text \<open>
  The byte queue of src/src/base/Buffer.cpp and the \<open>std::vector<char>\<close> below it.

  The vector is the one of libstdc++ (the program uses that library's \<open>_M_node\<close>): it
  has a size and a capacity, \<open>resize\<close> beyond the capacity moves the first \<open>size()\<close>
  elements to a new block and drops whatever else lies in the old one. \<open>Buffer\<close> measures
  its free space by \<open>capacity()\<close>, so it also writes between \<open>size()\<close> and \<open>capacity()\<close>.
  \<open>cells\<close> is the part of the block that has been written, from its first byte; bytes
  behind it are indeterminate and never read.

  The two positions are \<open>int\<close> in the code. \<open>wf_buffer\<close>, which every operation keeps,
  gives \<open>left_read_ptr \<le> right_write_ptr\<close>, so the subtractions below are those of the
  code; positions above \<open>INT_MAX\<close> (a buffer of two gigabytes) are not modelled.
\<close>

section \<open>The vector\<close>

record cvec =
  cells :: string
  vsize :: nat
  vcap :: nat

abbreviation nul :: char where
  "nul \<equiv> CHR 0x00"

definition vec_new :: "nat \<Rightarrow> cvec" where
  "vec_new n = \<lparr>cells = replicate n nul, vsize = n, vcap = n\<rparr>"

definition vec_resize :: "nat \<Rightarrow> cvec \<Rightarrow> cvec" where
  "vec_resize n v =
     (if n \<le> vcap v then
        v\<lparr>cells := overwrite (vsize v) (replicate (n - vsize v) nul) (cells v), vsize := n\<rparr>
      else
        \<lparr>cells = take (vsize v) (cells v) @ replicate (n - vsize v) nul,
         vsize = n, vcap = max (2 * vsize v) n\<rparr>)"

definition wf_cvec :: "cvec \<Rightarrow> bool" where
  "wf_cvec v \<longleftrightarrow> vsize v \<le> length (cells v) \<and> length (cells v) \<le> vcap v"

lemma wf_vec_new [simp]: "wf_cvec (vec_new n)"
  by (simp add: wf_cvec_def vec_new_def)

lemma wf_vec_resize [wf_intros]: "wf_cvec v \<Longrightarrow> wf_cvec (vec_resize n v)"
  by (auto simp: wf_cvec_def vec_resize_def)

lemma vcap_vec_resize: "n \<le> vcap (vec_resize n v)"
  by (simp add: vec_resize_def)

section \<open>The buffer\<close>

record buffer =
  left_read_ptr :: nat
  right_write_ptr :: nat
  buf :: cvec

definition init_capa :: nat where
  "init_capa = 1024"

definition new_buffer :: buffer where
  "new_buffer = \<lparr>left_read_ptr = 0, right_write_ptr = 0, buf = vec_new init_capa\<rparr>"

definition get_size :: "buffer \<Rightarrow> nat" where
  "get_size b = right_write_ptr b - left_read_ptr b"

definition peek :: "buffer \<Rightarrow> string" where
  "peek b = slice (left_read_ptr b) (get_size b) (cells (buf b))"

text \<open>The first lines of \<open>push_from\<close>: the block is doubled when little room is left.\<close>

definition grow_for_read :: "buffer \<Rightarrow> buffer" where
  "grow_for_read b =
     (if vcap (buf b) - right_write_ptr b < init_capa div 2
      then b\<lparr>buf := vec_resize (vcap (buf b) * 2) (buf b)\<rparr> else b)"

definition store_at :: "nat \<Rightarrow> string \<Rightarrow> buffer \<Rightarrow> buffer" where
  "store_at off bs b = b\<lparr>buf := (buf b)\<lparr>cells := overwrite off bs (cells (buf b))\<rparr>\<rparr>"

definition remain_right :: "buffer \<Rightarrow> nat" where
  "remain_right b = vcap (buf b) - right_write_ptr b"

text \<open>
  \<open>push_from\<close>: \<open>io\<close> is what the call of \<open>io_fun\<close> (\<open>read\<close>, or a coroutine's
  \<open>co_read\<close>) on the free space to the right returns; it is cut to the count the call gives.
\<close>

definition push_from :: "read_res \<Rightarrow> buffer \<Rightarrow> read_res \<times> buffer" where
  "push_from io b =
     (let b1 = grow_for_read b;
          n = sys_read (remain_right b1) io
      in case n of
           Read_fail e \<Rightarrow> (n, b1)
         | Read_data bs \<Rightarrow>
             (n, (store_at (right_write_ptr b1) bs b1)
                   \<lparr>right_write_ptr := right_write_ptr b1 + length bs\<rparr>))"

text \<open>\<open>pop_to\<close>: also returns the bytes the kernel has taken.\<close>

definition pop_to :: "write_res \<Rightarrow> buffer \<Rightarrow> write_res \<times> string \<times> buffer" where
  "pop_to io b =
     (let n = sys_write (get_size b) io
      in case n of
           Write_fail e \<Rightarrow> (n, [], b)
         | Write_count k \<Rightarrow> (n, take k (peek b), b\<lparr>left_read_ptr := left_read_ptr b + k\<rparr>))"

text \<open>\<open>pop(int len)\<close>: the position moves by the size of the whole content.\<close>

definition pop_len :: "int \<Rightarrow> buffer \<Rightarrow> buffer res" where
  "pop_len len b =
     (let n = length (peek b)
      in bind_res (c_assert (0 \<le> len \<and> len \<le> int n))
           (\<lambda>_. Inr (b\<lparr>left_read_ptr := left_read_ptr b + n\<rparr>)))"

definition pop_all :: "buffer \<Rightarrow> buffer res" where
  "pop_all b = pop_len (int (length (peek b))) b"

definition buf_move_head :: "buffer \<Rightarrow> buffer" where
  "buf_move_head b =
     (let size = get_size b
      in (store_at 0 (peek b) b)\<lparr>left_read_ptr := 0, right_write_ptr := size\<rparr>)"

definition buf_insert_tail :: "string \<Rightarrow> buffer \<Rightarrow> buffer" where
  "buf_insert_tail str b =
     (store_at (right_write_ptr b) str b)\<lparr>right_write_ptr := right_write_ptr b + length str\<rparr>"

definition push :: "string \<Rightarrow> buffer \<Rightarrow> buffer" where
  "push str b =
     (let n = length str; rr = remain_right b; rl = left_read_ptr b
      in if n \<le> rr then buf_insert_tail str b
         else if n \<le> rl + rr then buf_insert_tail str (buf_move_head b)
         else
           (let add = n - rl + rr
            in buf_insert_tail str
                 (buf_move_head (b\<lparr>buf := vec_resize (vcap (buf b) + add) (buf b)\<rparr>))))"

section \<open>Well-formed buffers\<close>

definition wf_buffer :: "buffer \<Rightarrow> bool" where
  "wf_buffer b \<longleftrightarrow> wf_cvec (buf b) \<and> left_read_ptr b \<le> right_write_ptr b
     \<and> right_write_ptr b \<le> length (cells (buf b))"

text \<open>No live byte lies behind the vector's size, where a reallocation would drop it.\<close>

definition content_safe :: "buffer \<Rightarrow> bool" where
  "content_safe b \<longleftrightarrow> right_write_ptr b \<le> vsize (buf b)"

text \<open>The vector's size is its capacity, as in a buffer that only reads fill.\<close>

definition tight :: "buffer \<Rightarrow> bool" where
  "tight b \<longleftrightarrow> vsize (buf b) = vcap (buf b)"

lemmas buffer_defs = wf_buffer_def wf_cvec_def get_size_def peek_def store_at_def remain_right_def

lemma tight_content_safe: "wf_buffer b \<Longrightarrow> tight b \<Longrightarrow> content_safe b"
  by (auto simp: wf_buffer_def wf_cvec_def tight_def content_safe_def)

lemma length_peek [simp]: "wf_buffer b \<Longrightarrow> length (peek b) = get_size b"
  by (auto simp: buffer_defs)

lemma wf_new_buffer [simp]: "wf_buffer new_buffer"
  by (simp add: wf_buffer_def new_buffer_def vec_new_def wf_cvec_def)

lemma tight_new_buffer [simp]: "tight new_buffer"
  by (simp add: tight_def new_buffer_def vec_new_def)

lemma peek_new_buffer [simp]: "peek new_buffer = []"
  by (simp add: peek_def get_size_def new_buffer_def)


section \<open>What a reallocation keeps\<close>

text \<open>
  The content of a buffer whose block is reallocated: bytes at or behind \<open>size()\<close> are
  not moved, their places hold the zeros of the new elements.
\<close>

definition kept :: "buffer \<Rightarrow> string" where
  "kept b = take (vsize (buf b) - left_read_ptr b) (peek b)
     @ replicate (get_size b - (vsize (buf b) - left_read_ptr b)) nul"

lemma kept_safe: "wf_buffer b \<Longrightarrow> content_safe b \<Longrightarrow> kept b = peek b"
  by (auto simp: kept_def content_safe_def buffer_defs)

lemma length_kept [simp]: "wf_buffer b \<Longrightarrow> length (kept b) = get_size b"
  by (auto simp: kept_def)

lemma wf_resize [wf_intros]:
  "wf_buffer b \<Longrightarrow> vcap (buf b) \<le> n \<Longrightarrow> wf_buffer (b\<lparr>buf := vec_resize n (buf b)\<rparr>)"
  by (auto simp: wf_buffer_def wf_cvec_def vec_resize_def)

lemma get_size_resize [simp]: "get_size (b\<lparr>buf := v\<rparr>) = get_size b"
  by (simp add: get_size_def)

lemma peek_realloc:
  assumes "wf_buffer b" and "vcap (buf b) < n"
  shows "peek (b\<lparr>buf := vec_resize n (buf b)\<rparr>) = kept b"
proof -
  let ?l = "left_read_ptr b" and ?v = "vsize (buf b)" and ?g = "get_size b"
  let ?c = "cells (buf b)"
  have vn: "?v < n" and vc: "?v \<le> length ?c" and lr: "?l + ?g = right_write_ptr b"
    and rc: "right_write_ptr b \<le> length ?c" and cn: "length ?c < n"
    using assms by (auto simp: wf_buffer_def wf_cvec_def get_size_def)
  have "peek (b\<lparr>buf := vec_resize n (buf b)\<rparr>)
      = take ?g (drop ?l (take ?v ?c @ replicate (n - ?v) nul))"
    using assms(2) by (simp add: peek_def slice_def vec_resize_def get_size_def)
  also have "\<dots> = take (?v - ?l) (take ?g (drop ?l ?c)) @ replicate (?g - (?v - ?l)) nul"
  proof (cases "?l \<le> ?v")
    case True
    then show ?thesis
      using vn vc lr rc cn by (simp add: drop_take min_def)
  next
    case False
    then show ?thesis
      using vn vc lr rc cn by (simp add: min_def)
  qed
  finally show ?thesis by (simp add: kept_def peek_def slice_def)
qed

lemma wf_grow_for_read [wf_intros]: "wf_buffer b \<Longrightarrow> wf_buffer (grow_for_read b)"
  by (auto simp: grow_for_read_def intro!: wf_resize)

text \<open>Whether \<open>push_from\<close> and \<open>push\<close> reallocate.\<close>

definition grows_for_read :: "buffer \<Rightarrow> bool" where
  "grows_for_read b \<longleftrightarrow> remain_right b < init_capa div 2 \<and> 0 < vcap (buf b)"

definition grows_for_push :: "string \<Rightarrow> buffer \<Rightarrow> bool" where
  "grows_for_push str b \<longleftrightarrow> left_read_ptr b + remain_right b < length str"

lemma peek_grow_for_read [spec_simps]:
  assumes "wf_buffer b"
  shows "peek (grow_for_read b) = (if grows_for_read b then kept b else peek b)"
proof (cases "vcap (buf b) = 0")
  case True
  then have "get_size b = 0" using assms by (auto simp: wf_buffer_def wf_cvec_def get_size_def)
  then show ?thesis
    using True by (simp add: grow_for_read_def grows_for_read_def peek_def)
next
  case False
  then show ?thesis
    using assms peek_realloc [OF assms, of "vcap (buf b) * 2"]
    by (auto simp: grow_for_read_def grows_for_read_def remain_right_def)
qed

lemma grow_for_read_frame [simp]:
  "left_read_ptr (grow_for_read b) = left_read_ptr b"
  "right_write_ptr (grow_for_read b) = right_write_ptr b"
  by (simp_all add: grow_for_read_def)

section \<open>Storing to the right of the content\<close>

lemma wf_insert_tail [wf_intros]:
  "wf_buffer b \<Longrightarrow> length str \<le> remain_right b \<Longrightarrow> wf_buffer (buf_insert_tail str b)"
  by (auto simp: buf_insert_tail_def buffer_defs)

lemma peek_insert_tail [spec_simps]:
  assumes "wf_buffer b"
  shows "peek (buf_insert_tail str b) = peek b @ str"
proof -
  have "left_read_ptr b \<le> right_write_ptr b" "right_write_ptr b \<le> length (cells (buf b))"
    using assms by (auto simp: wf_buffer_def)
  from slice_overwrite_extend [OF this, of str] show ?thesis
    by (simp add: buf_insert_tail_def peek_def store_at_def get_size_def)
qed

lemma wf_move_head [wf_intros]: "wf_buffer b \<Longrightarrow> wf_buffer (buf_move_head b)"
  by (auto simp: buf_move_head_def buffer_defs)

lemma peek_move_head [spec_simps]:
  assumes "wf_buffer b" shows "peek (buf_move_head b) = peek b"
proof -
  have "slice 0 (length (peek b)) (overwrite 0 (peek b) (cells (buf b))) = peek b"
    by (rule slice_overwrite_same) simp
  moreover have "length (peek b) = get_size b" using assms by simp
  ultimately show ?thesis
    by (simp add: buf_move_head_def peek_def [of "_\<lparr>left_read_ptr := 0, right_write_ptr := _\<rparr>"]
        store_at_def get_size_def)
qed

lemma remain_right_move_head:
  "wf_buffer b \<Longrightarrow> remain_right (buf_move_head b) = left_read_ptr b + remain_right b"
  by (auto simp: buf_move_head_def buffer_defs)

text \<open>The room \<open>push\<close> asks for, more than it needs, is enough after the move to the front.\<close>

lemma remain_right_push_growth:
  assumes "wf_buffer b" and "grows_for_push str b"
  defines "m \<equiv> vcap (buf b) + (length str - left_read_ptr b + remain_right b)"
  shows "length str \<le> remain_right (buf_move_head (b\<lparr>buf := vec_resize m (buf b)\<rparr>))"
proof -
  have lt: "vcap (buf b) < m"
    using assms(2) unfolding m_def grows_for_push_def by arith
  have "remain_right (buf_move_head (b\<lparr>buf := vec_resize m (buf b)\<rparr>))
      = left_read_ptr b + (vcap (vec_resize m (buf b)) - right_write_ptr b)"
    using remain_right_move_head [OF wf_resize [OF assms(1) less_imp_le [OF lt]]]
    by (simp add: remain_right_def)
  moreover have "m \<le> vcap (vec_resize m (buf b))" by (rule vcap_vec_resize)
  moreover have "left_read_ptr b \<le> right_write_ptr b" "right_write_ptr b \<le> vcap (buf b)"
    using assms(1) by (auto simp: wf_buffer_def wf_cvec_def)
  ultimately show ?thesis
    using assms(2) unfolding m_def grows_for_push_def remain_right_def by arith
qed


section \<open>The operations\<close>

lemma wf_push [wf_intros]:
  assumes "wf_buffer b" shows "wf_buffer (push str b)"
proof (cases "grows_for_push str b")
  case True
  let ?m = "vcap (buf b) + (length str - left_read_ptr b + remain_right b)"
  have "vcap (buf b) \<le> ?m" by simp
  from wf_insert_tail [OF wf_move_head [OF wf_resize [OF assms this]]
      remain_right_push_growth [OF assms True]]
  show ?thesis
    using True by (simp add: push_def Let_def grows_for_push_def)
next
  case False
  then show ?thesis
    using assms remain_right_move_head [OF assms]
    by (auto simp: push_def Let_def grows_for_push_def intro!: wf_insert_tail wf_move_head)
qed

lemma peek_push [spec_simps]:
  assumes "wf_buffer b"
  shows "peek (push str b) = (if grows_for_push str b then kept b else peek b) @ str"
proof (cases "grows_for_push str b")
  case True
  let ?m = "vcap (buf b) + (length str - left_read_ptr b + remain_right b)"
  have lt: "vcap (buf b) < ?m" using True unfolding grows_for_push_def by arith
  note wf = wf_resize [OF assms less_imp_le [OF lt]]
  have "push str b = buf_insert_tail str (buf_move_head (b\<lparr>buf := vec_resize ?m (buf b)\<rparr>))"
    using True by (simp add: push_def Let_def grows_for_push_def)
  then show ?thesis
    using True peek_insert_tail [OF wf_move_head [OF wf]] peek_move_head [OF wf]
      peek_realloc [OF assms lt] by simp
next
  case False
  then show ?thesis
    using assms by (auto simp: push_def Let_def grows_for_push_def spec_simps wf_intros)
qed

text \<open>The bytes a call of \<open>read\<close> delivered.\<close>

definition delivered :: "read_res \<Rightarrow> string" where
  "delivered r = (case r of Read_data bs \<Rightarrow> bs | Read_fail e \<Rightarrow> [])"

lemma delivered_simps [simp]:
  "delivered (Read_data bs) = bs"
  "delivered (Read_fail e) = []"
  by (simp_all add: delivered_def)

lemma push_from_eq:
  "push_from io b =
     (let n = sys_read (remain_right (grow_for_read b)) io
      in (n, case n of Read_fail e \<Rightarrow> grow_for_read b
             | Read_data bs \<Rightarrow> buf_insert_tail bs (grow_for_read b)))"
  by (simp add: push_from_def buf_insert_tail_def Let_def split: read_res.split)

lemma length_delivered:
  "length (delivered (fst (push_from io b))) \<le> remain_right (grow_for_read b)"
  by (cases io) (simp_all add: push_from_eq)

lemma wf_push_from [wf_intros]: "wf_buffer b \<Longrightarrow> wf_buffer (snd (push_from io b))"
  by (cases io) (auto simp: push_from_eq intro!: wf_insert_tail wf_grow_for_read)

lemma peek_push_from [spec_simps]:
  "wf_buffer b \<Longrightarrow> peek (snd (push_from io b))
     = (if grows_for_read b then kept b else peek b) @ delivered (fst (push_from io b))"
  by (cases io) (simp_all add: push_from_eq spec_simps wf_intros)

lemma tight_push_from:
  assumes "tight b" shows "tight (snd (push_from io b))"
proof -
  have "tight (grow_for_read b)"
    using assms by (auto simp: tight_def grow_for_read_def vec_resize_def)
  then show ?thesis
    by (cases io) (simp_all add: push_from_eq buf_insert_tail_def store_at_def tight_def)
qed

lemma left_push_from [simp]: "left_read_ptr (snd (push_from io b)) = left_read_ptr b"
  by (cases io) (simp_all add: push_from_eq buf_insert_tail_def store_at_def)

lemma wf_pop_to [wf_intros]: "wf_buffer b \<Longrightarrow> wf_buffer (snd (snd (pop_to io b)))"
  by (cases io) (auto simp: pop_to_def buffer_defs)

lemma peek_advance: "peek (b\<lparr>left_read_ptr := left_read_ptr b + k\<rparr>) = drop k (peek b)"
  by (simp add: peek_def get_size_def slice_def drop_take add.commute)

lemma peek_pop_to [spec_simps]:
  assumes "wf_buffer b"
  shows "fst (snd (pop_to io b)) @ peek (snd (snd (pop_to io b))) = peek b"
  by (cases io) (simp_all add: pop_to_def peek_advance)

text \<open>How many bytes a call of \<open>write\<close> took.\<close>

definition taken :: "write_res \<Rightarrow> nat" where
  "taken r = (case r of Write_count n \<Rightarrow> n | Write_fail e \<Rightarrow> 0)"

lemma taken_simps [simp]:
  "taken (Write_count n) = n"
  "taken (Write_fail e) = 0"
  by (simp_all add: taken_def)

lemma sent_pop_to: "fst (snd (pop_to io b)) = take (taken (fst (pop_to io b))) (peek b)"
  by (cases io) (simp_all add: pop_to_def)

lemma pop_len_cases:
  "wf_buffer b \<Longrightarrow> pop_len len b =
     (if 0 \<le> len \<and> len \<le> int (get_size b)
      then Inr (b\<lparr>left_read_ptr := right_write_ptr b\<rparr>) else Inl Assert_abort)"
  by (auto simp: pop_len_def get_size_def wf_buffer_def)

lemma wf_popped [wf_intros]: "wf_buffer b \<Longrightarrow> wf_buffer (b\<lparr>left_read_ptr := right_write_ptr b\<rparr>)"
  by (simp add: wf_buffer_def)

lemma peek_popped [simp]: "peek (b\<lparr>left_read_ptr := right_write_ptr b\<rparr>) = []"
  by (simp add: peek_def get_size_def)

lemma pop_all_eq:
  "wf_buffer b \<Longrightarrow> pop_all b = Inr (b\<lparr>left_read_ptr := right_write_ptr b\<rparr>)"
  by (simp add: pop_all_def pop_len_cases)

section \<open>The receiving side as an interface\<close>

text \<open>
  What the read loop of a connection and of the HTTP server relies on: filling appends what
  the kernel delivered, discarding leaves nothing. The buffers that only \<open>push_from\<close> fills
  are tight, and tight buffers keep this contract.
\<close>

locale recv_queue =
  fixes view :: "'q \<Rightarrow> string"
    and fill :: "read_res \<Rightarrow> 'q \<Rightarrow> read_res \<times> 'q"
    and discard :: "'q \<Rightarrow> 'q res"
    and ok :: "'q \<Rightarrow> bool"
  assumes fill_view: "ok q \<Longrightarrow> view (snd (fill io q)) = view q @ delivered (fst (fill io q))"
    and fill_ok: "ok q \<Longrightarrow> ok (snd (fill io q))"
    and discard_some: "ok q \<Longrightarrow> \<exists>q'. discard q = Inr q' \<and> view q' = [] \<and> ok q'"
begin

fun fills :: "read_res list \<Rightarrow> 'q \<Rightarrow> string \<times> 'q" where
  "fills [] q = ([], q)"
| "fills (io # ios) q =
     (let r = fill io q; s = fills ios (snd r) in (delivered (fst r) @ fst s, snd s))"

lemma fills_ok: "ok q \<Longrightarrow> ok (snd (fills ios q))"
  by (induction ios arbitrary: q) (auto simp: Let_def fill_ok)

lemma fills_view: "ok q \<Longrightarrow> view (snd (fills ios q)) = view q @ fst (fills ios q)"
  by (induction ios arbitrary: q) (auto simp: Let_def fill_ok fill_view)

end

section \<open>The sending side as an interface\<close>

text \<open>
  What the writers rely on: a push that the queue accepts appends, and what the kernel
  takes leaves at the front. \<open>accepts\<close> says that the push loses nothing.
\<close>

locale send_queue =
  fixes view :: "'q \<Rightarrow> string"
    and put :: "string \<Rightarrow> 'q \<Rightarrow> 'q"
    and flush :: "write_res \<Rightarrow> 'q \<Rightarrow> write_res \<times> string \<times> 'q"
    and ok :: "'q \<Rightarrow> bool"
    and accepts :: "string \<Rightarrow> 'q \<Rightarrow> bool"
  assumes put_view: "ok q \<Longrightarrow> accepts str q \<Longrightarrow> view (put str q) = view q @ str"
    and put_length: "ok q \<Longrightarrow> length (view (put str q)) = length (view q) + length str"
    and put_ok: "ok q \<Longrightarrow> ok (put str q)"
    and flush_view: "ok q \<Longrightarrow> fst (snd (flush io q)) @ view (snd (snd (flush io q))) = view q"
    and flush_ok: "ok q \<Longrightarrow> ok (snd (snd (flush io q)))"
begin

text \<open>A put followed by one flush, as \<open>HTTPMessageWriter\<close>'s callback does it.\<close>

lemma put_flush_view:
  assumes "ok q" and "accepts str q"
  shows "fst (snd (flush io (put str q))) @ view (snd (snd (flush io (put str q)))) = view q @ str"
  using flush_view [OF put_ok [OF assms(1)]] put_view [OF assms] by simp

lemma put_flush_ok: "ok q \<Longrightarrow> ok (snd (snd (flush io (put str q))))"
  by (simp add: put_ok flush_ok)

lemma flush_length:
  assumes "ok q"
  shows "length (fst (snd (flush io q))) + length (view (snd (snd (flush io q)))) = length (view q)"
  using arg_cong [OF flush_view [OF assms, of io], of length] by simp

end

definition tight_buffer :: "buffer \<Rightarrow> bool" where
  "tight_buffer b \<longleftrightarrow> wf_buffer b \<and> tight b"

lemma tight_buffer_new [simp]: "tight_buffer new_buffer"
  by (simp add: tight_buffer_def)

interpretation rb: recv_queue peek push_from pop_all tight_buffer
proof
  fix q :: buffer and io
  assume q: "tight_buffer q"
  then show "peek (snd (push_from io q)) = peek q @ delivered (fst (push_from io q))"
    by (simp add: tight_buffer_def peek_push_from kept_safe tight_content_safe)
  show "tight_buffer (snd (push_from io q))"
    using q by (simp add: tight_buffer_def wf_push_from tight_push_from)
  show "\<exists>q'. pop_all q = Inr q' \<and> peek q' = [] \<and> tight_buffer q'"
    using q by (simp add: tight_buffer_def pop_all_eq wf_popped tight_def)
qed

definition push_safe :: "string \<Rightarrow> buffer \<Rightarrow> bool" where
  "push_safe str b \<longleftrightarrow> \<not> grows_for_push str b \<or> content_safe b \<or> get_size b = 0"

lemma kept_empty: "get_size b = 0 \<Longrightarrow> kept b = peek b"
  by (simp add: kept_def peek_def)

interpretation wb: send_queue peek push pop_to wf_buffer push_safe
  by unfold_locales
    (auto simp: push_safe_def peek_push kept_safe kept_empty wf_push wf_pop_to peek_pop_to)


section \<open>Properties\<close>

text \<open>\<open>push_from\<close> called once per element, with the results the kernel gives.\<close>

fun receive :: "read_res list \<Rightarrow> buffer \<Rightarrow> string \<times> buffer" where
  "receive [] b = ([], b)"
| "receive (io # ios) b =
     (let r = push_from io b; s = receive ios (snd r) in (delivered (fst r) @ fst s, snd s))"

lemma receive_eq_fills: "receive ios b = rb.fills ios b"
  by (induction ios arbitrary: b) (simp_all add: Let_def)

lemma receive_view:
  "tight_buffer b \<Longrightarrow> tight_buffer (snd (receive ios b))
     \<and> peek (snd (receive ios b)) = peek b @ fst (receive ios b)"
  by (simp add: receive_eq_fills rb.fills_ok rb.fills_view)

lemma init_capa_le_push_from:
  "init_capa \<le> vcap (buf b) \<Longrightarrow> init_capa \<le> vcap (buf (snd (push_from io b)))"
  by (cases io)
    (auto simp: push_from_eq buf_insert_tail_def store_at_def grow_for_read_def vec_resize_def)

lemma init_capa_le_receive:
  "init_capa \<le> vcap (buf b) \<Longrightarrow> init_capa \<le> vcap (buf (snd (receive ios b)))"
  by (induction ios arbitrary: b) (simp_all add: Let_def init_capa_le_push_from)

lemma receive_room_lemma:
  assumes "wf_buffer b" and "init_capa \<le> vcap (buf b)"
  shows "init_capa div 2 \<le> remain_right (grow_for_read b)"
proof -
  have "right_write_ptr b \<le> vcap (buf b)"
    using assms(1) by (auto simp: wf_buffer_def wf_cvec_def)
  then show ?thesis
    using assms(2) by (auto simp: grow_for_read_def remain_right_def vec_resize_def init_capa_def)
qed

text \<open>
  C18: A buffer that only reads fill loses nothing: after any sequence of \<open>push_from\<close> calls
  on a new buffer, whatever the kernel returned to each, the content is exactly the
  concatenation of the delivered bytes, and the next read is again offered at least 512
  bytes, so that a read of 0 bytes can only mean the end of the stream.
\<close>

theorem receive_lossless:
  "peek (snd (receive ios new_buffer)) = fst (receive ios new_buffer) \<and>
   wf_buffer (snd (receive ios new_buffer)) \<and>
   init_capa div 2 \<le> remain_right (grow_for_read (snd (receive ios new_buffer)))"
proof -
  let ?b = "snd (receive ios new_buffer)"
  have "tight_buffer ?b \<and> peek ?b = peek new_buffer @ fst (receive ios new_buffer)"
    by (rule receive_view) simp
  moreover have "init_capa \<le> vcap (buf ?b)"
    by (rule init_capa_le_receive) (simp add: new_buffer_def vec_new_def)
  ultimately show ?thesis
    by (simp add: tight_buffer_def receive_room_lemma)
qed

lemma push_safe_new: "length str \<le> 1024 \<Longrightarrow> push_safe str new_buffer"
  by (simp add: push_safe_def grows_for_push_def remain_right_def new_buffer_def vec_new_def
      init_capa_def)

lemma peek_push_new: "length str \<le> 1024 \<Longrightarrow> peek (push str new_buffer) = str"
  using push_safe_new [of str] by (auto simp: peek_push push_safe_def kept_safe kept_empty)

text \<open>
  What \<open>push\<close> does to the content, in every case. When no new block is needed, or when
  no live byte lies behind the vector's size, or when the buffer is empty, the string is appended and nothing else
  changes. Otherwise the reallocation keeps the bytes in front of \<open>size()\<close> and replaces the
  others by zeros. The length is always the sum.
\<close>

theorem push_content:
  assumes "wf_buffer b"
  shows "wf_buffer (push str b) \<and>
    peek (push str b) =
      (if push_safe str b then peek b
       else take (vsize (buf b) - left_read_ptr b) (peek b)
         @ replicate (get_size b - (vsize (buf b) - left_read_ptr b)) nul) @ str \<and>
    get_size (push str b) = get_size b + length str"
proof -
  have "peek (push str b) = (if push_safe str b then peek b else kept b) @ str"
    using assms by (auto simp: peek_push push_safe_def kept_safe kept_empty)
  moreover have "get_size (push str b) = length (peek (push str b))"
    using wf_push [OF assms] by simp
  ultimately show ?thesis
    using assms by (auto simp: wf_push kept_def)
qed

theorem push_content_witness:
  "wf_buffer (push ''ab'' new_buffer) \<and> peek (push ''ab'' new_buffer) = ''ab''"
  using push_content [of new_buffer "''ab''"] by (simp add: push_safe_new)

lemma push_full_block:
  assumes "length s1 = 1024"
  shows "right_write_ptr (push s1 new_buffer) = 1024 \<and> left_read_ptr (push s1 new_buffer) = 0
    \<and> vsize (buf (push s1 new_buffer)) = 1024 \<and> vcap (buf (push s1 new_buffer)) = 1024"
  using assms
  by (simp add: push_def Let_def remain_right_def new_buffer_def vec_new_def init_capa_def
      buf_insert_tail_def store_at_def)

lemma push_grows_by_less:
  assumes "right_write_ptr b = 1024" "left_read_ptr b = 0" "vsize (buf b) = 1024"
    "vcap (buf b) = 1024" "0 < length s2" "length s2 \<le> 1024"
  shows "right_write_ptr (push s2 b) = 1024 + length s2 \<and> left_read_ptr (push s2 b) = 0
    \<and> vsize (buf (push s2 b)) = 1024 + length s2 \<and> vcap (buf (push s2 b)) = 2048"
  using assms
  by (simp add: push_def Let_def remain_right_def buf_insert_tail_def store_at_def
      buf_move_head_def get_size_def vec_resize_def)

text \<open>
  Bytes waiting to be sent can be destroyed. Four messages are pushed into a new buffer
  and none is sent: the first fills the 1024 bytes, the second makes the vector grow (its
  capacity doubles, its size does not), the third fits the capacity, the fourth forces the
  next reallocation. In the content the third message is replaced by zeros.
\<close>

theorem push_destroys_pending_bytes:
  assumes "length s1 = 1024" and "0 < length s2" and "length s2 + length s3 \<le> 1024"
    and "1024 - length s2 - length s3 < length s4"
  shows "peek (push s4 (push s3 (push s2 (push s1 new_buffer))))
    = s1 @ s2 @ replicate (length s3) nul @ s4"
proof -
  let ?b1 = "push s1 new_buffer"
  let ?b2 = "push s2 ?b1"
  let ?b3 = "push s3 ?b2"
  have wf: "wf_buffer ?b1" "wf_buffer ?b2" "wf_buffer ?b3" by (simp_all add: wf_push)
  have b1: "right_write_ptr ?b1 = 1024" "left_read_ptr ?b1 = 0"
    "vsize (buf ?b1) = 1024" "vcap (buf ?b1) = 1024"
    using push_full_block [OF assms(1)] by blast+
  have le2: "length s2 \<le> 1024" using assms(3) by simp
  have b2: "right_write_ptr ?b2 = 1024 + length s2" "left_read_ptr ?b2 = 0"
    "vsize (buf ?b2) = 1024 + length s2" "vcap (buf ?b2) = 2048"
    using push_grows_by_less [OF b1 assms(2) le2] by blast+
  have ng3: "\<not> grows_for_push s3 ?b2"
    using assms(3) b2 by (simp add: grows_for_push_def remain_right_def)
  have "?b3 = buf_insert_tail s3 ?b2"
    using ng3 b2 by (simp add: push_def grows_for_push_def Let_def)
  then have b3: "right_write_ptr ?b3 = 1024 + length s2 + length s3" "left_read_ptr ?b3 = 0"
    "vsize (buf ?b3) = 1024 + length s2" "vcap (buf ?b3) = 2048"
    using b2 by (simp_all add: buf_insert_tail_def store_at_def)
  have g4: "grows_for_push s4 ?b3"
    using assms(4) b3 by (simp add: grows_for_push_def remain_right_def)
  have "peek ?b1 = s1" using assms(1) by (simp add: peek_push_new)
  moreover have "kept ?b1 = peek ?b1"
    by (rule kept_safe) (use wf b1 in \<open>simp_all add: content_safe_def\<close>)
  ultimately have "peek ?b2 = s1 @ s2" using wf by (simp add: peek_push)
  then have p3: "peek ?b3 = s1 @ s2 @ s3" using wf ng3 by (simp add: peek_push)
  have "kept ?b3 = s1 @ s2 @ replicate (length s3) nul"
    using b3 p3 assms(1) by (simp add: kept_def get_size_def)
  then show ?thesis using wf g4 by (simp add: peek_push)
qed

theorem push_destroys_pending_bytes_witness:
  "peek (push (replicate 2000 (CHR ''d'')) (push (replicate 500 (CHR ''c''))
     (push ''b'' (push (replicate 1024 (CHR ''a'')) new_buffer))))
   = replicate 1024 (CHR ''a'') @ ''b'' @ replicate 500 nul @ replicate 2000 (CHR ''d'')"
  using push_destroys_pending_bytes [of "replicate 1024 (CHR ''a'')" "''b''"
      "replicate 500 (CHR ''c'')" "replicate 2000 (CHR ''d'')"]
  by simp

text \<open>
  \<open>pop(int len)\<close> accepts a length from 0 to the size of the content and aborts on any
  other, but an accepted call discards the whole content whatever the length is.
\<close>

theorem pop_len_discards_everything:
  assumes "wf_buffer b"
  shows "if 0 \<le> len \<and> len \<le> int (length (peek b))
    then \<exists>b'. pop_len len b = Inr b' \<and> wf_buffer b' \<and> peek b' = []
    else pop_len len b = Inl Assert_abort"
  using assms by (auto simp: pop_len_cases wf_popped)

theorem pop_len_discards_everything_witness:
  "\<exists>b'. pop_len 1 (push ''abc'' new_buffer) = Inr b' \<and> wf_buffer b' \<and> peek b' = []"
proof -
  have wf: "wf_buffer (push ''abc'' new_buffer)" by (simp add: wf_push)
  have "peek (push ''abc'' new_buffer) = ''abc''" by (simp add: peek_push_new)
  then show ?thesis using pop_len_discards_everything [OF wf, of 1] by simp
qed

end
