(* ===== verification/HttpParser.thy ===== *)
theory HttpParser
  imports Prelude
begin

text \<open>
  The incremental HTTP parser of src/src/http/HTTPMessageParser.hpp and .cpp: the message
  types, the seven parser states with their \<open>match\<close> functions, and \<open>HTTPMessageParser\<close>.

  The parser keeps positions, not strings. It reads the message through \<open>begin_ptr\<close>, a
  pointer into the caller's buffer: here \<open>mem\<close> is the initialised part of that buffer,
  a pointer is an offset from its first byte, and a read outside \<open>mem\<close> is \<open>Wild_read\<close>.
  Counters and positions are \<open>int\<close> in the code; messages of two gigabytes, where they
  would overflow, are not modelled. Members the code leaves uninitialised (\<open>version\<close> and
  \<open>code\<close> of the parser) get their first values as arguments of the constructor.
\<close>

section \<open>Message types\<close>

datatype http_method = GET | POST

datatype http_version = V0_9 | V1_0 | V1_1 | V2 | V3

fun method_index :: "http_method \<Rightarrow> int" where
  "method_index GET = 0"
| "method_index POST = 1"

fun version_index :: "http_version \<Rightarrow> int" where
  "version_index V0_9 = 0"
| "version_index V1_0 = 1"
| "version_index V1_1 = 2"
| "version_index V2 = 3"
| "version_index V3 = 4"

text \<open>
  The two lookup functions index an array after an assertion that admits the array's size
  itself. \<open>get_version_str\<close> takes the value the enumeration variable holds, which need not
  be an enumerator when the variable was never assigned.
\<close>

definition checked_index :: "string list \<Rightarrow> int \<Rightarrow> string res" where
  "checked_index arr i =
     bind_res (c_assert (i \<le> int (length arr)))
       (\<lambda>_. if 0 \<le> i \<and> i < int (length arr) then Inr (arr ! nat i) else Inl Wild_read)"

definition get_method_str :: "http_method \<Rightarrow> string res" where
  "get_method_str me = checked_index [''GET'', ''POST''] (method_index me)"

definition get_version_str :: "int \<Rightarrow> string res" where
  "get_version_str ve = checked_index [''HTTP/0.9'', ''HTTP/1.0'', ''HTTP/1.1''] ve"

lemma get_method_str_simps [simp]:
  "get_method_str GET = Inr ''GET''"
  "get_method_str POST = Inr ''POST''"
  by (simp_all add: get_method_str_def checked_index_def)

type_synonym code_map = "int \<rightharpoonup> string"

definition http_code_list :: "(int \<times> string) list" where
  "http_code_list =
    [(100, ''Continue''), (101, ''Switching Protocols''), (102, ''Processing''),
     (200, ''OK''), (201, ''Created''), (202, ''Accepted''),
     (203, ''Non-Authoritative Information''), (204, ''No Content''),
     (205, ''Reset Content''), (206, ''Partial Content''), (207, ''Multi-Status''),
     (208, ''Already Reported''), (226, ''IM Used''), (300, ''Multiple Choices''),
     (301, ''Moved Permanently''), (302, ''Found''), (303, ''See Other''),
     (304, ''Not Modified''), (305, ''Use Proxy''), (307, ''Temporary Redirect''),
     (308, ''Permanent Redirect''), (400, ''Bad Request''), (401, ''Unauthorized''),
     (402, ''Payment Required''), (403, ''Forbidden''), (404, ''Not Found''),
     (405, ''Method Not Allowed''), (406, ''Not Acceptable''),
     (407, ''Proxy Authentication Required''), (408, ''Request Timeout''),
     (409, ''Conflict''), (410, ''Gone''), (411, ''Length Required''),
     (412, ''Precondition Failed''), (413, ''Payload Too Large''),
     (414, ''URI Too Long''), (415, ''Unsupported Media Type''),
     (416, ''Range Not Satisfiable''), (417, ''Expectation Failed''),
     (421, ''Misdirected Request''), (422, ''Unprocessable Entity''), (423, ''Locked''),
     (424, ''Failed Dependency''), (426, ''Upgrade Required''),
     (428, ''Precondition Required''), (429, ''Too Many Requests''),
     (431, ''Request Header Fields Too Large''), (451, ''Unavailable For Legal Reasons''),
     (500, ''Internal Server Error''), (501, ''Not Implemented''), (502, ''Bad Gateway''),
     (503, ''Service Unavailable''), (504, ''Gateway Timeout''),
     (505, ''HTTP Version Not Supported''), (506, ''Variant Also Negotiates''),
     (507, ''Insufficient Storage''), (508, ''Loop Detected''), (510, ''Not Extended''),
     (511, ''Network Authentication Required'')]"

definition http_code_map :: code_map where
  "http_code_map = map_of http_code_list"

section \<open>\<open>std::stoi\<close>\<close>

abbreviation cr :: char where "cr \<equiv> CHR 0x0D"

abbreviation lf :: char where "lf \<equiv> CHR 0x0A"

definition is_digit :: "char \<Rightarrow> bool" where
  "is_digit c \<longleftrightarrow> 48 \<le> (of_char c :: nat) \<and> (of_char c :: nat) \<le> 57"

definition digit_val :: "char \<Rightarrow> int" where
  "digit_val c = int (of_char c) - 48"

definition is_space :: "char \<Rightarrow> bool" where
  "is_space c \<longleftrightarrow> c = CHR '' '' \<or> (9 \<le> (of_char c :: nat) \<and> (of_char c :: nat) \<le> 13)"

definition digits_val :: "string \<Rightarrow> int" where
  "digits_val ds = foldl (\<lambda>a c. a * 10 + digit_val c) 0 ds"

definition stoi_unsigned :: "int \<Rightarrow> string \<Rightarrow> int res" where
  "stoi_unsigned sg s =
     (let ds = takeWhile is_digit s; v = sg * digits_val ds
      in if ds = [] then Inl Invalid_argument
         else if - (2 ^ 31) \<le> v \<and> v < 2 ^ 31 then Inr v else Inl Out_of_range)"

definition stoi :: "string \<Rightarrow> int res" where
  "stoi s =
     (case dropWhile is_space s of
        [] \<Rightarrow> Inl Invalid_argument
      | c # cs \<Rightarrow>
          if c = CHR ''-'' then stoi_unsigned (-1) cs
          else if c = CHR ''+'' then stoi_unsigned 1 cs
          else stoi_unsigned 1 (c # cs))"

section \<open>The parser's states\<close>

type_synonym pii = "int \<times> int"

record state_body =
  body_idx :: int

datatype part_e = Part_key | Part_split | Part_value | Part_end

record state_header =
  is_empty_line :: bool
  header_idx :: int
  now_part :: part_e
  now_key_offset :: int
  now_key_len :: int
  now_value_offset :: int
  now_value_len :: int

record state_detail =
  detail_idx :: int
  is_prefix_r :: bool

record state_code =
  code_idx :: int
  code_arr :: "int list"

record state_version =
  version_idx :: int
  is_prefix_http0 :: bool

record state_url =
  url_idx :: int
  url_key_offset :: int
  url_key_len :: int
  url_value_offset :: int
  url_value_len :: int
  has_query :: bool

record state_method =
  method_idx :: int

datatype pstate =
    StateBody state_body
  | StateHeader state_header
  | StateDetail state_detail
  | StateCode state_code
  | StateVersion state_version
  | StateURL state_url
  | StateMethod state_method

definition new_body :: state_body where
  "new_body = \<lparr>body_idx = 0\<rparr>"

definition new_header :: state_header where
  "new_header = \<lparr>is_empty_line = False, header_idx = 0, now_part = Part_key,
     now_key_offset = 0, now_key_len = 0, now_value_offset = 0, now_value_len = 0\<rparr>"

definition new_detail :: state_detail where
  "new_detail = \<lparr>detail_idx = 0, is_prefix_r = False\<rparr>"

definition new_code :: state_code where
  "new_code = \<lparr>code_idx = 0, code_arr = [0, 0, 0]\<rparr>"

definition new_version :: state_version where
  "new_version = \<lparr>version_idx = 0, is_prefix_http0 = True\<rparr>"

definition new_url :: state_url where
  "new_url = \<lparr>url_idx = 0, url_key_offset = -1, url_key_len = -1, url_value_offset = -1,
     url_value_len = -1, has_query = False\<rparr>"

text \<open>\<open>new StateMethod()\<close> value-initialises the object, so its counter starts at 0.\<close>

definition new_method :: state_method where
  "new_method = \<lparr>method_idx = 0\<rparr>"

record parser =
  is_request :: bool
  is_match :: bool
  fail_code :: int
  total_len :: int
  now_len :: int
  now_char :: char
  begin_ptr :: int
  state :: pstate
  next_state :: "pstate option"
  meth :: http_method
  path_pos :: pii
  query_pos :: "string \<rightharpoonup> pii"
  version :: http_version
  code :: int
  detail_pos :: pii
  header_pos :: "string \<rightharpoonup> pii"
  body_pos :: pii

definition new_parser :: "bool \<Rightarrow> http_version \<Rightarrow> int \<Rightarrow> parser" where
  "new_parser req version0 code0 =
     \<lparr>is_request = req, is_match = True, fail_code = -1, total_len = 0, now_len = 0,
      now_char = CHR 0x00, begin_ptr = 0,
      state = (if req then StateMethod new_method else StateVersion new_version),
      next_state = None, meth = GET, path_pos = (0, 0), query_pos = Map.empty,
      version = version0, code = code0, detail_pos = (0, 0), header_pos = Map.empty,
      body_pos = (0, 0)\<rparr>"

section \<open>The \<open>match\<close> functions\<close>

definition match_body :: "state_body \<Rightarrow> parser \<Rightarrow> state_body \<times> parser" where
  "match_body s p =
     (let l = now_len p;
          p1 = (if body_idx s = 0 then p\<lparr>body_pos := (l - 1, snd (body_pos p))\<rparr>
                else if body_idx s = total_len p - 1
                then p\<lparr>body_pos := (fst (body_pos p), l - fst (body_pos p))\<rparr>
                else p)
      in (s\<lparr>body_idx := body_idx s + 1\<rparr>, p1))"

definition bump_header :: "state_header \<Rightarrow> state_header" where
  "bump_header s = s\<lparr>header_idx := header_idx s + 1\<rparr>"

definition match_header :: "string \<Rightarrow> state_header \<Rightarrow> parser \<Rightarrow> (state_header \<times> parser) res" where
  "match_header mem s p =
     (let c = now_char p; l = now_len p
      in case now_part s of
           Part_key \<Rightarrow>
             Inr (bump_header
               (if c = cr then s\<lparr>now_part := Part_end, is_empty_line := True\<rparr>
                else if header_idx s = 0 then s\<lparr>now_key_offset := l - 1\<rparr>
                else if c = CHR '':''
                then s\<lparr>now_part := Part_split, now_key_len := l - now_key_offset s - 1\<rparr>
                else s), p)
         | Part_split \<Rightarrow>
             Inr (bump_header
               (if c \<noteq> CHR '' '' then s\<lparr>now_part := Part_value, now_value_offset := l - 1\<rparr>
                else s), p)
         | Part_value \<Rightarrow>
             if c = cr then
               (let vlen = l - now_value_offset s - 1;
                    s1 = s\<lparr>now_part := Part_end, now_value_len := vlen\<rparr>
                in bind_res (cstring mem (begin_ptr p + now_key_offset s) (now_key_len s)) (\<lambda>key.
                   let p1 = p\<lparr>header_pos := (header_pos p)(key \<mapsto> (now_value_offset s, vlen))\<rparr>
                   in if key = ''Content-Length'' then
                        bind_res (cstring mem (begin_ptr p + now_value_offset s) vlen) (\<lambda>v.
                        bind_res (stoi v) (\<lambda>n.
                        Inr (bump_header s1, p1\<lparr>total_len := n\<rparr>)))
                      else Inr (bump_header s1, p1)))
             else Inr (bump_header s, p)
         | Part_end \<Rightarrow>
             if c = lf \<and> is_empty_line s
             then Inr (bump_header s, p\<lparr>next_state := Some (StateBody new_body)\<rparr>)
             else if c = lf
             then Inr (bump_header (s\<lparr>now_part := Part_key, header_idx := -1\<rparr>), p)
             else Inr (bump_header s, p\<lparr>is_match := False\<rparr>))"

definition match_detail :: "state_detail \<Rightarrow> parser \<Rightarrow> state_detail \<times> parser" where
  "match_detail s p =
     (let c = now_char p; l = now_len p; i = detail_idx s
      in if c = cr then (s\<lparr>is_prefix_r := True, detail_idx := i + 1\<rparr>, p)
         else if is_prefix_r s \<and> c = lf
         then (s\<lparr>detail_idx := i + 1\<rparr>,
               p\<lparr>detail_pos := (l - i, i + 1), next_state := Some (StateHeader new_header)\<rparr>)
         else (s\<lparr>detail_idx := i + 1\<rparr>, p))"

definition get_code :: "code_map \<Rightarrow> int list \<Rightarrow> int" where
  "get_code cm arr =
     (let code = arr ! 0 * 100 + arr ! 1 * 10 + arr ! 2
      in if cm code \<noteq> None then code else -1)"

definition match_code :: "code_map \<Rightarrow> state_code \<Rightarrow> parser \<Rightarrow> state_code \<times> parser" where
  "match_code cm s p =
     (let c = now_char p; i = code_idx s;
          (s1, p1) =
            (if is_digit c \<and> i < 3
             then (s\<lparr>code_arr := (code_arr s)[nat i := digit_val c]\<rparr>, p)
             else if i = 3 \<and> c = CHR '' ''
             then (s, p\<lparr>code := get_code cm (code_arr s),
                        next_state := Some (StateDetail new_detail)\<rparr>)
             else (s, p\<lparr>is_match := False\<rparr>))
      in (s1\<lparr>code_idx := i + 1\<rparr>, if code p1 = -1 then p1\<lparr>is_match := False\<rparr> else p1))"

definition fail_unless :: "bool \<Rightarrow> parser \<Rightarrow> parser" where
  "fail_unless b p = (if b then p else p\<lparr>is_match := False\<rparr>)"

definition match_version :: "state_version \<Rightarrow> parser \<Rightarrow> state_version \<times> parser" where
  "match_version s p =
     (let c = now_char p; i = version_idx s;
          (s1, p1) =
            (if i = 0 then (s, fail_unless (c = CHR ''H'') p)
             else if i = 1 then (s, fail_unless (c = CHR ''T'') p)
             else if i = 2 then (s, fail_unless (c = CHR ''T'') p)
             else if i = 3 then (s, fail_unless (c = CHR ''P'') p)
             else if i = 4 then (s, fail_unless (c = CHR ''/'') p)
             else if i = 5 then
               (if c = CHR ''0'' then (s\<lparr>is_prefix_http0 := True\<rparr>, p)
                else if c = CHR ''1'' then (s\<lparr>is_prefix_http0 := False\<rparr>, p)
                else (s, p\<lparr>is_match := False\<rparr>))
             else if i = 6 then (s, fail_unless (c = CHR ''.'') p)
             else if i = 7 then
               (if is_prefix_http0 s \<and> c = CHR ''9'' then (s, p\<lparr>version := V0_9\<rparr>)
                else if \<not> is_prefix_http0 s \<and> c = CHR ''0'' then (s, p\<lparr>version := V1_0\<rparr>)
                else if \<not> is_prefix_http0 s \<and> c = CHR ''1'' then (s, p\<lparr>version := V1_1\<rparr>)
                else (s, p\<lparr>is_match := False\<rparr>))
             else if i = 8 then
               (if is_request p \<and> c = cr then (s, p)
                else if \<not> is_request p \<and> c = CHR '' ''
                then (s, p\<lparr>next_state := Some (StateCode new_code)\<rparr>)
                else (s, p\<lparr>is_match := False\<rparr>))
             else if i = 9 then
               (if is_request p \<and> c = lf
                then (s, p\<lparr>next_state := Some (StateHeader new_header)\<rparr>)
                else (s, p\<lparr>is_match := False\<rparr>))
             else (s, p\<lparr>is_match := False\<rparr>))
      in (s1\<lparr>version_idx := i + 1\<rparr>, p1))"

definition bump_url :: "state_url \<Rightarrow> state_url" where
  "bump_url s = s\<lparr>url_idx := url_idx s + 1\<rparr>"

definition match_url :: "string \<Rightarrow> state_url \<Rightarrow> parser \<Rightarrow> (state_url \<times> parser) res" where
  "match_url mem s p =
     (let c = now_char p; l = now_len p
      in if c = CHR ''?'' then
           Inr (bump_url (s\<lparr>url_key_offset := l, has_query := True\<rparr>),
                p\<lparr>path_pos := (fst (path_pos p), l - fst (path_pos p) - 1)\<rparr>)
         else if c = CHR ''='' then
           Inr (bump_url (s\<lparr>url_key_len := l - url_key_offset s - 1, url_value_offset := l\<rparr>), p)
         else if c = CHR ''&'' then
           (let vlen = l - 1 - url_value_offset s
            in bind_res (cstring mem (begin_ptr p + url_key_offset s) (url_key_len s)) (\<lambda>key.
               Inr (bump_url (s\<lparr>url_key_offset := l, url_key_len := -1,
                                url_value_offset := -1, url_value_len := -1\<rparr>),
                    p\<lparr>query_pos := (query_pos p)(key \<mapsto> (url_value_offset s, vlen))\<rparr>)))
         else if c = CHR '' '' then
           (if \<not> has_query s then
              Inr (bump_url s,
                   p\<lparr>path_pos := (fst (path_pos p), l - fst (path_pos p) - 1),
                     next_state := Some (StateVersion new_version)\<rparr>)
            else
              (let vlen = l - url_value_offset s - 1
               in bind_res (c_assert (url_key_offset s \<noteq> -1 \<and> url_key_len s \<noteq> -1
                              \<and> url_value_offset s \<noteq> -1 \<and> vlen \<noteq> -1)) (\<lambda>_.
                  bind_res (cstring mem (begin_ptr p + url_key_offset s) (url_key_len s)) (\<lambda>key.
                  Inr (bump_url (s\<lparr>url_value_len := vlen\<rparr>),
                       p\<lparr>query_pos := (query_pos p)(key \<mapsto> (url_value_offset s, vlen)),
                         next_state := Some (StateVersion new_version)\<rparr>)))))
         else
           Inr (bump_url s,
                if url_idx s = 0 then p\<lparr>path_pos := (l - 1, snd (path_pos p))\<rparr> else p))"

definition match_method :: "state_method \<Rightarrow> parser \<Rightarrow> (state_method \<times> parser) res" where
  "match_method s p =
     (let p0 = p\<lparr>is_match := True\<rparr>; c = now_char p; i = method_idx s;
          s1 = s\<lparr>method_idx := i + 1\<rparr>
      in bind_res (get_method_str (meth p0)) (\<lambda>method_s.
         Inr (s1,
           if i = 0 then
             (if c = CHR ''G'' then p0\<lparr>meth := GET\<rparr>
              else if c = CHR ''P'' then p0\<lparr>meth := POST\<rparr>
              else p0\<lparr>is_match := False\<rparr>)
           else if i < int (length method_s) then
             fail_unless (c = method_s ! nat i) p0
           else if c = CHR '' '' then p0\<lparr>next_state := Some (StateURL new_url)\<rparr>
           else p0\<lparr>is_match := False\<rparr>)))"

text \<open>The virtual call \<open>state->match(*this)\<close>: the state object is updated in place.\<close>

definition match_state :: "code_map \<Rightarrow> string \<Rightarrow> parser \<Rightarrow> parser res" where
  "match_state cm mem p =
     (case state p of
        StateBody s \<Rightarrow> (let (s', p') = match_body s p in Inr (p'\<lparr>state := StateBody s'\<rparr>))
      | StateHeader s \<Rightarrow>
          bind_res (match_header mem s p) (\<lambda>(s', p'). Inr (p'\<lparr>state := StateHeader s'\<rparr>))
      | StateDetail s \<Rightarrow> (let (s', p') = match_detail s p in Inr (p'\<lparr>state := StateDetail s'\<rparr>))
      | StateCode s \<Rightarrow> (let (s', p') = match_code cm s p in Inr (p'\<lparr>state := StateCode s'\<rparr>))
      | StateVersion s \<Rightarrow>
          (let (s', p') = match_version s p in Inr (p'\<lparr>state := StateVersion s'\<rparr>))
      | StateURL s \<Rightarrow>
          bind_res (match_url mem s p) (\<lambda>(s', p'). Inr (p'\<lparr>state := StateURL s'\<rparr>))
      | StateMethod s \<Rightarrow>
          bind_res (match_method s p) (\<lambda>(s', p'). Inr (p'\<lparr>state := StateMethod s'\<rparr>)))"

section \<open>\<open>HTTPMessageParser\<close>\<close>

definition is_completed :: "parser \<Rightarrow> bool" where
  "is_completed p =
     (case state p of StateBody s \<Rightarrow> body_idx s = total_len p | _ \<Rightarrow> False)"

definition install_next :: "parser \<Rightarrow> parser" where
  "install_next p =
     (case next_state p of
        Some st \<Rightarrow> p\<lparr>state := st, next_state := None\<rparr>
      | None \<Rightarrow> p)"

definition read_char :: "char \<Rightarrow> parser \<Rightarrow> parser" where
  "read_char c p = p\<lparr>now_char := c, now_len := now_len p + 1\<rparr>"

fun parse_loop :: "code_map \<Rightarrow> string \<Rightarrow> int \<Rightarrow> nat \<Rightarrow> parser \<Rightarrow> (bool \<times> parser) res" where
  "parse_loop cm mem a 0 p = Inr (True, p)"
| "parse_loop cm mem a (Suc n) p =
     (if a < 0 \<or> int (length mem) \<le> a then Inl Wild_read
      else bind_res (match_state cm mem (read_char (mem ! nat a) p)) (\<lambda>p1.
           if \<not> is_match p1 then Inr (False, p1)
           else parse_loop cm mem (a + 1) n (install_next p1)))"

definition parser_message ::
  "code_map \<Rightarrow> string \<Rightarrow> int \<Rightarrow> nat \<Rightarrow> parser \<Rightarrow> (bool \<times> parser) res" where
  "parser_message cm mem str len p =
     (if \<not> is_match p then Inr (False, p)
      else parse_loop cm mem str len (p\<lparr>begin_ptr := str - now_len p\<rparr>))"

text \<open>A \<open>string_view\<close> into the caller's buffer: the offset of its first byte and its length.\<close>

type_synonym view = "int \<times> int"

definition view_at :: "parser \<Rightarrow> pii \<Rightarrow> view" where
  "view_at p pos = (begin_ptr p + fst pos, snd pos)"

definition view_str :: "string \<Rightarrow> view \<Rightarrow> string res" where
  "view_str mem v = cstring mem (fst v) (snd v)"

record request_message =
  rq_method :: http_method
  rq_path :: view
  rq_query :: "string \<rightharpoonup> view"
  rq_version :: http_version
  rq_header :: "string \<rightharpoonup> view"
  rq_body :: view

record response_message =
  rs_version :: http_version
  rs_code :: int
  rs_detail :: view
  rs_header :: "string \<rightharpoonup> view"
  rs_body :: view

definition get_request_message :: "parser \<Rightarrow> request_message res" where
  "get_request_message p =
     bind_res (c_assert (is_request p \<and> is_completed p)) (\<lambda>_.
     Inr \<lparr>rq_method = meth p, rq_path = view_at p (path_pos p),
          rq_query = (\<lambda>k. map_option (view_at p) (query_pos p k)), rq_version = version p,
          rq_header = (\<lambda>k. map_option (view_at p) (header_pos p k)),
          rq_body = view_at p (body_pos p)\<rparr>)"

definition get_response_message :: "parser \<Rightarrow> response_message res" where
  "get_response_message p =
     bind_res (c_assert (\<not> is_request p \<and> is_completed p)) (\<lambda>_.
     Inr \<lparr>rs_version = version p, rs_code = code p, rs_detail = view_at p (detail_pos p),
          rs_header = (\<lambda>k. map_option (view_at p) (header_pos p k)),
          rs_body = view_at p (body_pos p)\<rparr>)"

section \<open>Feeding a string\<close>

text \<open>
  The loop over the characters themselves, when all of them lie in the buffer: the form
  the proofs use.
\<close>

fun feed :: "code_map \<Rightarrow> string \<Rightarrow> string \<Rightarrow> parser \<Rightarrow> (bool \<times> parser) res" where
  "feed cm mem [] p = Inr (True, p)"
| "feed cm mem (c # cs) p =
     bind_res (match_state cm mem (read_char c p)) (\<lambda>p1.
       if \<not> is_match p1 then Inr (False, p1) else feed cm mem cs (install_next p1))"

text \<open>The buffer holds the string \<open>cs\<close> at offset \<open>a\<close>.\<close>

definition mem_at :: "string \<Rightarrow> int \<Rightarrow> string \<Rightarrow> bool" where
  "mem_at mem a cs \<longleftrightarrow> 0 \<le> a \<and> a + int (length cs) \<le> int (length mem)
     \<and> slice (nat a) (length cs) mem = cs"

lemma mem_at_append:
  "mem_at mem a (xs @ ys) \<longleftrightarrow> mem_at mem a xs \<and> mem_at mem (a + int (length xs)) ys"
proof (cases "0 \<le> a \<and> a + int (length xs) \<le> int (length mem)")
  case True
  then have len: "length (slice (nat a) (length xs) mem) = length xs"
    by (auto simp: min_def)
  have "nat (a + int (length xs)) = nat a + length xs"
    using True by (simp add: nat_add_distrib)
  then have "slice (nat a) (length (xs @ ys)) mem
      = slice (nat a) (length xs) mem @ slice (nat (a + int (length xs))) (length ys) mem"
    by (simp add: slice_split)
  then have "slice (nat a) (length (xs @ ys)) mem = xs @ ys \<longleftrightarrow>
      slice (nat a) (length xs) mem = xs \<and> slice (nat (a + int (length xs))) (length ys) mem = ys"
    using len by (simp add: append_eq_append_conv)
  then show ?thesis using True by (auto simp: mem_at_def)
qed (auto simp: mem_at_def)

lemma mem_at_Cons:
  "mem_at mem a (c # cs) \<longleftrightarrow>
     0 \<le> a \<and> a < int (length mem) \<and> mem ! nat a = c \<and> mem_at mem (a + 1) cs"
proof -
  have "mem_at mem a [c] \<longleftrightarrow> 0 \<le> a \<and> a < int (length mem) \<and> mem ! nat a = c"
    by (auto simp: mem_at_def slice_def take_Suc hd_drop_conv_nth)
  then show ?thesis using mem_at_append [of mem a "[c]" cs] by auto
qed

lemma mem_at_self [simp]: "mem_at cs 0 cs"
  by (simp add: mem_at_def)

lemma mem_at_mid: "mem_at (xs @ cs @ ys) (int (length xs)) cs"
  by (simp add: mem_at_def)

lemma cstring_mem_at: "mem_at mem a cs \<Longrightarrow> n = int (length cs) \<Longrightarrow> cstring mem a n = Inr cs"
  by (auto simp: mem_at_def cstring_def)

lemma parse_loop_feed:
  "mem_at mem a cs \<Longrightarrow> parse_loop cm mem a (length cs) p = feed cm mem cs p"
proof (induction cs arbitrary: a p)
  case (Cons c cs)
  then show ?case
    by (cases "match_state cm mem (read_char c p)") (auto simp: mem_at_Cons)
qed simp

definition then_feed ::
  "(bool \<times> parser) res \<Rightarrow> (parser \<Rightarrow> (bool \<times> parser) res) \<Rightarrow> (bool \<times> parser) res" where
  "then_feed r f = bind_res r (\<lambda>(ok, p). if ok then f p else Inr (False, p))"

lemma then_feed_simps [simp]:
  "then_feed (Inr (True, p)) f = f p"
  "then_feed (Inr (False, p)) f = Inr (False, p)"
  "then_feed (Inl e) f = Inl e"
  by (simp_all add: then_feed_def)

lemma feed_append: "feed cm mem (xs @ ys) p = then_feed (feed cm mem xs p) (feed cm mem ys)"
proof (induction xs arbitrary: p)
  case (Cons c xs)
  then show ?case
    by (cases "match_state cm mem (read_char c p)") (auto simp: then_feed_def)
qed simp

end
