(* ===== verification/HttpStages.thy ===== *)
theory HttpStages
  imports HttpParser
begin

text \<open>
  How the parser consumes the parts of a message, one lemma for each part: the method and
  its blank, the path, one query pair, the version, one header line, the empty line, the
  body. Each lemma gives the exact parser that \<open>feed\<close> reaches, so that whole messages are
  composed with \<open>feed_append\<close>.
\<close>

named_theorems match_defs "the code of the match functions"

lemmas match_fun_defs [match_defs] =
  match_state_def match_body_def match_header_def match_detail_def match_code_def
  match_version_def match_url_def match_method_def bump_url_def bump_header_def
  fail_unless_def read_char_def install_next_def Let_def

lemmas new_state_defs [match_defs] =
  new_body_def new_header_def new_detail_def new_code_def new_version_def new_url_def
  new_method_def

text \<open>The parser is between two characters and has met no mismatch.\<close>

definition ready :: "parser \<Rightarrow> bool" where
  "ready p \<longleftrightarrow> is_match p \<and> next_state p = None"

definition advance :: "string \<Rightarrow> parser \<Rightarrow> parser" where
  "advance cs p = p\<lparr>now_char := last (now_char p # cs), now_len := now_len p + int (length cs)\<rparr>"

lemma advance_simps [simp]:
  "now_len (advance cs p) = now_len p + int (length cs)"
  "is_request (advance cs p) = is_request p"
  "is_match (advance cs p) = is_match p"
  "total_len (advance cs p) = total_len p"
  "begin_ptr (advance cs p) = begin_ptr p"
  "state (advance cs p) = state p"
  "next_state (advance cs p) = next_state p"
  "meth (advance cs p) = meth p"
  "path_pos (advance cs p) = path_pos p"
  "query_pos (advance cs p) = query_pos p"
  "version (advance cs p) = version p"
  "code (advance cs p) = code p"
  "detail_pos (advance cs p) = detail_pos p"
  "header_pos (advance cs p) = header_pos p"
  "body_pos (advance cs p) = body_pos p"
  "ready (advance cs p) = ready p"
  by (simp_all add: advance_def ready_def)

lemma advance_Nil [simp]: "advance [] p = p"
  by (simp add: advance_def)

lemma advance_advance: "advance ys (advance xs p) = advance (xs @ ys) p"
  by (cases ys) (simp_all add: advance_def)

section \<open>The start line of a request\<close>

definition method_name :: "http_method \<Rightarrow> string" where
  "method_name m = (case m of GET \<Rightarrow> ''GET'' | POST \<Rightarrow> ''POST'')"

lemma get_method_str_name: "get_method_str m = Inr (method_name m)"
  by (cases m) (simp_all add: method_name_def)

lemma feed_method:
  assumes "ready p" and "state p = StateMethod new_method"
  shows "feed cm mem (method_name m @ '' '') p
    = Inr (True, (advance (method_name m @ '' '') p)\<lparr>meth := m, state := StateURL new_url\<rparr>)"
  using assms
  by (cases p; cases m)
    (simp_all add: get_method_str_name method_name_def ready_def match_defs advance_def)

definition url_plain :: "char \<Rightarrow> bool" where
  "url_plain c \<longleftrightarrow> c \<noteq> CHR ''?'' \<and> c \<noteq> CHR ''='' \<and> c \<noteq> CHR ''&'' \<and> c \<noteq> CHR '' ''"

definition add_idx :: "int \<Rightarrow> state_url \<Rightarrow> state_url" where
  "add_idx n s = s\<lparr>url_idx := url_idx s + n\<rparr>"

lemma feed_url_plain:
  assumes "list_all url_plain cs" and "ready p" and "state p = StateURL s" and "0 < url_idx s"
  shows "feed cm mem cs p
    = Inr (True, (advance cs p)\<lparr>state := StateURL (add_idx (int (length cs)) s)\<rparr>)"
  using assms
proof (induction cs arbitrary: p s)
  case Nil
  then show ?case by (simp add: add_idx_def)
next
  case (Cons c cs)
  let ?p = "(read_char c p)\<lparr>state := StateURL (bump_url s)\<rparr>"
  have step: "match_state cm mem (read_char c p) = Inr ?p"
    using Cons.prems by (simp add: match_defs url_plain_def)
  have "feed cm mem cs ?p
      = Inr (True, (advance cs ?p)\<lparr>state := StateURL (add_idx (int (length cs)) (bump_url s))\<rparr>)"
    by (rule Cons.IH) (use Cons.prems in \<open>simp_all add: ready_def read_char_def bump_url_def\<close>)
  then show ?case
    using step Cons.prems(2)
    by (simp add: ready_def install_next_def read_char_def bump_url_def add_idx_def advance_def
        algebra_simps)
qed

lemma feed_path:
  assumes "list_all url_plain path" and "path \<noteq> []" and "ready p" and "state p = StateURL new_url"
  shows "feed cm mem path p
    = Inr (True, (advance path p)\<lparr>path_pos := (now_len p, snd (path_pos p)),
        state := StateURL (add_idx (int (length path)) new_url)\<rparr>)"
proof -
  obtain c cs where path: "path = c # cs" using assms(2) by (cases path) auto
  let ?p = "(read_char c p)\<lparr>state := StateURL (bump_url new_url),
      path_pos := (now_len p, snd (path_pos p))\<rparr>"
  have step: "match_state cm mem (read_char c p) = Inr ?p"
    using assms path by (simp add: match_defs url_plain_def)
  have "feed cm mem cs ?p
      = Inr (True, (advance cs ?p)\<lparr>state := StateURL (add_idx (int (length cs)) (bump_url new_url))\<rparr>)"
    by (rule feed_url_plain)
      (use assms path in \<open>simp_all add: ready_def read_char_def bump_url_def new_url_def\<close>)
  then show ?thesis
    using step assms(3) path
    by (simp add: ready_def install_next_def read_char_def bump_url_def add_idx_def advance_def
        algebra_simps)
qed

lemma feed_url_end:
  assumes "ready p" and "state p = StateURL s" and "\<not> has_query s"
  shows "feed cm mem '' '' p
    = Inr (True, (advance '' '' p)\<lparr>path_pos := (fst (path_pos p), now_len p - fst (path_pos p)),
        state := StateVersion new_version\<rparr>)"
  using assms by (simp add: match_defs ready_def advance_def)

lemma feed_url_question:
  assumes "ready p" and "state p = StateURL s"
  shows "feed cm mem ''?'' p
    = Inr (True, (advance ''?'' p)\<lparr>path_pos := (fst (path_pos p), now_len p - fst (path_pos p)),
        state := StateURL (s\<lparr>url_idx := url_idx s + 1, url_key_offset := now_len p + 1,
          has_query := True\<rparr>)\<rparr>)"
  using assms by (simp add: match_defs ready_def advance_def)

text \<open>The parser stands at the first character of a query key.\<close>

definition at_key :: "parser \<Rightarrow> bool" where
  "at_key p \<longleftrightarrow> ready p \<and> (\<exists>s. state p = StateURL s \<and> 0 < url_idx s \<and> has_query s
     \<and> url_key_offset s = now_len p)"

lemma feed_key_value:
  assumes "at_key p" and "list_all url_plain k" and "list_all url_plain v"
  shows "\<exists>s. has_query s \<and> 0 < url_idx s \<and> url_key_offset s = now_len p
    \<and> url_key_len s = int (length k) \<and> url_value_offset s = now_len p + int (length k) + 1
    \<and> feed cm mem (k @ ''='' @ v) p = Inr (True, (advance (k @ ''='' @ v) p)\<lparr>state := StateURL s\<rparr>)"
proof -
  obtain s where s: "ready p" "state p = StateURL s" "0 < url_idx s" "has_query s"
    "url_key_offset s = now_len p"
    using assms(1) by (auto simp: at_key_def)
  let ?s1 = "add_idx (int (length k)) s"
  let ?p1 = "(advance k p)\<lparr>state := StateURL ?s1\<rparr>"
  let ?s2 = "?s1\<lparr>url_idx := url_idx ?s1 + 1, url_key_len := int (length k),
      url_value_offset := now_len p + int (length k) + 1\<rparr>"
  let ?p2 = "(advance (k @ ''='') p)\<lparr>state := StateURL ?s2\<rparr>"
  have "feed cm mem k p = Inr (True, ?p1)"
    by (rule feed_url_plain) (use s assms in simp_all)
  moreover have "feed cm mem ''='' ?p1 = Inr (True, ?p2)"
    using s by (simp add: match_defs ready_def advance_def add_idx_def)
  moreover have "feed cm mem v ?p2
      = Inr (True, (advance v ?p2)\<lparr>state := StateURL (add_idx (int (length v)) ?s2)\<rparr>)"
    by (rule feed_url_plain) (use s assms in \<open>simp_all add: add_idx_def ready_def\<close>)
  ultimately have "feed cm mem (k @ ''='' @ v) p
      = Inr (True, (advance (k @ ''='' @ v) p)\<lparr>state := StateURL (add_idx (int (length v)) ?s2)\<rparr>)"
    unfolding feed_append by (simp add: advance_def)
  then show ?thesis
    using s by (intro exI [of _ "add_idx (int (length v)) ?s2"]) (simp add: add_idx_def)
qed

lemma feed_pair:
  assumes "at_key p" and "list_all url_plain k" and "list_all url_plain v" and "0 \<le> now_len p"
    and "mem_at mem (begin_ptr p + now_len p) k"
  defines "m \<equiv> (query_pos p)(k \<mapsto> (now_len p + int (length k) + 1, int (length v)))"
  shows feed_pair_amp: "\<exists>st. feed cm mem (k @ ''='' @ v @ ''&'') p
      = Inr (True, (advance (k @ ''='' @ v @ ''&'') p)\<lparr>query_pos := m, state := st\<rparr>)
      \<and> at_key ((advance (k @ ''='' @ v @ ''&'') p)\<lparr>query_pos := m, state := st\<rparr>)"
    and feed_pair_end: "feed cm mem (k @ ''='' @ v @ '' '') p
      = Inr (True, (advance (k @ ''='' @ v @ '' '') p)
          \<lparr>query_pos := m, state := StateVersion new_version\<rparr>)"
proof -
  obtain s where s: "has_query s" "0 < url_idx s" "url_key_offset s = now_len p"
    "url_key_len s = int (length k)" "url_value_offset s = now_len p + int (length k) + 1"
    and kv: "feed cm mem (k @ ''='' @ v) p
      = Inr (True, (advance (k @ ''='' @ v) p)\<lparr>state := StateURL s\<rparr>)"
    using feed_key_value [OF assms(1-3)] by blast
  have rd: "ready p" using assms(1) by (simp add: at_key_def)
  have key: "cstring mem (begin_ptr p + now_len p) (int (length k)) = Inr k"
    by (rule cstring_mem_at [OF assms(5)]) simp
  let ?p1 = "(advance (k @ ''='' @ v) p)\<lparr>state := StateURL s\<rparr>"
  let ?s2 = "s\<lparr>url_idx := url_idx s + 1, url_key_offset := now_len p + int (length k) + int (length v) + 2,
      url_key_len := -1, url_value_offset := -1, url_value_len := -1\<rparr>"
  have "feed cm mem ''&'' ?p1
      = Inr (True, (advance (k @ ''='' @ v @ ''&'') p)\<lparr>query_pos := m, state := StateURL ?s2\<rparr>)"
    using s rd key by (simp add: match_defs ready_def advance_def m_def algebra_simps)
  then have "feed cm mem (k @ ''='' @ v @ ''&'') p
      = Inr (True, (advance (k @ ''='' @ v @ ''&'') p)\<lparr>query_pos := m, state := StateURL ?s2\<rparr>)"
    using kv feed_append [of cm mem "k @ ''='' @ v" "''&''" p] by simp
  moreover have "at_key ((advance (k @ ''='' @ v @ ''&'') p)\<lparr>query_pos := m, state := StateURL ?s2\<rparr>)"
    using s rd by (simp add: at_key_def ready_def)
  ultimately show "\<exists>st. feed cm mem (k @ ''='' @ v @ ''&'') p
      = Inr (True, (advance (k @ ''='' @ v @ ''&'') p)\<lparr>query_pos := m, state := st\<rparr>)
      \<and> at_key ((advance (k @ ''='' @ v @ ''&'') p)\<lparr>query_pos := m, state := st\<rparr>)"
    by blast
  have "feed cm mem '' '' ?p1
      = Inr (True, (advance (k @ ''='' @ v @ '' '') p)\<lparr>query_pos := m, state := StateVersion new_version\<rparr>)"
    using s rd key assms(4) by (simp add: match_defs ready_def advance_def m_def algebra_simps)
  then show "feed cm mem (k @ ''='' @ v @ '' '') p
      = Inr (True, (advance (k @ ''='' @ v @ '' '') p)
          \<lparr>query_pos := m, state := StateVersion new_version\<rparr>)"
    using kv feed_append [of cm mem "k @ ''='' @ v" "'' ''" p] by simp
qed

text \<open>The text of a list of query pairs, and the positions the parser stores for it.\<close>

fun query_text :: "(string \<times> string) list \<Rightarrow> string" where
  "query_text [] = []"
| "query_text [(k, v)] = k @ ''='' @ v @ '' ''"
| "query_text ((k, v) # q) = k @ ''='' @ v @ ''&'' @ query_text q"

primrec query_positions ::
  "int \<Rightarrow> (string \<times> string) list \<Rightarrow> (string \<rightharpoonup> pii) \<Rightarrow> (string \<rightharpoonup> pii)" where
  "query_positions a [] m = m"
| "query_positions a (kv # q) m =
     query_positions (a + int (length (fst kv)) + int (length (snd kv)) + 2) q
       (m(fst kv \<mapsto> (a + int (length (fst kv)) + 1, int (length (snd kv)))))"

definition plain_pair :: "string \<times> string \<Rightarrow> bool" where
  "plain_pair kv \<longleftrightarrow> list_all url_plain (fst kv) \<and> list_all url_plain (snd kv)"

lemma feed_query:
  assumes "at_key p" and "q \<noteq> []" and "list_all plain_pair q" and "0 \<le> now_len p"
    and "mem_at mem (begin_ptr p + now_len p) (query_text q)"
  shows "feed cm mem (query_text q) p
    = Inr (True, (advance (query_text q) p)
        \<lparr>query_pos := query_positions (now_len p) q (query_pos p), state := StateVersion new_version\<rparr>)"
  using assms
proof (induction q arbitrary: p rule: query_text.induct)
  case (2 k v)
  then show ?case
    using feed_pair_end [of p k v mem cm]
    by (simp add: plain_pair_def mem_at_append fun_upd_def)
next
  case (3 k v kv q)
  let ?seg = "k @ ''='' @ v @ ''&''" and ?q = "kv # q"
  let ?m = "(query_pos p)(k \<mapsto> (now_len p + int (length k) + 1, int (length v)))"
  have mem: "mem_at mem (begin_ptr p + now_len p) (?seg @ query_text ?q)"
    using "3.prems" by simp
  have km: "mem_at mem (begin_ptr p + now_len p) k"
    using mem by (simp add: mem_at_append)
  have qm: "mem_at mem (begin_ptr p + now_len p + int (length ?seg)) (query_text ?q)"
    using mem_at_append [THEN iffD1, OF mem] by blast
  have pk: "list_all url_plain k" "list_all url_plain v"
    using "3.prems" by (simp_all add: plain_pair_def)
  obtain st where st: "feed cm mem ?seg p
        = Inr (True, (advance ?seg p)\<lparr>query_pos := ?m, state := st\<rparr>)"
      "at_key ((advance ?seg p)\<lparr>query_pos := ?m, state := st\<rparr>)"
    using feed_pair_amp [OF "3.prems"(1) pk "3.prems"(4) km] by blast
  let ?p1 = "(advance ?seg p)\<lparr>query_pos := ?m, state := st\<rparr>"
  have "feed cm mem (query_text ?q) ?p1
      = Inr (True, (advance (query_text ?q) ?p1)
          \<lparr>query_pos := query_positions (now_len ?p1) ?q (query_pos ?p1),
           state := StateVersion new_version\<rparr>)"
    by (rule "3.IH") (use st "3.prems" qm in \<open>simp_all add: algebra_simps\<close>)
  moreover have "feed cm mem (?seg @ query_text ?q) p = feed cm mem (query_text ?q) ?p1"
    using st by (simp only: feed_append then_feed_simps)
  ultimately show ?case
    by (simp add: advance_def algebra_simps)
qed simp

section \<open>Versions and the status line\<close>

definition version_name :: "http_version \<Rightarrow> string" where
  "version_name v = (case v of V0_9 \<Rightarrow> ''HTTP/0.9'' | V1_0 \<Rightarrow> ''HTTP/1.0'' | _ \<Rightarrow> ''HTTP/1.1'')"

definition parsed_version :: "http_version \<Rightarrow> bool" where
  "parsed_version v \<longleftrightarrow> v = V0_9 \<or> v = V1_0 \<or> v = V1_1"

lemma feed_version_request:
  assumes "ready p" and "state p = StateVersion new_version" and "is_request p"
    and "parsed_version v"
  shows "feed cm mem (version_name v @ [cr, lf]) p
    = Inr (True, (advance (version_name v @ [cr, lf]) p)
        \<lparr>version := v, state := StateHeader new_header\<rparr>)"
  using assms
  by (auto simp: parsed_version_def version_name_def ready_def match_defs advance_def)

lemma feed_version_response:
  assumes "ready p" and "state p = StateVersion new_version" and "\<not> is_request p"
    and "parsed_version v"
  shows "feed cm mem (version_name v @ '' '') p
    = Inr (True, (advance (version_name v @ '' '') p)
        \<lparr>version := v, state := StateCode new_code\<rparr>)"
  using assms
  by (auto simp: parsed_version_def version_name_def ready_def match_defs advance_def)

lemma digit_not_space: "is_digit c \<Longrightarrow> c \<noteq> CHR '' ''"
  by (auto simp: is_digit_def)

lemma feed_code:
  assumes "ready p" and "state p = StateCode new_code" and "code p \<noteq> -1"
    and "is_digit d1" "is_digit d2" "is_digit d3"
    and "n = digit_val d1 * 100 + digit_val d2 * 10 + digit_val d3" and "cm n \<noteq> None" and "n \<noteq> -1"
  shows "feed cm mem [d1, d2, d3, CHR '' ''] p
    = Inr (True, (advance [d1, d2, d3, CHR '' ''] p)
        \<lparr>code := n, state := StateDetail new_detail\<rparr>)"
proof -
  have "\<not> is_digit (CHR '' '')" by (simp add: is_digit_def)
  then show ?thesis
    using assms by (simp add: ready_def match_defs advance_def get_code_def)
qed

lemma feed_detail_text:
  assumes "cr \<notin> set d" and "ready p" and "state p = StateDetail s" and "\<not> is_prefix_r s"
  shows "feed cm mem d p
    = Inr (True, (advance d p)\<lparr>state := StateDetail (s\<lparr>detail_idx := detail_idx s + int (length d)\<rparr>)\<rparr>)"
  using assms
proof (induction d arbitrary: p s)
  case (Cons c d)
  let ?s1 = "s\<lparr>detail_idx := detail_idx s + 1\<rparr>"
  let ?p1 = "(read_char c p)\<lparr>state := StateDetail ?s1\<rparr>"
  have "c \<noteq> cr" using Cons.prems by auto
  then have "match_state cm mem (read_char c p) = Inr ?p1"
    using Cons.prems by (simp add: match_defs)
  moreover have "feed cm mem d ?p1 = Inr (True, (advance d ?p1)
      \<lparr>state := StateDetail (?s1\<lparr>detail_idx := detail_idx ?s1 + int (length d)\<rparr>)\<rparr>)"
    by (rule Cons.IH) (use Cons.prems in \<open>simp_all add: ready_def read_char_def\<close>)
  ultimately show ?case
    using Cons.prems by (simp add: ready_def install_next_def read_char_def advance_def algebra_simps)
qed simp

lemma feed_detail:
  assumes "cr \<notin> set d" and "ready p" and "state p = StateDetail new_detail"
  shows "feed cm mem (d @ [cr, lf]) p
    = Inr (True, (advance (d @ [cr, lf]) p)
        \<lparr>detail_pos := (now_len p + 1, int (length d) + 2), state := StateHeader new_header\<rparr>)"
proof -
  let ?p1 = "(advance d p)\<lparr>state := StateDetail (new_detail\<lparr>detail_idx := int (length d)\<rparr>)\<rparr>"
  have "feed cm mem d p = Inr (True, ?p1)"
    using feed_detail_text [OF assms(1,2,3)] by (simp add: new_detail_def)
  moreover have "feed cm mem [cr, lf] ?p1 = Inr (True, (advance (d @ [cr, lf]) p)
        \<lparr>detail_pos := (now_len p + 1, int (length d) + 2), state := StateHeader new_header\<rparr>)"
    using assms by (simp add: ready_def match_defs advance_def algebra_simps)
  ultimately show ?thesis by (simp only: feed_append then_feed_simps)
qed

section \<open>Header lines\<close>

definition at_header :: "parser \<Rightarrow> bool" where
  "at_header p \<longleftrightarrow> ready p \<and> (\<exists>s. state p = StateHeader s \<and> header_idx s = 0
     \<and> now_part s = Part_key \<and> \<not> is_empty_line s)"

definition header_line :: "string \<times> string \<Rightarrow> string" where
  "header_line kv = fst kv @ '': '' @ snd kv @ [cr, lf]"

text \<open>The key/value pairs whose header line the parser reads back.\<close>

definition plain_header :: "string \<times> string \<Rightarrow> bool" where
  "plain_header kv \<longleftrightarrow> fst kv \<noteq> [] \<and> cr \<notin> set (fst kv) \<and> CHR '':'' \<notin> set (tl (fst kv))
     \<and> snd kv \<noteq> [] \<and> hd (snd kv) \<noteq> CHR '' '' \<and> cr \<notin> set (snd kv)"

definition length_header :: "string \<times> string \<Rightarrow> int \<Rightarrow> int" where
  "length_header kv t =
     (if fst kv = ''Content-Length'' then (case stoi (snd kv) of Inr n \<Rightarrow> n | Inl e \<Rightarrow> t) else t)"

definition length_ok :: "string \<times> string \<Rightarrow> bool" where
  "length_ok kv \<longleftrightarrow> fst kv \<noteq> ''Content-Length'' \<or> (\<exists>n. stoi (snd kv) = Inr n)"

definition add_hidx :: "int \<Rightarrow> state_header \<Rightarrow> state_header" where
  "add_hidx n s = s\<lparr>header_idx := header_idx s + n\<rparr>"

text \<open>Characters that leave the part as it is: inside a key, inside a value.\<close>

lemma feed_header_run:
  assumes "ready p" and "state p = StateHeader s" and "cr \<notin> set cs"
    and "now_part s = Part_key \<and> 0 < header_idx s \<and> CHR '':'' \<notin> set cs \<or> now_part s = Part_value"
  shows "feed cm mem cs p
    = Inr (True, (advance cs p)\<lparr>state := StateHeader (add_hidx (int (length cs)) s)\<rparr>)"
  using assms
proof (induction cs arbitrary: p s)
  case Nil
  then show ?case by (simp add: add_hidx_def)
next
  case (Cons c cs)
  let ?p1 = "(read_char c p)\<lparr>state := StateHeader (bump_header s)\<rparr>"
  have "c \<noteq> cr" using Cons.prems by auto
  moreover have "c \<noteq> CHR '':''" if "now_part s \<noteq> Part_value" using Cons.prems that by auto
  ultimately have "match_state cm mem (read_char c p) = Inr ?p1"
    using Cons.prems(2,4) by (elim disjE) (simp_all add: match_defs)
  moreover have "feed cm mem cs ?p1
      = Inr (True, (advance cs ?p1)\<lparr>state := StateHeader (add_hidx (int (length cs)) (bump_header s))\<rparr>)"
  proof (rule Cons.IH)
    show "now_part (bump_header s) = Part_key \<and> 0 < header_idx (bump_header s)
        \<and> CHR '':'' \<notin> set cs \<or> now_part (bump_header s) = Part_value"
      using Cons.prems(4) by (elim disjE) (simp_all add: bump_header_def)
  qed (use Cons.prems(1-3) in \<open>simp_all add: ready_def read_char_def\<close>)
  ultimately show ?case
    using Cons.prems(1)
    by (simp add: ready_def install_next_def read_char_def bump_header_def add_hidx_def advance_def
        algebra_simps)
qed

lemma feed_header_key:
  assumes "at_header p" and "k \<noteq> []" and "cr \<notin> set k" and "CHR '':'' \<notin> set (tl k)"
  shows "\<exists>s. now_part s = Part_split \<and> now_key_offset s = now_len p
    \<and> now_key_len s = int (length k) \<and> \<not> is_empty_line s
    \<and> feed cm mem (k @ '':'') p = Inr (True, (advance (k @ '':'') p)\<lparr>state := StateHeader s\<rparr>)"
proof -
  obtain s where s: "ready p" "state p = StateHeader s" "header_idx s = 0" "now_part s = Part_key"
    "\<not> is_empty_line s"
    using assms(1) by (auto simp: at_header_def)
  obtain c cs where k: "k = c # cs" using assms(2) by (cases k) auto
  let ?s1 = "s\<lparr>now_key_offset := now_len p, header_idx := 1\<rparr>"
  let ?p1 = "(read_char c p)\<lparr>state := StateHeader ?s1\<rparr>"
  let ?s2 = "add_hidx (int (length cs)) ?s1"
  let ?p2 = "(advance k p)\<lparr>state := StateHeader ?s2\<rparr>"
  let ?s3 = "?s2\<lparr>now_part := Part_split, now_key_len := int (length k),
      header_idx := header_idx ?s2 + 1\<rparr>"
  have "c \<noteq> cr" using assms(3) k by auto
  then have "match_state cm mem (read_char c p) = Inr ?p1"
    using s by (simp add: match_defs)
  moreover have "feed cm mem cs ?p1 = Inr (True, (advance cs ?p1)\<lparr>state := StateHeader ?s2\<rparr>)"
    by (rule feed_header_run) (use s assms k in \<open>simp_all add: ready_def read_char_def\<close>)
  ultimately have "feed cm mem k p = Inr (True, ?p2)"
    using s k by (simp add: ready_def install_next_def read_char_def advance_def algebra_simps)
  moreover have "feed cm mem '':'' ?p2 = Inr (True, (advance (k @ '':'') p)\<lparr>state := StateHeader ?s3\<rparr>)"
    using s k by (simp add: match_defs ready_def advance_def add_hidx_def)
  ultimately have "feed cm mem (k @ '':'') p
      = Inr (True, (advance (k @ '':'') p)\<lparr>state := StateHeader ?s3\<rparr>)"
    by (simp only: feed_append then_feed_simps)
  then show ?thesis
    using s by (intro exI [of _ ?s3]) (simp add: add_hidx_def)
qed

lemma feed_header_value:
  assumes "ready p" and "state p = StateHeader s" and "now_part s = Part_split"
    and "v \<noteq> []" and "hd v \<noteq> CHR '' ''" and "cr \<notin> set v"
  shows "\<exists>s'. now_part s' = Part_value \<and> now_value_offset s' = now_len p + 1
    \<and> now_key_offset s' = now_key_offset s \<and> now_key_len s' = now_key_len s
    \<and> is_empty_line s' = is_empty_line s
    \<and> feed cm mem ('' '' @ v) p = Inr (True, (advance ('' '' @ v) p)\<lparr>state := StateHeader s'\<rparr>)"
proof -
  obtain c cs where v: "v = c # cs" using assms(4) by (cases v) auto
  let ?s1 = "s\<lparr>header_idx := header_idx s + 1\<rparr>"
  let ?p1 = "(advance '' '' p)\<lparr>state := StateHeader ?s1\<rparr>"
  let ?s2 = "?s1\<lparr>now_part := Part_value, now_value_offset := now_len p + 1,
      header_idx := header_idx s + 2\<rparr>"
  let ?p2 = "(advance ('' '' @ [c]) p)\<lparr>state := StateHeader ?s2\<rparr>"
  have "feed cm mem '' '' p = Inr (True, ?p1)"
    using assms by (simp add: match_defs ready_def advance_def)
  moreover have "feed cm mem [c] ?p1 = Inr (True, ?p2)"
    using assms v by (simp add: match_defs ready_def advance_def)
  moreover have "feed cm mem cs ?p2
      = Inr (True, (advance cs ?p2)\<lparr>state := StateHeader (add_hidx (int (length cs)) ?s2)\<rparr>)"
    by (rule feed_header_run) (use assms v in \<open>simp_all add: ready_def\<close>)
  ultimately have "feed cm mem ('' '' @ [c] @ cs) p = Inr (True, (advance cs ?p2)
      \<lparr>state := StateHeader (add_hidx (int (length cs)) ?s2)\<rparr>)"
    by (simp only: feed_append then_feed_simps)
  moreover have "advance cs (advance ('' '' @ [c]) p) = advance ('' '' @ v) p"
    using v by (simp add: advance_advance)
  ultimately have "feed cm mem ('' '' @ v) p = Inr (True, (advance ('' '' @ v) p)
      \<lparr>state := StateHeader (add_hidx (int (length cs)) ?s2)\<rparr>)"
    using v by (simp add: advance_def)
  then show ?thesis
    by (intro exI [of _ "add_hidx (int (length cs)) ?s2"]) (simp add: add_hidx_def)
qed

lemma feed_header_line:
  assumes "at_header p" and "plain_header kv" and "length_ok kv"
    and "mem_at mem (begin_ptr p + now_len p) (header_line kv)"
  defines "m \<equiv> (header_pos p)(fst kv \<mapsto> (now_len p + int (length (fst kv)) + 2, int (length (snd kv))))"
  shows "\<exists>st. feed cm mem (header_line kv) p
      = Inr (True, (advance (header_line kv) p)
          \<lparr>header_pos := m, total_len := length_header kv (total_len p), state := st\<rparr>)
    \<and> at_header ((advance (header_line kv) p)
          \<lparr>header_pos := m, total_len := length_header kv (total_len p), state := st\<rparr>)"
proof -
  obtain k v where kv: "kv = (k, v)" by (cases kv)
  have k: "k \<noteq> []" "cr \<notin> set k" "CHR '':'' \<notin> set (tl k)"
    and v: "v \<noteq> []" "hd v \<noteq> CHR '' ''" "cr \<notin> set v"
    using assms(2) kv by (simp_all add: plain_header_def)
  have rd: "ready p" using assms(1) by (simp add: at_header_def)
  obtain s1 where s1: "now_part s1 = Part_split" "now_key_offset s1 = now_len p"
      "now_key_len s1 = int (length k)" "\<not> is_empty_line s1"
    and f1: "feed cm mem (k @ '':'') p = Inr (True, (advance (k @ '':'') p)\<lparr>state := StateHeader s1\<rparr>)"
    using feed_header_key [OF assms(1) k] by blast
  let ?p1 = "(advance (k @ '':'') p)\<lparr>state := StateHeader s1\<rparr>"
  have rd1: "ready ?p1" "state ?p1 = StateHeader s1" using rd by (simp_all add: ready_def)
  obtain s2 where s2: "now_part s2 = Part_value" "now_value_offset s2 = now_len ?p1 + 1"
      "now_key_offset s2 = now_key_offset s1" "now_key_len s2 = now_key_len s1"
      "is_empty_line s2 = is_empty_line s1"
    and f2: "feed cm mem ('' '' @ v) ?p1 = Inr (True, (advance ('' '' @ v) ?p1)\<lparr>state := StateHeader s2\<rparr>)"
    using feed_header_value [OF rd1 s1(1) v] by blast
  let ?p2 = "(advance (k @ '': '' @ v) p)\<lparr>state := StateHeader s2\<rparr>"
  have "(advance ('' '' @ v) ?p1)\<lparr>state := StateHeader s2\<rparr> = ?p2"
    by (simp add: advance_def)
  with f1 f2 have f12: "feed cm mem (k @ '': '' @ v) p = Inr (True, ?p2)"
    using feed_append [of cm mem "k @ '':''" "'' '' @ v" p] by simp
  have hl: "header_line kv = k @ '': '' @ v @ [cr, lf]" by (simp add: header_line_def kv)
  have km: "mem_at mem (begin_ptr p + now_len p) k"
    and vm: "mem_at mem (begin_ptr p + (now_len p + int (length k) + 2)) v"
    using assms(4) unfolding hl by (simp_all add: mem_at_append mem_at_Cons algebra_simps)
  have ks: "cstring mem (begin_ptr p + now_key_offset s2) (now_key_len s2) = Inr k"
    using s1 s2 by (intro cstring_mem_at) (simp_all add: km)
  have voff: "now_value_offset s2 = now_len p + int (length k) + 2" using s2 by simp
  have vs: "cstring mem (begin_ptr p + (now_len p + int (length k) + 2)) (int (length v)) = Inr v"
    by (rule cstring_mem_at) (simp_all add: vm)
  let ?n = "length_header kv (total_len p)"
  let ?s3 = "s2\<lparr>now_part := Part_end, now_value_len := int (length v), header_idx := header_idx s2 + 1\<rparr>"
  let ?p3 = "(advance (k @ '': '' @ v @ [cr]) p)
      \<lparr>header_pos := m, total_len := ?n, state := StateHeader ?s3\<rparr>"
  have lok: "k = ''Content-Length'' \<Longrightarrow> \<exists>n. stoi v = Inr n"
    using assms(3) by (simp add: length_ok_def kv)
  have f3: "feed cm mem [cr] ?p2 = Inr (True, ?p3)"
  proof (cases "k = ''Content-Length''")
    case True
    then obtain n where n: "stoi v = Inr n" using lok by blast
    show ?thesis
      using rd s2(1) ks voff vs n True
      by (simp add: match_defs ready_def advance_def m_def kv length_header_def algebra_simps)
  next
    case False
    then show ?thesis
      using rd s2(1) ks voff
      by (cases p) (simp add: match_defs ready_def advance_def m_def kv length_header_def algebra_simps)
  qed
  let ?s4 = "?s3\<lparr>now_part := Part_key, header_idx := 0\<rparr>"
  let ?p4 = "(advance (header_line kv) p)\<lparr>header_pos := m, total_len := ?n, state := StateHeader ?s4\<rparr>"
  have f4: "feed cm mem [lf] ?p3 = Inr (True, ?p4)"
    using rd s1 s2 unfolding hl by (simp add: match_defs ready_def advance_def)
  have "feed cm mem ((k @ '': '' @ v) @ [cr] @ [lf]) p = Inr (True, ?p4)"
    using feed_append [of cm mem "k @ '': '' @ v" "[cr] @ [lf]" p]
      feed_append [of cm mem "[cr]" "[lf]" ?p2]
    by (simp only: f12 f3 f4 then_feed_simps)
  then have "feed cm mem (header_line kv) p = Inr (True, ?p4)" unfolding hl by simp
  moreover have "at_header ?p4"
    using rd s1 s2 by (simp add: at_header_def ready_def)
  ultimately show ?thesis by blast
qed

primrec header_positions ::
  "int \<Rightarrow> (string \<times> string) list \<Rightarrow> (string \<rightharpoonup> pii) \<Rightarrow> (string \<rightharpoonup> pii)" where
  "header_positions a [] m = m"
| "header_positions a (kv # hs) m =
     header_positions (a + int (length (header_line kv))) hs
       (m(fst kv \<mapsto> (a + int (length (fst kv)) + 2, int (length (snd kv)))))"

definition header_text :: "(string \<times> string) list \<Rightarrow> string" where
  "header_text hs = concat (map header_line hs)"

definition content_length :: "(string \<times> string) list \<Rightarrow> int \<Rightarrow> int" where
  "content_length hs t = foldl (\<lambda>t kv. length_header kv t) t hs"

lemma feed_headers:
  assumes "at_header p" and "list_all plain_header hs" and "list_all length_ok hs"
    and "mem_at mem (begin_ptr p + now_len p) (header_text hs)"
  shows "\<exists>st. feed cm mem (header_text hs) p
      = Inr (True, (advance (header_text hs) p)
          \<lparr>header_pos := header_positions (now_len p) hs (header_pos p),
           total_len := content_length hs (total_len p), state := st\<rparr>)
    \<and> at_header ((advance (header_text hs) p)
          \<lparr>header_pos := header_positions (now_len p) hs (header_pos p),
           total_len := content_length hs (total_len p), state := st\<rparr>)"
  using assms
proof (induction hs arbitrary: p)
  case Nil
  have "p\<lparr>header_pos := header_pos p, total_len := total_len p, state := state p\<rparr> = p" by simp
  then show ?case
    using Nil.prems by (intro exI [of _ "state p"]) (simp add: header_text_def content_length_def)
next
  case (Cons kv hs)
  let ?m = "(header_pos p)(fst kv \<mapsto> (now_len p + int (length (fst kv)) + 2, int (length (snd kv))))"
  have split: "header_text (kv # hs) = header_line kv @ header_text hs"
    by (simp add: header_text_def)
  have mem: "mem_at mem (begin_ptr p + now_len p) (header_line kv)"
      "mem_at mem (begin_ptr p + now_len p + int (length (header_line kv))) (header_text hs)"
    using mem_at_append [THEN iffD1, OF Cons.prems(4) [unfolded split]] by blast+
  have kv: "plain_header kv" "length_ok kv" using Cons.prems by simp_all
  have hs: "list_all plain_header hs" "list_all length_ok hs" using Cons.prems by simp_all
  obtain st where st: "feed cm mem (header_line kv) p = Inr (True, (advance (header_line kv) p)
        \<lparr>header_pos := ?m, total_len := length_header kv (total_len p), state := st\<rparr>)"
      "at_header ((advance (header_line kv) p)
        \<lparr>header_pos := ?m, total_len := length_header kv (total_len p), state := st\<rparr>)"
    using feed_header_line [OF Cons.prems(1) kv mem(1)] by blast
  let ?p1 = "(advance (header_line kv) p)
      \<lparr>header_pos := ?m, total_len := length_header kv (total_len p), state := st\<rparr>"
  have m2: "mem_at mem (begin_ptr ?p1 + now_len ?p1) (header_text hs)"
    using mem(2) by (simp add: algebra_simps)
  obtain st' where st': "feed cm mem (header_text hs) ?p1 = Inr (True, (advance (header_text hs) ?p1)
        \<lparr>header_pos := header_positions (now_len ?p1) hs (header_pos ?p1),
         total_len := content_length hs (total_len ?p1), state := st'\<rparr>)"
      "at_header ((advance (header_text hs) ?p1)
        \<lparr>header_pos := header_positions (now_len ?p1) hs (header_pos ?p1),
         total_len := content_length hs (total_len ?p1), state := st'\<rparr>)"
    using Cons.IH [OF st(2) hs m2] by blast
  let ?p2 = "(advance (header_text (kv # hs)) p)
          \<lparr>header_pos := header_positions (now_len p) (kv # hs) (header_pos p),
           total_len := content_length (kv # hs) (total_len p), state := st'\<rparr>"
  have eq: "(advance (header_text hs) ?p1)
        \<lparr>header_pos := header_positions (now_len ?p1) hs (header_pos ?p1),
         total_len := content_length hs (total_len ?p1), state := st'\<rparr> = ?p2"
    by (simp add: split advance_def content_length_def)
  have "feed cm mem (header_text (kv # hs)) p = Inr (True, ?p2)"
    by (simp only: split feed_append st(1) st'(1) then_feed_simps eq [unfolded split])
  moreover have "at_header ?p2" using st'(2) by (simp only: eq)
  ultimately show ?case by blast
qed

lemma feed_empty_line:
  assumes "at_header p"
  shows "feed cm mem [cr, lf] p = Inr (True, (advance [cr, lf] p)\<lparr>state := StateBody new_body\<rparr>)"
proof -
  obtain s where "ready p" "state p = StateHeader s" "header_idx s = 0" "now_part s = Part_key"
    using assms by (auto simp: at_header_def)
  then show ?thesis by (simp add: match_defs ready_def advance_def)
qed

section \<open>The body\<close>

text \<open>
  The position stored for the body after some of its characters. The length is stored with
  the last one, except that a first character never stores it.
\<close>

definition body_pos_after :: "int \<Rightarrow> int \<Rightarrow> nat \<Rightarrow> pii \<Rightarrow> pii" where
  "body_pos_after start tot n old =
     (if n = 0 then old
      else (start, if 2 \<le> tot \<and> tot \<le> int n then tot else snd old))"

lemma feed_body:
  assumes "ready p" and "state p = StateBody new_body"
  shows "feed cm mem body p
    = Inr (True, (advance body p)
        \<lparr>body_pos := body_pos_after (now_len p) (total_len p) (length body) (body_pos p),
         state := StateBody \<lparr>body_idx = int (length body)\<rparr>\<rparr>)"
proof (induction body rule: rev_induct)
  case Nil
  have "p\<lparr>body_pos := body_pos p, state := StateBody new_body\<rparr> = p"
    using assms(2) by (cases p) simp
  then show ?case by (simp add: body_pos_after_def new_body_def)
next
  case (snoc c cs)
  let ?p1 = "(advance cs p)
        \<lparr>body_pos := body_pos_after (now_len p) (total_len p) (length cs) (body_pos p),
         state := StateBody \<lparr>body_idx = int (length cs)\<rparr>\<rparr>"
  have "feed cm mem [c] ?p1 = Inr (True, (advance (cs @ [c]) p)
        \<lparr>body_pos := body_pos_after (now_len p) (total_len p) (Suc (length cs)) (body_pos p),
         state := StateBody \<lparr>body_idx = int (Suc (length cs))\<rparr>\<rparr>)"
  proof (cases "cs = []")
    case True
    then show ?thesis
      using assms(1) by (simp add: match_defs ready_def advance_def body_pos_after_def)
  next
    case False
    then have "0 < length cs" by simp
    then show ?thesis
      using assms(1)
      by (cases "int (length cs) = total_len p - 1"; cases "total_len p \<le> int (length cs)")
        (simp_all add: match_defs ready_def advance_def body_pos_after_def)
  qed
  then show ?case by (simp add: feed_append snoc.IH)
qed

section \<open>From positions to strings\<close>

definition view_map :: "string \<Rightarrow> (string \<rightharpoonup> view) \<Rightarrow> (string \<rightharpoonup> string res)" where
  "view_map mem m = (\<lambda>k. map_option (view_str mem) (m k))"

definition str_map :: "(string \<times> string) list \<Rightarrow> (string \<rightharpoonup> string res)" where
  "str_map kvs = (\<lambda>k. map_option Inr (map_of (rev kvs) k))"

definition pos_strings :: "string \<Rightarrow> int \<Rightarrow> (string \<rightharpoonup> pii) \<Rightarrow> (string \<rightharpoonup> string res)" where
  "pos_strings mem b m = (\<lambda>k. map_option (\<lambda>pos. cstring mem (b + fst pos) (snd pos)) (m k))"

lemma pos_strings_upd:
  "pos_strings mem b (m(k \<mapsto> pos)) = (pos_strings mem b m)(k \<mapsto> cstring mem (b + fst pos) (snd pos))"
  by (auto simp: pos_strings_def)

lemma str_map_Cons: "m ++ str_map (kv # kvs) = m(fst kv \<mapsto> Inr (snd kv)) ++ str_map kvs"
  by (auto simp: str_map_def map_add_def fun_eq_iff map_of_append split: option.splits)

lemma str_map_Nil [simp]: "m ++ str_map [] = m"
  by (auto simp: str_map_def map_add_def)

lemma view_map_pos: "view_map mem (\<lambda>k. map_option (view_at p) (m k)) = pos_strings mem (begin_ptr p) m"
  by (simp add: view_map_def pos_strings_def view_str_def view_at_def option.map_comp comp_def)

lemma query_positions_strings:
  "mem_at mem (b + a) (query_text q) \<Longrightarrow>
     pos_strings mem b (query_positions a q m) = pos_strings mem b m ++ str_map q"
proof (induction q arbitrary: a m)
  case (Cons kv q)
  obtain k v where kv: "kv = (k, v)" by (cases kv)
  have v: "mem_at mem (b + a + int (length k) + 1) v"
    using Cons.prems unfolding kv
    by (cases q) (simp_all add: mem_at_append mem_at_Cons algebra_simps)
  have val: "cstring mem (b + (a + int (length k) + 1)) (int (length v)) = Inr v"
    by (rule cstring_mem_at) (use v in \<open>simp_all add: algebra_simps\<close>)
  show ?case
  proof (cases q)
    case Nil
    then show ?thesis using val by (simp add: kv str_map_Cons pos_strings_upd [unfolded fun_upd_def] fun_upd_def
        cong: if_cong)
  next
    case more: (Cons kv' q')
    have "mem_at mem (b + (a + int (length k) + int (length v) + 2)) (query_text q)"
      using Cons.prems unfolding kv more by (simp add: mem_at_append mem_at_Cons algebra_simps)
    from Cons.IH [OF this] show ?thesis
      using val by (simp add: kv str_map_Cons pos_strings_upd [unfolded fun_upd_def] fun_upd_def
        cong: if_cong)
  qed
qed simp

lemma header_positions_strings:
  "mem_at mem (b + a) (header_text hs) \<Longrightarrow>
     pos_strings mem b (header_positions a hs m) = pos_strings mem b m ++ str_map hs"
proof (induction hs arbitrary: a m)
  case (Cons kv hs)
  have split: "header_text (kv # hs) = header_line kv @ header_text hs"
    by (simp add: header_text_def)
  note mem = mem_at_append [THEN iffD1, OF Cons.prems [unfolded split]]
  have "mem_at mem (b + (a + int (length (fst kv)) + 2)) (snd kv)"
    using mem by (simp add: header_line_def mem_at_append mem_at_Cons algebra_simps)
  then have val: "cstring mem (b + (a + int (length (fst kv)) + 2)) (int (length (snd kv)))
      = Inr (snd kv)"
    by (rule cstring_mem_at) simp
  have "mem_at mem (b + (a + int (length (header_line kv)))) (header_text hs)"
    using mem by (simp add: algebra_simps)
  from Cons.IH [OF this] show ?case
    using val by (simp add: str_map_Cons pos_strings_upd [unfolded fun_upd_def] fun_upd_def
        cong: if_cong)
qed simp

lemma pos_strings_empty [simp]: "pos_strings mem b Map.empty = Map.empty"
  by (simp add: pos_strings_def)

lemma empty_add_str_map [simp]: "Map.empty ++ str_map kvs = str_map kvs"
  by simp

end
