(* ===== verification/HttpWriter.thy ===== *)
theory HttpWriter
  imports HttpStages
begin

text \<open>
  \<open>HTTPMessageWriter\<close> of src/src/http/HTTPMessageParser.cpp. The writer hands text to its
  callback piece by piece and never looks at a result, so a call of \<open>write_message\<close> is the
  list of pieces it hands over, in order; what the callback does with them is the
  interface \<open>message_sink\<close> below.

  The message records hold strings; a header or query table is the list of its entries in
  the order in which the loop over the \<open>unordered_map\<close> meets them, which the theorems leave
  arbitrary. The version of a response is the value its enumeration variable holds.
\<close>

section \<open>\<open>std::to_string\<close>\<close>

definition digit_char :: "nat \<Rightarrow> char" where
  "digit_char n = char_of (48 + n)"

fun nat_digits :: "nat \<Rightarrow> string" where
  "nat_digits n =
     (if n < 10 then [digit_char n] else nat_digits (n div 10) @ [digit_char (n mod 10)])"

declare nat_digits.simps [simp del]

definition to_string :: "int \<Rightarrow> string" where
  "to_string i =
     (if i < 0 then CHR ''-'' # nat_digits (nat (- i)) else nat_digits (nat i))"

lemma of_char_digit: "n < 10 \<Longrightarrow> of_char (digit_char n) = 48 + n"
  by (simp add: digit_char_def)

lemma digit_char_is_digit: "n < 10 \<Longrightarrow> is_digit (digit_char n) \<and> digit_val (digit_char n) = int n"
  by (simp add: is_digit_def digit_val_def of_char_digit)

lemma nat_digits_are_digits: "list_all is_digit (nat_digits n)"
proof (induction n rule: nat_digits.induct)
  case (1 n)
  then show ?case
    by (subst nat_digits.simps) (simp add: digit_char_is_digit)
qed

lemma nat_digits_nonempty: "nat_digits n \<noteq> []"
  by (subst nat_digits.simps) simp

lemma digits_val_snoc: "digits_val (ds @ [c]) = digits_val ds * 10 + digit_val c"
  by (simp add: digits_val_def)

lemma digits_val_nat_digits: "digits_val (nat_digits n) = int n"
proof (induction n rule: nat_digits.induct)
  case (1 n)
  show ?case
  proof (cases "n < 10")
    case True
    then show ?thesis
      by (subst nat_digits.simps) (simp add: digits_val_def digit_char_is_digit)
  next
    case False
    have "int (n div 10) * 10 + int (n mod 10) = int n"
      by (metis div_mult_mod_eq of_nat_add of_nat_mult of_nat_numeral)
    with False show ?thesis
      using "1.IH" by (subst nat_digits.simps) (simp add: digits_val_snoc digit_char_is_digit)
  qed
qed

lemma takeWhile_digits: "list_all is_digit ds \<Longrightarrow> takeWhile is_digit ds = ds"
  by (induction ds) auto

lemma is_digit_not_space: "is_digit c \<Longrightarrow> \<not> is_space c \<and> c \<noteq> CHR ''-'' \<and> c \<noteq> CHR ''+''"
  by (auto simp: is_digit_def is_space_def)

lemma stoi_unsigned_digits:
  "- (2 ^ 31) \<le> sg * int n \<Longrightarrow> sg * int n < 2 ^ 31 \<Longrightarrow>
     stoi_unsigned sg (nat_digits n) = Inr (sg * int n)"
  using nat_digits_nonempty
  by (simp add: stoi_unsigned_def Let_def takeWhile_digits nat_digits_are_digits
      digits_val_nat_digits)

lemma stoi_to_string:
  assumes "- (2 ^ 31) \<le> i" and "i < 2 ^ 31"
  shows "stoi (to_string i) = Inr i"
proof (cases "i < 0")
  case True
  have "\<not> is_space (CHR ''-'')" by (simp add: is_space_def)
  then show ?thesis
    using True assms stoi_unsigned_digits [of "-1" "nat (- i)"]
    by (simp add: stoi_def to_string_def)
next
  case False
  obtain c cs where ds: "nat_digits (nat i) = c # cs"
    using nat_digits_nonempty by (cases "nat_digits (nat i)") auto
  have "is_digit c" using nat_digits_are_digits [of "nat i"] ds by simp
  then show ?thesis
    using False assms stoi_unsigned_digits [of 1 "nat i"] ds is_digit_not_space [of c]
    by (simp add: stoi_def to_string_def)
qed

section \<open>The writer\<close>

record http_request =
  wq_method :: http_method
  wq_path :: string
  wq_query :: "(string \<times> string) list"
  wq_version :: http_version
  wq_header :: "(string \<times> string) list"
  wq_body :: string

record http_response =
  ws_version :: int
  ws_code :: int
  ws_detail :: string
  ws_header :: "(string \<times> string) list"
  ws_body :: string

abbreviation crlf :: string where "crlf \<equiv> [cr, lf]"

definition write_header_body :: "(string \<times> string) list \<Rightarrow> string \<Rightarrow> string list" where
  "write_header_body header body =
     concat (map (\<lambda>pa. fst pa @ '': '' @ snd pa @ crlf) header)
     # (if length body \<noteq> 0 then [crlf, body] else [])"

definition query_pairs_text :: "(string \<times> string) list \<Rightarrow> string" where
  "query_pairs_text q = concat (map (\<lambda>pa. fst pa @ ''='' @ snd pa @ ''&'') q)"

definition request_line :: "http_request \<Rightarrow> string res" where
  "request_line me =
     bind_res (get_method_str (wq_method me)) (\<lambda>ms.
     let start_line = ms @ '' '' @ wq_path me;
         start_line =
           (if length (wq_query me) \<noteq> 0
            then (let s = start_line @ ''?'' @ query_pairs_text (wq_query me)
                  in s[length s - 1 := CHR '' ''])
            else start_line @ '' '')
     in bind_res (get_version_str (version_index (wq_version me))) (\<lambda>vs.
        Inr (start_line @ vs @ crlf)))"

definition write_request :: "http_request \<Rightarrow> string list res" where
  "write_request me =
     bind_res (request_line me) (\<lambda>start_line.
     Inr (start_line # write_header_body (wq_header me) (wq_body me)))"

text \<open>
  \<open>http_code_map[code]\<close>: a missing code is inserted with an empty text, and the table is a
  global variable.
\<close>

definition code_detail :: "code_map \<Rightarrow> int \<Rightarrow> string \<times> code_map" where
  "code_detail cm c = (case cm c of Some d \<Rightarrow> (d, cm) | None \<Rightarrow> ([], cm(c \<mapsto> [])))"

definition write_response :: "code_map \<Rightarrow> http_response \<Rightarrow> (string list \<times> code_map) res" where
  "write_response cm me =
     bind_res (get_version_str (ws_version me)) (\<lambda>vs.
     let (d, cm') = code_detail cm (ws_code me);
         start_line = vs @ '' '' @ to_string (ws_code me) @ '' '' @ d @ crlf
     in Inr (start_line # write_header_body (ws_header me) (ws_body me), cm'))"

definition error_response :: "int \<Rightarrow> string \<Rightarrow> http_response" where
  "error_response c d =
     \<lparr>ws_version = version_index V1_0, ws_code = c, ws_detail = d,
      ws_header = [(''User-Agent'', ''simple server'')], ws_body = []\<rparr>"

definition write_error_response_message ::
  "code_map \<Rightarrow> int \<Rightarrow> (string list \<times> code_map) res" where
  "write_error_response_message cm c =
     (if c = 400 \<or> c = 404 then
        (case cm c of
           None \<Rightarrow> Inl Dead_object
         | Some d \<Rightarrow> write_response cm (error_response c d))
      else Inl Runtime_error)"

section \<open>The callback as an interface\<close>

definition emit :: "(string \<Rightarrow> 's \<Rightarrow> 's) \<Rightarrow> string list \<Rightarrow> 's \<Rightarrow> 's" where
  "emit put pieces st = fold put pieces st"

lemma emit_simps [simp]:
  "emit put [] st = st"
  "emit put (x # xs) st = emit put xs (put x st)"
  by (simp_all add: emit_def)

text \<open>
  What a user of the writer may rely on: a callback that appends each piece to its output
  ends with the whole message, as long as it stays in a good state.
\<close>

locale message_sink =
  fixes put :: "string \<Rightarrow> 's \<Rightarrow> 's"
    and out :: "'s \<Rightarrow> string"
    and good :: "string \<Rightarrow> 's \<Rightarrow> bool"
  assumes put_out: "good str st \<Longrightarrow> out (put str st) = out st @ str"
begin

fun all_good :: "string list \<Rightarrow> 's \<Rightarrow> bool" where
  "all_good [] st = True"
| "all_good (x # xs) st = (good x st \<and> all_good xs (put x st))"

lemma emit_out: "all_good pieces st \<Longrightarrow> out (emit put pieces st) = out st @ concat pieces"
  by (induction pieces arbitrary: st) (auto simp: put_out)

end

text \<open>The callback of test/http/test.cpp, which prints the pieces.\<close>

interpretation print_sink: message_sink "\<lambda>str out. out @ str" "\<lambda>out. out" "\<lambda>_ _. True"
  by unfold_locales simp

section \<open>The text of a message\<close>

definition start_text :: "http_request \<Rightarrow> string" where
  "start_text r = method_name (wq_method r) @ '' '' @ wq_path r
     @ (if wq_query r = [] then '' '' else ''?'' @ query_text (wq_query r))
     @ version_name (wq_version r) @ crlf"

definition request_text :: "http_request \<Rightarrow> string" where
  "request_text r = start_text r @ header_text (wq_header r) @ crlf @ wq_body r"

lemma get_version_str_name:
  "parsed_version v \<Longrightarrow> get_version_str (version_index v) = Inr (version_name v)"
  by (auto simp: parsed_version_def get_version_str_def checked_index_def version_name_def)

lemma query_text_update:
  "q \<noteq> [] \<Longrightarrow> (let s = pre @ query_pairs_text q in s[length s - 1 := CHR '' '']) = pre @ query_text q"
proof (induction q arbitrary: pre rule: query_text.induct)
  case (2 k v)
  have "(pre @ k @ ''='' @ v @ ''&'')[length (pre @ k @ ''='' @ v @ ''&'') - 1 := CHR '' '']
      = (pre @ k @ ''='' @ v) @ '' ''"
    using list_update_length [of "pre @ k @ ''='' @ v" "CHR ''&''" "[]" "CHR '' ''"] by simp
  then show ?case by (simp add: query_pairs_text_def Let_def)
next
  case (3 k v kv q)
  from "3.IH" [of "pre @ k @ ''='' @ v @ ''&''"] show ?case
    by (simp add: query_pairs_text_def Let_def)
qed simp

lemma request_line_text: "parsed_version (wq_version r) \<Longrightarrow> request_line r = Inr (start_text r)"
  using query_text_update [of "wq_query r" "method_name (wq_method r) @ '' '' @ wq_path r @ ''?''"]
  by (simp add: request_line_def start_text_def get_method_str_name get_version_str_name Let_def)

lemma write_header_body_text:
  "write_header_body h b = header_text h # (if b = [] then [] else [crlf, b])"
  by (simp add: write_header_body_def header_text_def header_line_def [abs_def])

lemma write_request_text:
  "parsed_version (wq_version r) \<Longrightarrow> write_request r
     = Inr (start_text r # header_text (wq_header r) # (if wq_body r = [] then [] else [crlf, wq_body r]))"
  by (simp add: write_request_def request_line_text write_header_body_text)

definition response_start_text :: "code_map \<Rightarrow> http_response \<Rightarrow> http_version \<Rightarrow> string" where
  "response_start_text cm r v =
     version_name v @ '' '' @ to_string (ws_code r) @ '' '' @ fst (code_detail cm (ws_code r)) @ crlf"

lemma write_response_text:
  "parsed_version v \<Longrightarrow> ws_version r = version_index v \<Longrightarrow> write_response cm r
     = Inr (response_start_text cm r v # header_text (ws_header r)
              # (if ws_body r = [] then [] else [crlf, ws_body r]), snd (code_detail cm (ws_code r)))"
  by (simp add: write_response_def get_version_str_name write_header_body_text
      response_start_text_def case_prod_beta Let_def)

end
