(* ===== verification/HttpMessages.thy ===== *)
theory HttpMessages
  imports HttpWriter
begin

text \<open>
  Whole messages: the parser on the text of a request and of a response, its results as
  strings, and the round trips with the writer. The last section is the invariant of the
  positions the parser stores.
\<close>

section \<open>A request\<close>

definition wf_start :: "http_request \<Rightarrow> bool" where
  "wf_start r \<longleftrightarrow> wq_path r \<noteq> [] \<and> list_all url_plain (wq_path r)
     \<and> list_all plain_pair (wq_query r) \<and> parsed_version (wq_version r)"

definition wf_header :: "(string \<times> string) list \<Rightarrow> bool" where
  "wf_header hs \<longleftrightarrow> list_all plain_header hs \<and> list_all length_ok hs"

definition wf_request :: "http_request \<Rightarrow> bool" where
  "wf_request r \<longleftrightarrow> wf_start r \<and> wf_header (wq_header r)
     \<and> content_length (wq_header r) 0 = int (length (wq_body r))"

definition path_offset :: "http_request \<Rightarrow> int" where
  "path_offset r = int (length (method_name (wq_method r))) + 1"

definition after_start :: "http_request \<Rightarrow> parser \<Rightarrow> parser" where
  "after_start r p = (advance (start_text r) p)
     \<lparr>meth := wq_method r,
      path_pos := (now_len p + path_offset r, int (length (wq_path r))),
      query_pos := query_positions (now_len p + path_offset r + int (length (wq_path r)) + 1)
        (wq_query r) (query_pos p),
      version := wq_version r, state := StateHeader new_header\<rparr>"

definition fresh :: "parser \<Rightarrow> bool" where
  "fresh p \<longleftrightarrow> ready p \<and> state p = StateMethod new_method \<and> is_request p \<and> 0 \<le> now_len p"

lemma feed_path_query:
  assumes "wf_start r" and "ready p" and "state p = StateURL new_url" and "0 \<le> now_len p"
    and "mem_at mem (begin_ptr p + now_len p)
      (wq_path r @ (if wq_query r = [] then '' '' else ''?'' @ query_text (wq_query r)))"
  defines "seg \<equiv> wq_path r @ (if wq_query r = [] then '' '' else ''?'' @ query_text (wq_query r))"
  shows "feed cm mem seg p = Inr (True, (advance seg p)
     \<lparr>path_pos := (now_len p, int (length (wq_path r))),
      query_pos := query_positions (now_len p + int (length (wq_path r)) + 1) (wq_query r) (query_pos p),
      state := StateVersion new_version\<rparr>)"
proof -
  let ?path = "wq_path r" and ?q = "wq_query r"
  have path: "list_all url_plain ?path" "?path \<noteq> []" and q: "list_all plain_pair ?q"
    using assms(1) by (simp_all add: wf_start_def)
  let ?s1 = "add_idx (int (length ?path)) new_url"
  let ?p1 = "(advance ?path p)\<lparr>path_pos := (now_len p, snd (path_pos p)), state := StateURL ?s1\<rparr>"
  have f1: "feed cm mem ?path p = Inr (True, ?p1)"
    by (rule feed_path [OF path assms(2,3)])
  have st1: "ready ?p1" "state ?p1 = StateURL ?s1" using assms(2) by (simp_all add: ready_def)
  show ?thesis
  proof (cases "?q = []")
    case True
    have "feed cm mem '' '' ?p1 = Inr (True, (advance '' '' ?p1)
        \<lparr>path_pos := (fst (path_pos ?p1), now_len ?p1 - fst (path_pos ?p1)),
         state := StateVersion new_version\<rparr>)"
      by (rule feed_url_end [OF st1]) (simp add: add_idx_def new_url_def)
    then show ?thesis
      using True f1 by (simp add: seg_def feed_append advance_def)
  next
    case False
    let ?s2 = "?s1\<lparr>url_idx := url_idx ?s1 + 1, url_key_offset := now_len ?p1 + 1, has_query := True\<rparr>"
    let ?p2 = "(advance ''?'' ?p1)\<lparr>path_pos := (fst (path_pos ?p1), now_len ?p1 - fst (path_pos ?p1)),
        state := StateURL ?s2\<rparr>"
    have f2: "feed cm mem ''?'' ?p1 = Inr (True, ?p2)"
      by (rule feed_url_question [OF st1])
    have k2: "at_key ?p2"
      using assms(2) by (simp add: at_key_def ready_def add_idx_def new_url_def)
    have m2: "mem_at mem (begin_ptr ?p2 + now_len ?p2) (query_text ?q)"
      using assms(5) False by (simp add: mem_at_append mem_at_Cons algebra_simps)
    have n2: "0 \<le> now_len ?p2" using assms(4) by simp
    note f3 = feed_query [OF k2 False q n2 m2, of cm]
    have "feed cm mem (?path @ ''?'' @ query_text ?q) p = feed cm mem (query_text ?q) ?p2"
      by (simp only: feed_append f1 f2 then_feed_simps)
    then show ?thesis
      using False f3 by (simp add: seg_def advance_def algebra_simps)
  qed
qed

lemma feed_start:
  assumes "fresh p" and "wf_start r" and "mem_at mem (begin_ptr p + now_len p) (start_text r)"
  shows "feed cm mem (start_text r) p = Inr (True, after_start r p)"
proof -
  let ?m = "method_name (wq_method r) @ '' ''"
  let ?u = "wq_path r @ (if wq_query r = [] then '' '' else ''?'' @ query_text (wq_query r))"
  let ?v = "version_name (wq_version r) @ crlf"
  have p: "ready p" "state p = StateMethod new_method" "is_request p" "0 \<le> now_len p"
    using assms(1) by (simp_all add: fresh_def)
  have stx: "start_text r = ?m @ ?u @ ?v" by (simp add: start_text_def)
  let ?p1 = "(advance ?m p)\<lparr>meth := wq_method r, state := StateURL new_url\<rparr>"
  have f1: "feed cm mem ?m p = Inr (True, ?p1)" by (rule feed_method [OF p(1,2)])
  have "mem_at mem (begin_ptr p + now_len p + int (length ?m)) (?u @ ?v)"
    using mem_at_append [THEN iffD1, OF assms(3) [unfolded stx]] by blast
  then have mu: "mem_at mem (begin_ptr ?p1 + now_len ?p1) ?u"
    using mem_at_append [of mem "begin_ptr p + now_len p + int (length ?m)" ?u ?v]
    by (simp add: algebra_simps)
  have r1: "ready ?p1" "state ?p1 = StateURL new_url" "0 \<le> now_len ?p1"
    using p by (simp_all add: ready_def)
  note f2 = feed_path_query [OF assms(2) r1 mu, of cm]
  let ?p2 = "(advance ?u ?p1)
     \<lparr>path_pos := (now_len ?p1, int (length (wq_path r))),
      query_pos := query_positions (now_len ?p1 + int (length (wq_path r)) + 1) (wq_query r) (query_pos ?p1),
      state := StateVersion new_version\<rparr>"
  have f3: "feed cm mem ?v ?p2
      = Inr (True, (advance ?v ?p2)\<lparr>version := wq_version r, state := StateHeader new_header\<rparr>)"
    by (rule feed_version_request)
      (use p assms(2) in \<open>simp_all add: ready_def wf_start_def\<close>)
  have "feed cm mem (start_text r) p
      = Inr (True, (advance ?v ?p2)\<lparr>version := wq_version r, state := StateHeader new_header\<rparr>)"
    by (simp only: stx feed_append [of cm mem ?m] feed_append [of cm mem ?u] f1 f2 f3 then_feed_simps)
  then show ?thesis
    by (simp add: after_start_def stx advance_def path_offset_def algebra_simps)
qed

definition head_text :: "http_request \<Rightarrow> string" where
  "head_text r = start_text r @ header_text (wq_header r) @ crlf"

definition after_head :: "http_request \<Rightarrow> parser \<Rightarrow> parser" where
  "after_head r p = (advance (head_text r) p)
     \<lparr>meth := wq_method r,
      path_pos := (now_len p + path_offset r, int (length (wq_path r))),
      query_pos := query_positions (now_len p + path_offset r + int (length (wq_path r)) + 1)
        (wq_query r) (query_pos p),
      version := wq_version r,
      header_pos := header_positions (now_len p + int (length (start_text r))) (wq_header r) (header_pos p),
      total_len := content_length (wq_header r) (total_len p),
      state := StateBody new_body\<rparr>"

lemma at_header_new:
  "ready p \<Longrightarrow> state p = StateHeader new_header \<Longrightarrow> at_header p"
  by (simp add: at_header_def new_header_def)

lemma feed_head:
  assumes "fresh p" and "wf_start r" and "wf_header (wq_header r)"
    and "mem_at mem (begin_ptr p + now_len p) (head_text r)"
  shows "feed cm mem (head_text r) p = Inr (True, after_head r p)"
proof -
  let ?h = "header_text (wq_header r)"
  have m: "mem_at mem (begin_ptr p + now_len p) (start_text r)"
    and mh: "mem_at mem (begin_ptr p + now_len p + int (length (start_text r))) ?h"
    using assms(4) unfolding head_text_def mem_at_append by blast+
  let ?p1 = "after_start r p"
  have f1: "feed cm mem (start_text r) p = Inr (True, ?p1)"
    by (rule feed_start [OF assms(1,2) m])
  have h1: "at_header ?p1"
    using assms(1) by (intro at_header_new) (simp_all add: after_start_def fresh_def ready_def)
  have mh1: "mem_at mem (begin_ptr ?p1 + now_len ?p1) ?h"
    using mh by (simp add: after_start_def algebra_simps)
  have w: "list_all plain_header (wq_header r)" "list_all length_ok (wq_header r)"
    using assms(3) by (simp_all add: wf_header_def)
  obtain st where f2: "feed cm mem ?h ?p1 = Inr (True, (advance ?h ?p1)
        \<lparr>header_pos := header_positions (now_len ?p1) (wq_header r) (header_pos ?p1),
         total_len := content_length (wq_header r) (total_len ?p1), state := st\<rparr>)"
      and h2: "at_header ((advance ?h ?p1)
        \<lparr>header_pos := header_positions (now_len ?p1) (wq_header r) (header_pos ?p1),
         total_len := content_length (wq_header r) (total_len ?p1), state := st\<rparr>)"
    using feed_headers [OF h1 w mh1, of cm] by blast
  note f3 = feed_empty_line [OF h2, of cm mem]
  have "feed cm mem (head_text r) p = Inr (True, (advance crlf ((advance ?h ?p1)
        \<lparr>header_pos := header_positions (now_len ?p1) (wq_header r) (header_pos ?p1),
         total_len := content_length (wq_header r) (total_len ?p1), state := st\<rparr>))
       \<lparr>state := StateBody new_body\<rparr>)"
    by (simp only: head_text_def feed_append [of cm mem "start_text r"] feed_append [of cm mem ?h]
        f1 f2 f3 then_feed_simps)
  then show ?thesis
    by (simp add: after_head_def after_start_def head_text_def advance_def)
qed

definition after_request :: "http_request \<Rightarrow> string \<Rightarrow> parser \<Rightarrow> parser" where
  "after_request r body p = (advance body (after_head r p))
     \<lparr>body_pos := body_pos_after (now_len p + int (length (head_text r)))
        (content_length (wq_header r) (total_len p)) (length body) (body_pos p),
      state := StateBody \<lparr>body_idx = int (length body)\<rparr>\<rparr>"

lemma feed_request:
  assumes "fresh p" and "wf_start r" and "wf_header (wq_header r)"
    and "mem_at mem (begin_ptr p + now_len p) (head_text r)"
  shows "feed cm mem (head_text r @ body) p = Inr (True, after_request r body p)"
proof -
  have "ready (after_head r p)" "state (after_head r p) = StateBody new_body"
    using assms(1) by (simp_all add: after_head_def fresh_def ready_def)
  from feed_body [OF this, of cm mem body] show ?thesis
    by (simp only: feed_append feed_head [OF assms] then_feed_simps)
      (simp add: after_request_def after_head_def)
qed

lemma request_text_head: "request_text r = head_text r @ wq_body r"
  by (simp add: request_text_def head_text_def)

lemma fresh_new_parser [simp]: "fresh (new_parser True v c\<lparr>begin_ptr := a\<rparr>)"
  by (simp add: fresh_def ready_def new_parser_def)

text \<open>One call of \<open>parser_message\<close> on a new parser with a message that lies in the buffer.\<close>

lemma parser_message_request:
  assumes "wf_start r" and "wf_header (wq_header r)" and "mem_at mem a (head_text r @ body)"
  shows "parser_message cm mem a (length (head_text r @ body)) (new_parser True v0 c0)
    = Inr (True, after_request r body (new_parser True v0 c0\<lparr>begin_ptr := a\<rparr>))"
proof -
  let ?p = "new_parser True v0 c0\<lparr>begin_ptr := a\<rparr>"
  have "mem_at mem (begin_ptr ?p + now_len ?p) (head_text r)"
    using assms(3) by (simp add: mem_at_append new_parser_def)
  from feed_request [OF fresh_new_parser assms(1,2) this, of cm body] show ?thesis
    using parse_loop_feed [OF assms(3), of cm ?p]
    by (simp add: parser_message_def new_parser_def)
qed

section \<open>The message as strings\<close>

definition message_is :: "string \<Rightarrow> request_message \<Rightarrow> http_request \<Rightarrow> bool" where
  "message_is mem m r \<longleftrightarrow> rq_method m = wq_method r
     \<and> view_str mem (rq_path m) = Inr (wq_path r)
     \<and> view_map mem (rq_query m) = str_map (wq_query r)
     \<and> rq_version m = wq_version r
     \<and> view_map mem (rq_header m) = str_map (wq_header r)
     \<and> view_str mem (rq_body m) = Inr (wq_body r)"

lemma head_text_parts:
  "head_text r = (method_name (wq_method r) @ '' '') @ wq_path r
     @ (if wq_query r = [] then '' '' else ''?'' @ query_text (wq_query r))
     @ version_name (wq_version r) @ crlf @ header_text (wq_header r) @ crlf"
  by (simp add: head_text_def start_text_def)

lemma view_str_body:
  "mem_at mem b body \<Longrightarrow> length body \<noteq> 1 \<Longrightarrow>
     cstring mem (b - s + fst (body_pos_after s (int (length body)) (length body) (0, 0)))
       (snd (body_pos_after s (int (length body)) (length body) (0, 0))) = Inr body"
  by (cases body) (auto simp: body_pos_after_def cstring_def [of _ _ 0] Suc_le_eq
      intro!: cstring_mem_at)

lemma after_request_fields:
  fixes v0 :: http_version and c0 a :: int
  defines "p0 \<equiv> new_parser True v0 c0\<lparr>begin_ptr := a\<rparr>"
  shows "begin_ptr (after_request r body p0) = a"
    and "is_request (after_request r body p0) = True"
    and "meth (after_request r body p0) = wq_method r"
    and "version (after_request r body p0) = wq_version r"
    and "path_pos (after_request r body p0) = (path_offset r, int (length (wq_path r)))"
    and "query_pos (after_request r body p0)
      = query_positions (path_offset r + int (length (wq_path r)) + 1) (wq_query r) Map.empty"
    and "header_pos (after_request r body p0)
      = header_positions (int (length (start_text r))) (wq_header r) Map.empty"
    and "body_pos (after_request r body p0)
      = body_pos_after (int (length (head_text r))) (content_length (wq_header r) 0) (length body) (0, 0)"
    and "is_completed (after_request r body p0) \<longleftrightarrow> int (length body) = content_length (wq_header r) 0"
  by (simp_all add: p0_def after_request_def after_head_def new_parser_def is_completed_def)

lemma get_request_message_after:
  assumes "content_length (wq_header r) 0 = int (length body)"
    and "mem_at mem a (head_text r @ body)" and "length body \<noteq> 1"
  shows "\<exists>m. get_request_message (after_request r body (new_parser True v0 c0\<lparr>begin_ptr := a\<rparr>)) = Inr m
    \<and> message_is mem m (r\<lparr>wq_body := body\<rparr>)"
proof -
  let ?p = "after_request r body (new_parser True v0 c0\<lparr>begin_ptr := a\<rparr>)"
  note fields = after_request_fields [where r = r and body = body and ?v0.0 = v0 and ?c0.0 = c0 and a = a]
  let ?m = "\<lparr>rq_method = meth ?p, rq_path = view_at ?p (path_pos ?p),
          rq_query = (\<lambda>k. map_option (view_at ?p) (query_pos ?p k)), rq_version = version ?p,
          rq_header = (\<lambda>k. map_option (view_at ?p) (header_pos ?p k)),
          rq_body = view_at ?p (body_pos ?p)\<rparr>"
  have m: "get_request_message ?p = Inr ?m"
    using assms(1) by (simp add: get_request_message_def fields)
  have parts: "mem_at mem (a + path_offset r) (wq_path r)"
      "wq_query r \<noteq> [] \<Longrightarrow>
        mem_at mem (a + (path_offset r + int (length (wq_path r)) + 1)) (query_text (wq_query r))"
    using assms(2) unfolding head_text_parts
    by (simp_all add: mem_at_append mem_at_Cons path_offset_def algebra_simps split: if_splits)
  have heads: "mem_at mem (a + int (length (start_text r))) (header_text (wq_header r))"
      "mem_at mem (a + int (length (head_text r))) body"
    using assms(2) by (simp_all add: head_text_def mem_at_append mem_at_Cons algebra_simps)
  have "view_str mem (view_at ?p (path_pos ?p)) = Inr (wq_path r)"
    unfolding view_str_def view_at_def fields
    by (rule cstring_mem_at) (simp_all add: parts)
  moreover have "view_map mem (\<lambda>k. map_option (view_at ?p) (query_pos ?p k)) = str_map (wq_query r)"
  proof (cases "wq_query r = []")
    case True
    then show ?thesis by (simp add: view_map_def fields str_map_def)
  next
    case False
    from query_positions_strings [OF parts(2) [OF False], of Map.empty] show ?thesis
      by (simp add: view_map_pos fields)
  qed
  moreover have "view_map mem (\<lambda>k. map_option (view_at ?p) (header_pos ?p k)) = str_map (wq_header r)"
    using header_positions_strings [OF heads(1), of Map.empty] by (simp add: view_map_pos fields)
  moreover have "view_str mem (view_at ?p (body_pos ?p)) = Inr body"
    using view_str_body [OF heads(2) assms(3), of "int (length (head_text r))"]
    by (simp add: view_str_def view_at_def fields assms(1))
  ultimately have "message_is mem ?m (r\<lparr>wq_body := body\<rparr>)"
    by (simp add: message_is_def fields)
  with m show ?thesis by blast
qed

section \<open>Properties of the request parser\<close>

text \<open>A concrete request for the witnesses.\<close>

definition sample_request :: http_request where
  "sample_request = \<lparr>wq_method = POST, wq_path = ''/a'', wq_query = [(''k'', ''v''), (''l'', ''w'')],
     wq_version = V1_1, wq_header = [(''Content-Length'', ''2''), (''Host'', ''h'')], wq_body = ''xy''\<rparr>"

lemma sample_content_length:
  "content_length [(''Content-Length'', ''2''), (''Host'', ''h'')] 0 = 2"
  by (simp add: content_length_def length_header_def stoi_def is_space_def stoi_unsigned_def
      is_digit_def digits_val_def digit_val_def)

lemma stoi_two: "stoi ''2'' = Inr 2"
  by (simp add: stoi_def is_space_def stoi_unsigned_def is_digit_def digits_val_def digit_val_def)

lemma wf_sample: "wf_request sample_request"
  by (simp add: sample_request_def wf_request_def wf_start_def wf_header_def plain_pair_def
      url_plain_def parsed_version_def plain_header_def length_ok_def stoi_two sample_content_length)

lemma request_parsed_lemma:
  assumes "wf_request r" and "length (wq_body r) \<noteq> 1" and "mem_at mem a (request_text r)"
  shows "\<exists>p m. parser_message cm mem a (length (request_text r)) (new_parser True v0 c0) = Inr (True, p)
    \<and> is_completed p \<and> get_request_message p = Inr m \<and> message_is mem m r"
proof -
  have w: "wf_start r" "wf_header (wq_header r)"
    "content_length (wq_header r) 0 = int (length (wq_body r))"
    using assms(1) by (simp_all add: wf_request_def)
  have mem: "mem_at mem a (head_text r @ wq_body r)"
    using assms(3) by (simp add: request_text_head)
  show ?thesis
    using parser_message_request [OF w(1,2) mem, of cm v0 c0]
      get_request_message_after [OF w(3) mem assms(2), of v0 c0]
      after_request_fields(9) [where r = r and body = "wq_body r" and ?v0.0 = v0 and ?c0.0 = c0 and a = a] w(3)
    by (auto simp: request_text_head)
qed

text \<open>
  C5: The parser reads a well-formed request correctly, unless its body is of one byte. For a
  request with a non-empty path free of \<open>? = & \<close> and blank, such query pairs, a version the parser knows, header lines
  with a non-empty key and value, and a \<open>Content-Length\<close> equal to the body's length (absent
  for no body) which is not 1, one call on the bytes of the message, wherever they lie in the caller's
  buffer, succeeds, the parser is complete, and \<open>get_request_message\<close> yields the method,
  path, query table, version, header table and body of the request. (A body of one byte is
  read as empty, see \<open>one_byte_body_lost\<close>.)
\<close>

theorem request_parsed:
  assumes "wf_request r" and "length (wq_body r) \<noteq> 1" and "mem_at mem a (request_text r)"
  shows "\<exists>p m. parser_message cm mem a (length (request_text r)) (new_parser True v0 c0) = Inr (True, p)
    \<and> is_completed p \<and> get_request_message p = Inr m \<and> message_is mem m r"
  by (rule request_parsed_lemma [OF assms])

theorem request_parsed_witness:
  "\<exists>p m. parser_message http_code_map (request_text sample_request) 0
      (length (request_text sample_request)) (new_parser True V0_9 0) = Inr (True, p)
    \<and> is_completed p \<and> get_request_message p = Inr m
    \<and> message_is (request_text sample_request) m sample_request"
  by (rule request_parsed [OF wf_sample]) (simp_all add: sample_request_def)

text \<open>
  A body of exactly one byte is lost. The parser reports the message complete, but the
  branch that stores the body's length is never reached, so the body of the message is empty.
\<close>

theorem one_byte_body_lost:
  assumes "wf_request r" and "length (wq_body r) = 1" and "mem_at mem a (request_text r)"
  shows "\<exists>p m. parser_message cm mem a (length (request_text r)) (new_parser True v0 c0) = Inr (True, p)
    \<and> is_completed p \<and> get_request_message p = Inr m \<and> view_str mem (rq_body m) = Inr []"
proof -
  have w: "wf_start r" "wf_header (wq_header r)" "content_length (wq_header r) 0 = 1"
    using assms(1,2) by (simp_all add: wf_request_def)
  have mem: "mem_at mem a (head_text r @ wq_body r)"
    using assms(3) by (simp add: request_text_head)
  show ?thesis
    using parser_message_request [OF w(1,2) mem, of cm v0 c0] assms(2) w(3)
    by (auto simp: request_text_head get_request_message_def after_request_fields view_at_def
        body_pos_after_def view_str_def cstring_def)
qed

definition one_byte_request :: http_request where
  "one_byte_request = \<lparr>wq_method = POST, wq_path = ''/a'', wq_query = [],
     wq_version = V1_1, wq_header = [(''Content-Length'', ''1'')], wq_body = ''x''\<rparr>"

theorem one_byte_body_lost_witness:
  "\<exists>p m. parser_message http_code_map (request_text one_byte_request) 0
      (length (request_text one_byte_request)) (new_parser True V0_9 0) = Inr (True, p)
    \<and> is_completed p \<and> get_request_message p = Inr m
    \<and> view_str (request_text one_byte_request) (rq_body m) = Inr []"
proof (rule one_byte_body_lost)
  have "stoi ''1'' = Inr 1"
    by (simp add: stoi_def is_space_def stoi_unsigned_def is_digit_def digits_val_def digit_val_def)
  then show "wf_request one_byte_request"
    by (simp add: one_byte_request_def wf_request_def wf_start_def wf_header_def url_plain_def
        parsed_version_def plain_header_def length_ok_def content_length_def length_header_def)
qed (simp_all add: one_byte_request_def)

section \<open>Incremental parsing\<close>

lemma match_header_frame:
  "match_header mem s p = Inr (s', p') \<Longrightarrow>
     now_len p' = now_len p \<and> begin_ptr p' = begin_ptr p \<and> is_request p' = is_request p"
  by (cases "now_part s") (auto simp: match_header_def Let_def bind_res_Inr_iff split: if_splits)

lemma match_url_frame:
  "match_url mem s p = Inr (s', p') \<Longrightarrow>
     now_len p' = now_len p \<and> begin_ptr p' = begin_ptr p \<and> is_request p' = is_request p"
  by (auto simp: match_url_def Let_def bind_res_Inr_iff split: if_splits)

lemma match_version_frame:
  "match_version s p = (s', p') \<Longrightarrow>
     now_len p' = now_len p \<and> begin_ptr p' = begin_ptr p \<and> is_request p' = is_request p"
  by (auto simp: match_version_def Let_def fail_unless_def split: if_splits)

lemma match_method_frame:
  "match_method s p = Inr (s', p') \<Longrightarrow>
     now_len p' = now_len p \<and> begin_ptr p' = begin_ptr p \<and> is_request p' = is_request p"
  by (auto simp: match_method_def Let_def fail_unless_def get_method_str_name split: if_splits)

lemma match_simple_frame:
  "match_body sb p = (sb', p') \<Longrightarrow>
     now_len p' = now_len p \<and> begin_ptr p' = begin_ptr p \<and> is_request p' = is_request p"
  "match_detail sd p = (sd', p') \<Longrightarrow>
     now_len p' = now_len p \<and> begin_ptr p' = begin_ptr p \<and> is_request p' = is_request p"
  "match_code cm sc p = (sc', p') \<Longrightarrow>
     now_len p' = now_len p \<and> begin_ptr p' = begin_ptr p \<and> is_request p' = is_request p"
  by (auto simp: match_body_def match_detail_def match_code_def Let_def split: if_splits)

lemma match_state_frame:
  assumes "match_state cm mem p = Inr p'"
  shows "now_len p' = now_len p \<and> begin_ptr p' = begin_ptr p \<and> is_request p' = is_request p"
  using assms
  by (cases "state p")
    (auto simp: match_state_def bind_res_Inr_iff split: prod.splits
      dest: match_header_frame match_url_frame match_version_frame match_method_frame
        match_simple_frame)

lemma install_next_frame [simp]:
  "now_len (install_next p) = now_len p"
  "begin_ptr (install_next p) = begin_ptr p"
  "is_request (install_next p) = is_request p"
  "is_match (install_next p) = is_match p"
  by (simp_all add: install_next_def split: option.split)

lemma parse_loop_frame:
  assumes "parse_loop cm mem a n p = Inr (True, p')" and "is_match p"
  shows "is_match p' \<and> now_len p' = now_len p + int n \<and> begin_ptr p' = begin_ptr p
    \<and> is_request p' = is_request p"
  using assms
proof (induction n arbitrary: a p)
  case (Suc n)
  then obtain p1 where p1: "match_state cm mem (read_char (mem ! nat a) p) = Inr p1" "is_match p1"
      "parse_loop cm mem (a + 1) n (install_next p1) = Inr (True, p')"
    by (auto simp: bind_res_Inr_iff split: if_splits)
  from match_state_frame [OF p1(1)] Suc.IH [OF p1(3)] p1(2) show ?case
    by (simp add: read_char_def)
qed simp

lemma parse_loop_add:
  "parse_loop cm mem a (m + n) p
     = then_feed (parse_loop cm mem a m p) (parse_loop cm mem (a + int m) n)"
proof (induction m arbitrary: a p)
  case (Suc m)
  have "a + int (Suc m) = (a + 1) + int m" by simp
  then show ?case
    by (cases "match_state cm mem (read_char (mem ! nat a) p)") (simp_all only:
      parse_loop.simps add_Suc Suc.IH bind_res_simps then_feed_simps split: if_splits, simp_all)
qed simp

text \<open>
  C23: Parsing is independent of how the message is cut. Two calls of \<open>parser_message\<close>, the
  second with the pointer just behind the bytes of the first, do exactly what one call on all
  the bytes does: the same result, the same parser, the same failure.
\<close>

theorem parser_message_incremental:
  "parser_message cm mem a (m + n) p
    = then_feed (parser_message cm mem a m p) (parser_message cm mem (a + int m) n)"
proof (cases "is_match p")
  case True
  let ?q = "p\<lparr>begin_ptr := a - now_len p\<rparr>"
  have "parse_loop cm mem (a + int m) n p' = parser_message cm mem (a + int m) n p'"
    if "parse_loop cm mem a m ?q = Inr (True, p')" for p'
  proof -
    have "is_match p' \<and> now_len p' = now_len p + int m \<and> begin_ptr p' = a - now_len p"
      using parse_loop_frame [OF that] True by simp
    then have upd: "p'\<lparr>begin_ptr := a + int m - now_len p'\<rparr> = p'" and "is_match p'"
      using parse_loop_frame [OF that] True by simp_all
    then show ?thesis unfolding parser_message_def upd by simp
  qed
  then show ?thesis
    using True
    by (auto simp: parser_message_def parse_loop_add then_feed_def bind_res_def
        split: sum.splits if_splits)
qed (simp add: parser_message_def)

section \<open>When a message is complete\<close>

text \<open>
  C16: Completion is exact. For a well-formed start line and header and any bytes behind the
  empty line, the parser accepts every byte, and it is complete exactly when the number of
  those bytes is the declared length: the value of the last \<open>Content-Length\<close>, 0 without one.
  So a message with a byte to spare behind its body, for instance the first byte of a second
  request read together with it, is not complete, and a negative length is never reached.
\<close>

theorem completed_iff_declared_length:
  assumes "wf_start r" and "wf_header (wq_header r)" and "mem_at mem a (head_text r @ body)"
  shows "\<exists>p. parser_message cm mem a (length (head_text r @ body)) (new_parser True v0 c0) = Inr (True, p)
    \<and> (is_completed p \<longleftrightarrow> int (length body) = content_length (wq_header r) 0)"
proof -
  from parser_message_request [OF assms, of cm v0 c0] show ?thesis
    by (simp add: after_request_fields)
qed

theorem completed_iff_declared_length_witness:
  "\<exists>p. parser_message http_code_map (head_text sample_request @ ''xyGET'') 0
      (length (head_text sample_request @ ''xyGET'')) (new_parser True V0_9 0) = Inr (True, p)
    \<and> (is_completed p \<longleftrightarrow> int (length ''xyGET'') = content_length (wq_header sample_request) 0)"
  by (rule completed_iff_declared_length)
    (use wf_sample in \<open>simp_all add: wf_request_def\<close>)

section \<open>Round trips with the writer\<close>

text \<open>
  C20: What the writer prints, the parser reads back: the pieces of \<open>write_message\<close> for a
  request with a body of at least two bytes, put together, are parsed to a complete message
  with the same method, path, query, version, header and body, whatever the iteration order
  of the two tables is.
\<close>

theorem request_roundtrip:
  assumes "wf_request r" and "2 \<le> length (wq_body r)"
  shows "\<exists>pieces p m. write_request r = Inr pieces
    \<and> parser_message cm (concat pieces) 0 (length (concat pieces)) (new_parser True v0 c0) = Inr (True, p)
    \<and> is_completed p \<and> get_request_message p = Inr m \<and> message_is (concat pieces) m r"
proof -
  have w: "wf_start r" "wf_header (wq_header r)"
    "content_length (wq_header r) 0 = int (length (wq_body r))"
    using assms(1) by (simp_all add: wf_request_def)
  have "wq_body r \<noteq> []" and ne: "length (wq_body r) \<noteq> 1" using assms(2) by auto
  then obtain pieces where pieces: "write_request r = Inr pieces"
      and whole: "concat pieces = head_text r @ wq_body r"
    using w(1) by (simp add: write_request_text wf_start_def head_text_def)
  have mem: "mem_at (concat pieces) 0 (head_text r @ wq_body r)" by (simp only: whole mem_at_self)
  obtain m where "get_request_message
      (after_request r (wq_body r) (new_parser True v0 c0\<lparr>begin_ptr := 0\<rparr>)) = Inr m"
      and "message_is (concat pieces) m r"
    using get_request_message_after [OF w(3) mem ne, of v0 c0] by auto
  then show ?thesis
    using pieces parser_message_request [OF w(1,2) mem, of cm v0 c0]
      after_request_fields(9) [where r = r and body = "wq_body r" and ?v0.0 = v0 and ?c0.0 = c0 and a = 0] w(3)
    by (intro exI [of _ pieces]
          exI [of _ "after_request r (wq_body r) (new_parser True v0 c0\<lparr>begin_ptr := 0\<rparr>)"]
          exI [of _ m] conjI) (simp_all add: whole)
qed

theorem request_roundtrip_witness:
  "\<exists>pieces p m. write_request sample_request = Inr pieces
    \<and> parser_message http_code_map (concat pieces) 0 (length (concat pieces)) (new_parser True V0_9 0)
      = Inr (True, p)
    \<and> is_completed p \<and> get_request_message p = Inr m \<and> message_is (concat pieces) m sample_request"
  by (rule request_roundtrip [OF wf_sample]) (simp add: sample_request_def)

text \<open>
  What the writer prints for a message without a body is not a complete message. The
  empty line that ends the header is only written in front of a body, so the parser accepts
  every byte and is still waiting for header lines.
\<close>

theorem bodiless_request_incomplete:
  assumes "wf_start r" and "wf_header (wq_header r)" and "wq_body r = []"
  shows "\<exists>pieces p. write_request r = Inr pieces
    \<and> parser_message cm (concat pieces) 0 (length (concat pieces)) (new_parser True v0 c0) = Inr (True, p)
    \<and> \<not> is_completed p"
proof -
  let ?h = "header_text (wq_header r)" and ?p0 = "new_parser True v0 c0\<lparr>begin_ptr := 0\<rparr>"
  let ?text = "start_text r @ ?h"
  have m: "mem_at ?text (begin_ptr ?p0 + now_len ?p0) (start_text r)"
    and mh: "mem_at ?text (int (length (start_text r))) ?h"
    using mem_at_append [of ?text 0 "start_text r" ?h] by (simp_all add: new_parser_def)
  let ?p1 = "after_start r ?p0"
  have h1: "at_header ?p1"
    by (intro at_header_new) (simp_all add: after_start_def ready_def new_parser_def)
  have mh1: "mem_at ?text (begin_ptr ?p1 + now_len ?p1) ?h"
    using mh by (simp add: after_start_def new_parser_def)
  obtain p where p: "feed cm ?text ?h ?p1 = Inr (True, p)" "at_header p"
    using feed_headers [OF h1 _ _ mh1, of cm] assms(2) unfolding wf_header_def by blast
  have "feed cm ?text ?text ?p0 = Inr (True, p)"
    using p(1) feed_start [OF fresh_new_parser assms(1) m, of cm] by (simp add: feed_append)
  then have "parser_message cm ?text 0 (length ?text) (new_parser True v0 c0) = Inr (True, p)"
    using parse_loop_feed [OF mem_at_self, of cm ?text ?p0]
    by (simp add: parser_message_def new_parser_def)
  moreover have "\<not> is_completed p"
    using p(2) by (auto simp: at_header_def is_completed_def)
  moreover have "write_request r = Inr [start_text r, ?h]"
    using assms by (simp add: write_request_text wf_start_def)
  ultimately show ?thesis by (intro exI [of _ "[start_text r, ?h]"]) auto
qed

definition bodiless_request :: http_request where
  "bodiless_request = \<lparr>wq_method = GET, wq_path = ''/a.html'', wq_query = [],
     wq_version = V1_0, wq_header = [(''Host'', ''h'')], wq_body = []\<rparr>"

theorem bodiless_request_incomplete_witness:
  "\<exists>pieces p. write_request bodiless_request = Inr pieces
    \<and> parser_message http_code_map (concat pieces) 0 (length (concat pieces)) (new_parser True V0_9 0)
      = Inr (True, p)
    \<and> \<not> is_completed p"
  by (rule bodiless_request_incomplete)
    (simp_all add: bodiless_request_def wf_start_def wf_header_def url_plain_def
      parsed_version_def plain_header_def length_ok_def)

end
