(* ===== verification/HttpFailures.thy ===== *)
theory HttpFailures
  imports HttpMessages
begin

text \<open>
  The parser on messages it does not survive. None of these inputs is rejected with
  \<open>is_match = false\<close>: the process aborts, an exception leaves the parser, or a key is read
  with the length of another token.
\<close>

section \<open>Queries without a value\<close>

text \<open>The text of a request up to the key of a query, and the parser behind it.\<close>

definition query_start :: "http_method \<Rightarrow> string \<Rightarrow> string \<Rightarrow> string" where
  "query_start m path key = (method_name m @ '' '') @ path @ ''?'' @ key"

lemma feed_query_start:
  assumes "fresh p" and "list_all url_plain path" and "path \<noteq> []" and "list_all url_plain key"
  shows "\<exists>p' s. feed cm mem (query_start m path key) p = Inr (True, p') \<and> ready p'
    \<and> state p' = StateURL s \<and> has_query s \<and> url_key_len s = -1 \<and> url_value_offset s = -1"
proof -
  have p: "ready p" "state p = StateMethod new_method" using assms(1) by (simp_all add: fresh_def)
  let ?p1 = "(advance (method_name m @ '' '') p)\<lparr>meth := m, state := StateURL new_url\<rparr>"
  have f1: "feed cm mem (method_name m @ '' '') p = Inr (True, ?p1)" by (rule feed_method [OF p])
  have r1: "ready ?p1" "state ?p1 = StateURL new_url" using p by (simp_all add: ready_def)
  let ?s1 = "add_idx (int (length path)) new_url"
  let ?p2 = "(advance path ?p1)\<lparr>path_pos := (now_len ?p1, snd (path_pos ?p1)), state := StateURL ?s1\<rparr>"
  have f2: "feed cm mem path ?p1 = Inr (True, ?p2)" by (rule feed_path [OF assms(2,3) r1])
  have r2: "ready ?p2" "state ?p2 = StateURL ?s1" using p by (simp_all add: ready_def)
  let ?s2 = "?s1\<lparr>url_idx := url_idx ?s1 + 1, url_key_offset := now_len ?p2 + 1, has_query := True\<rparr>"
  let ?p3 = "(advance ''?'' ?p2)\<lparr>path_pos := (fst (path_pos ?p2), now_len ?p2 - fst (path_pos ?p2)),
      state := StateURL ?s2\<rparr>"
  have f3: "feed cm mem ''?'' ?p2 = Inr (True, ?p3)" by (rule feed_url_question [OF r2])
  have r3: "ready ?p3" "state ?p3 = StateURL ?s2" "0 < url_idx ?s2"
    using p by (simp_all add: ready_def add_idx_def new_url_def)
  note f4 = feed_url_plain [OF assms(4) r3, of cm mem]
  have "feed cm mem (query_start m path key) p
      = Inr (True, (advance key ?p3)\<lparr>state := StateURL (add_idx (int (length key)) ?s2)\<rparr>)"
    by (simp only: query_start_def feed_append [of cm mem "method_name m @ '' ''"]
        feed_append [of cm mem path] feed_append [of cm mem "''?''"] f1 f2 f3 f4 then_feed_simps)
  then show ?thesis
    using p by (intro exI [of _ "(advance key ?p3)\<lparr>state := StateURL (add_idx (int (length key)) ?s2)\<rparr>"]
        exI [of _ "add_idx (int (length key)) ?s2"])
      (simp add: ready_def add_idx_def new_url_def)
qed

lemma parser_message_fails:
  assumes "mem_at mem a (xs @ c # ys)"
    and "feed cm mem xs (new_parser req v0 c0\<lparr>begin_ptr := a\<rparr>) = Inr (True, p)"
    and "match_state cm mem (read_char c p) = Inl e"
  shows "parser_message cm mem a (length (xs @ c # ys)) (new_parser req v0 c0) = Inl e"
proof -
  let ?p = "new_parser req v0 c0\<lparr>begin_ptr := a\<rparr>"
  have "parse_loop cm mem a (length (xs @ c # ys)) ?p = feed cm mem (xs @ c # ys) ?p"
    by (rule parse_loop_feed [OF assms(1)])
  also have "\<dots> = Inl e"
    unfolding feed_append assms(2) by (simp add: assms(3))
  finally show ?thesis by (simp add: parser_message_def new_parser_def)
qed



section \<open>A length that is no number\<close>

lemma feed_header_key_value:
  assumes "at_header p" and "plain_header (k, v)"
  shows "\<exists>s. now_part s = Part_value \<and> now_value_offset s = now_len p + int (length k) + 2
    \<and> now_key_offset s = now_len p \<and> now_key_len s = int (length k)
    \<and> feed cm mem (k @ '': '' @ v) p = Inr (True, (advance (k @ '': '' @ v) p)\<lparr>state := StateHeader s\<rparr>)"
proof -
  have k: "k \<noteq> []" "cr \<notin> set k" "CHR '':'' \<notin> set (tl k)"
    and v: "v \<noteq> []" "hd v \<noteq> CHR '' ''" "cr \<notin> set v"
    using assms(2) by (simp_all add: plain_header_def)
  have rd: "ready p" using assms(1) by (simp add: at_header_def)
  obtain s1 where s1: "now_part s1 = Part_split" "now_key_offset s1 = now_len p"
      "now_key_len s1 = int (length k)"
    and f1: "feed cm mem (k @ '':'') p = Inr (True, (advance (k @ '':'') p)\<lparr>state := StateHeader s1\<rparr>)"
    using feed_header_key [OF assms(1) k] by blast
  let ?p1 = "(advance (k @ '':'') p)\<lparr>state := StateHeader s1\<rparr>"
  have rd1: "ready ?p1" "state ?p1 = StateHeader s1" using rd by (simp_all add: ready_def)
  obtain s2 where s2: "now_part s2 = Part_value" "now_value_offset s2 = now_len ?p1 + 1"
      "now_key_offset s2 = now_key_offset s1" "now_key_len s2 = now_key_len s1"
    and f2: "feed cm mem ('' '' @ v) ?p1 = Inr (True, (advance ('' '' @ v) ?p1)\<lparr>state := StateHeader s2\<rparr>)"
    using feed_header_value [OF rd1 s1(1) v] by blast
  have "(advance ('' '' @ v) ?p1)\<lparr>state := StateHeader s2\<rparr>
      = (advance (k @ '': '' @ v) p)\<lparr>state := StateHeader s2\<rparr>"
    by (simp add: advance_def)
  with f1 f2 have "feed cm mem (k @ '': '' @ v) p
      = Inr (True, (advance (k @ '': '' @ v) p)\<lparr>state := StateHeader s2\<rparr>)"
    using feed_append [of cm mem "k @ '':''" "'' '' @ v" p] by simp
  then show ?thesis using s1 s2 by (intro exI [of _ s2]) simp
qed

text \<open>
  A \<open>Content-Length\<close> whose value \<open>std::stoi\<close> does not accept ends the parser with the
  exception of \<open>stoi\<close> (\<open>invalid_argument\<close> for no digits, \<open>out_of_range\<close> for a number beyond
  32 bits), at the end of that line, behind any well-formed start line and header lines.
\<close>

theorem bad_content_length_throws:
  assumes "wf_start r" and "wf_header (wq_header r)"
    and "plain_header (''Content-Length'', v)" and "stoi v = Inl e"
  defines "line \<equiv> ''Content-Length: '' @ v"
  assumes "mem_at mem a ((start_text r @ header_text (wq_header r) @ line) @ cr # later)"
  shows "parser_message cm mem a (length ((start_text r @ header_text (wq_header r) @ line) @ cr # later))
      (new_parser True v0 c0) = Inl e"
proof -
  let ?h = "header_text (wq_header r)" and ?p0 = "new_parser True v0 c0\<lparr>begin_ptr := a\<rparr>"
  have m: "mem_at mem (begin_ptr ?p0 + now_len ?p0) (start_text r)"
    and mh: "mem_at mem (a + int (length (start_text r))) ?h"
    and ml: "mem_at mem (a + int (length (start_text r)) + int (length ?h)) line"
    using assms(6) unfolding mem_at_append by (simp_all add: new_parser_def algebra_simps)
  let ?p1 = "after_start r ?p0"
  have f1: "feed cm mem (start_text r) ?p0 = Inr (True, ?p1)"
    by (rule feed_start [OF fresh_new_parser assms(1) m])
  have h1: "at_header ?p1"
    by (intro at_header_new) (simp_all add: after_start_def ready_def new_parser_def)
  have n1: "begin_ptr ?p1 = a" "now_len ?p1 = int (length (start_text r))"
    by (simp_all add: after_start_def new_parser_def)
  have mh1: "mem_at mem (begin_ptr ?p1 + now_len ?p1) ?h" using mh by (simp only: n1)
  have hs: "list_all plain_header (wq_header r)" "list_all length_ok (wq_header r)"
    using assms(2) by (simp_all add: wf_header_def)
  obtain st where f2: "feed cm mem ?h ?p1 = Inr (True, (advance ?h ?p1)
        \<lparr>header_pos := header_positions (now_len ?p1) (wq_header r) (header_pos ?p1),
         total_len := content_length (wq_header r) (total_len ?p1), state := st\<rparr>)"
      and h2: "at_header ((advance ?h ?p1)
        \<lparr>header_pos := header_positions (now_len ?p1) (wq_header r) (header_pos ?p1),
         total_len := content_length (wq_header r) (total_len ?p1), state := st\<rparr>)"
    using feed_headers [OF h1 hs mh1, of cm] by blast
  let ?p2 = "(advance ?h ?p1)
        \<lparr>header_pos := header_positions (now_len ?p1) (wq_header r) (header_pos ?p1),
         total_len := content_length (wq_header r) (total_len ?p1), state := st\<rparr>"
  have n2: "begin_ptr ?p2 = a" "now_len ?p2 = int (length (start_text r)) + int (length ?h)"
    by (simp_all add: n1)
  obtain s where s: "now_part s = Part_value" "now_value_offset s = now_len ?p2 + 16"
      "now_key_offset s = now_len ?p2" "now_key_len s = 14"
      and f3: "feed cm mem line ?p2 = Inr (True, (advance line ?p2)\<lparr>state := StateHeader s\<rparr>)"
    using feed_header_key_value [OF h2 assms(3), of cm mem] by (auto simp: line_def)
  have split: "line = ''Content-Length'' @ '': '' @ v" by (simp add: line_def)
  note mk = ml [unfolded split mem_at_append]
  have ks: "cstring mem (a + now_len ?p2) 14 = Inr ''Content-Length''"
    by (rule cstring_mem_at) (use mk in \<open>simp_all only: n2 add.assoc\<close>, simp_all)
  have vs: "cstring mem (a + (now_len ?p2 + 16)) (int (length v)) = Inr v"
    by (rule cstring_mem_at) (use mk in \<open>simp_all add: n2 algebra_simps\<close>)
  show ?thesis
  proof (rule parser_message_fails [OF assms(6)])
    show "feed cm mem (start_text r @ ?h @ line) ?p0
        = Inr (True, (advance line ?p2)\<lparr>state := StateHeader s\<rparr>)"
      by (simp only: feed_append f1 f2 f3 then_feed_simps)
    show "match_state cm mem (read_char cr ((advance line ?p2)\<lparr>state := StateHeader s\<rparr>)) = Inl e"
      using s ks vs assms(4) n1 by (simp add: match_defs line_def)
  qed
qed

definition plain_get :: http_request where
  "plain_get = \<lparr>wq_method = GET, wq_path = ''/'', wq_query = [], wq_version = V1_1,
     wq_header = [(''Host'', ''h'')], wq_body = []\<rparr>"

lemma wf_plain_get: "wf_start plain_get" "wf_header (wq_header plain_get)"
  by (simp_all add: plain_get_def wf_start_def wf_header_def url_plain_def parsed_version_def
      plain_header_def length_ok_def)

lemma stoi_no_digits: "stoi ''ten'' = Inl Invalid_argument"
  by (simp add: stoi_def is_space_def stoi_unsigned_def is_digit_def)

definition bad_length_text :: string where
  "bad_length_text = (start_text plain_get @ header_text (wq_header plain_get)
     @ ''Content-Length: '' @ ''ten'') @ cr # []"

theorem bad_content_length_throws_witness:
  "parser_message http_code_map bad_length_text 0 (length bad_length_text) (new_parser True V0_9 0)
     = Inl Invalid_argument"
  unfolding bad_length_text_def
  by (rule bad_content_length_throws [OF wf_plain_get _ stoi_no_digits mem_at_self])
    (simp add: plain_header_def)

section \<open>A key read with the length of another token\<close>

definition equals_in_path :: "http_method \<Rightarrow> string \<Rightarrow> string \<Rightarrow> string \<Rightarrow> string" where
  "equals_in_path m path1 path2 key =
     (method_name m @ '' '') @ path1 @ ''='' @ path2 @ ''?'' @ key"

lemma feed_equals_in_path:
  fixes m :: http_method
  assumes "fresh p" and "now_len p = 0" and "query_pos p = Map.empty"
    and "list_all url_plain path1" and "path1 \<noteq> []" and "list_all url_plain path2"
    and "list_all url_plain key"
  defines "n \<equiv> int (length (method_name m) + length path1 + 2)"
  shows "\<exists>p' s. feed cm mem (equals_in_path m path1 path2 key) p = Inr (True, p')
    \<and> state p' = StateURL s \<and> has_query s \<and> url_key_len s = n \<and> url_value_offset s = n
    \<and> url_key_offset s = n + int (length path2) + 1 \<and> begin_ptr p' = begin_ptr p \<and> ready p'
    \<and> now_len p' = n + int (length path2) + 1 + int (length key) \<and> query_pos p' = Map.empty"
proof -
  have p: "ready p" "state p = StateMethod new_method" using assms(1) by (simp_all add: fresh_def)
  let ?p1 = "(advance (method_name m @ '' '') p)\<lparr>meth := m, state := StateURL new_url\<rparr>"
  have f1: "feed cm mem (method_name m @ '' '') p = Inr (True, ?p1)" by (rule feed_method [OF p])
  have r1: "ready ?p1" "state ?p1 = StateURL new_url" using p by (simp_all add: ready_def)
  let ?s1 = "add_idx (int (length path1)) new_url"
  let ?p2 = "(advance path1 ?p1)\<lparr>path_pos := (now_len ?p1, snd (path_pos ?p1)), state := StateURL ?s1\<rparr>"
  have f2: "feed cm mem path1 ?p1 = Inr (True, ?p2)" by (rule feed_path [OF assms(4,5) r1])
  let ?s2 = "?s1\<lparr>url_idx := url_idx ?s1 + 1, url_key_len := n, url_value_offset := n\<rparr>"
  let ?p3 = "(advance ''='' ?p2)\<lparr>state := StateURL ?s2\<rparr>"
  have f3: "feed cm mem ''='' ?p2 = Inr (True, ?p3)"
    using p assms(2) by (simp add: match_defs ready_def advance_def add_idx_def new_url_def n_def)
  have r3: "ready ?p3" "state ?p3 = StateURL ?s2" "0 < url_idx ?s2"
    using p by (simp_all add: ready_def add_idx_def new_url_def)
  note f4 = feed_url_plain [OF assms(6) r3, of cm mem]
  let ?s4 = "add_idx (int (length path2)) ?s2"
  let ?p4 = "(advance path2 ?p3)\<lparr>state := StateURL ?s4\<rparr>"
  have r4: "ready ?p4" "state ?p4 = StateURL ?s4" using p by (simp_all add: ready_def)
  let ?s5 = "?s4\<lparr>url_idx := url_idx ?s4 + 1, url_key_offset := now_len ?p4 + 1, has_query := True\<rparr>"
  let ?p5 = "(advance ''?'' ?p4)\<lparr>path_pos := (fst (path_pos ?p4), now_len ?p4 - fst (path_pos ?p4)),
      state := StateURL ?s5\<rparr>"
  have f5: "feed cm mem ''?'' ?p4 = Inr (True, ?p5)" by (rule feed_url_question [OF r4])
  have r5: "ready ?p5" "state ?p5 = StateURL ?s5" "0 < url_idx ?s5"
    using p by (simp_all add: ready_def add_idx_def new_url_def)
  note f6 = feed_url_plain [OF assms(7) r5, of cm mem]
  have "feed cm mem (equals_in_path m path1 path2 key) p
      = Inr (True, (advance key ?p5)\<lparr>state := StateURL (add_idx (int (length key)) ?s5)\<rparr>)"
    by (simp only: equals_in_path_def feed_append [of cm mem "method_name m @ '' ''"]
        feed_append [of cm mem path1] feed_append [of cm mem path2] feed_append [of cm mem "''?''"]
        feed_append [of cm mem "''=''"] f1 f2 f3 f4 f5 f6 then_feed_simps)
  then show ?thesis
    using p assms(2,3)
    by (intro exI [of _ "(advance key ?p5)\<lparr>state := StateURL (add_idx (int (length key)) ?s5)\<rparr>"]
        exI [of _ "add_idx (int (length key)) ?s5"])
      (simp add: ready_def add_idx_def n_def)
qed

text \<open>
  The length of a query key can be stale. An \<open>=\<close> inside the path sets the key's length
  to its own position, and a \<open>?\<close> later in the same URL only sets the key's offset. For a
  request \<open>m path1=path2?key\<close> and a blank, with plain characters, the parser then builds the
  key from as many bytes behind the \<open>?\<close> as there are up to the \<open>=\<close>, whatever they are: the
  blank and the bytes that follow the blank, and where the block ends before that, bytes
  outside it.
\<close>

theorem stale_key_length:
  fixes m :: http_method
  assumes "list_all url_plain path1" and "path1 \<noteq> []" and "list_all url_plain path2"
    and "list_all url_plain key"
  defines "msg \<equiv> equals_in_path m path1 path2 key @ '' ''"
    and "n \<equiv> length (method_name m) + length path1 + 2"
  shows "if length (key @ '' '' @ later) < n
    then parser_message cm (msg @ later) 0 (length msg) (new_parser True v0 c0) = Inl Wild_read
    else \<exists>p. parser_message cm (msg @ later) 0 (length msg) (new_parser True v0 c0) = Inr (True, p)
      \<and> query_pos p = [take n (key @ '' '' @ later) \<mapsto> (int n, int (length path2 + length key + 1))]"
proof -
  let ?mem = "msg @ later" and ?p0 = "new_parser True v0 c0\<lparr>begin_ptr := 0\<rparr>"
  let ?o = "n + length path2 + 1"
  have p0: "fresh ?p0" "now_len ?p0 = 0" "query_pos ?p0 = Map.empty" "begin_ptr ?p0 = 0"
    by (rule fresh_new_parser) (simp_all add: new_parser_def)
  obtain p s where f: "feed cm ?mem (equals_in_path m path1 path2 key) ?p0 = Inr (True, p)"
    and s: "state p = StateURL s" "has_query s" "url_key_len s = int n" "url_value_offset s = int n"
      "url_key_offset s = int ?o" "begin_ptr p = 0" "ready p"
      "now_len p = int (?o + length key)" "query_pos p = Map.empty"
    using feed_equals_in_path [where p = ?p0 and m = m and cm = cm and mem = ?mem, OF p0(1-3) assms(1-4)]
    by (auto simp: n_def p0(4))
  have len: "length (equals_in_path m path1 path2 key) = ?o + length key"
    by (simp add: equals_in_path_def n_def)
  have "?mem = ((method_name m @ '' '') @ path1 @ ''='' @ path2 @ ''?'') @ key @ '' '' @ later"
    "length ((method_name m @ '' '') @ path1 @ ''='' @ path2 @ ''?'') = ?o"
    by (simp_all add: msg_def equals_in_path_def n_def)
  then have drop: "drop ?o ?mem = key @ '' '' @ later"
    by (metis append_eq_conv_conj)
  have at: "mem_at ?mem 0 msg" using mem_at_mid [of "[]" msg later] by simp
  have split: "feed cm mm msg q = then_feed (feed cm mm (equals_in_path m path1 path2 key) q) (feed cm mm '' '')"
    for mm q by (simp only: msg_def feed_append)
  have "parser_message cm ?mem 0 (length msg) (new_parser True v0 c0) = parse_loop cm ?mem 0 (length msg) ?p0"
    by (simp add: parser_message_def new_parser_def)
  also have "\<dots> = then_feed (Inr (True, p)) (feed cm ?mem '' '')"
    by (simp only: parse_loop_feed [OF at] split f)
  finally have run: "parser_message cm ?mem 0 (length msg) (new_parser True v0 c0)
      = feed cm ?mem '' '' p" by simp
  show ?thesis
  proof (cases "length (key @ '' '' @ later) < n")
    case True
    then have "cstring ?mem (int ?o) (int n) = Inl Wild_read"
      using len by (simp add: cstring_def msg_def)
    then show ?thesis
      using True s run by (simp add: match_defs msg_def)
  next
    case False
    then have "cstring ?mem (int ?o) (int n) = Inr (slice ?o n ?mem)"
      using cstring_ok [of "int ?o" "int n" ?mem] len by (simp add: msg_def nat_add_distrib)
    then have "cstring ?mem (int ?o) (int n) = Inr (take n (key @ '' '' @ later))"
      by (simp only: slice_def drop)
    then show ?thesis
      using False s run by (simp add: match_defs msg_def ready_def)
  qed
qed

theorem stale_key_length_witness:
  "parser_message http_code_map ''GET /a=b?k '' 0 (length ''GET /a=b?k '') (new_parser True V0_9 0)
     = Inl Wild_read
   \<and> (\<exists>p. parser_message http_code_map ''GET /a=b?k HTTP/1'' 0 (length ''GET /a=b?k '') (new_parser True V0_9 0)
     = Inr (True, p) \<and> query_pos p = [''k HTTP/'' \<mapsto> (7, 3)])"
  using stale_key_length [of "''/a''" "''b''" "''k''" "[]" GET http_code_map V0_9 0]
    stale_key_length [of "''/a''" "''b''" "''k''" "''HTTP/1''" GET http_code_map V0_9 0]
  by (simp add: url_plain_def equals_in_path_def method_name_def)

end
