(* ===== verification/HttpResponses.thy ===== *)
theory HttpResponses
  imports HttpMessages
begin

text \<open>
  The parser on responses: what it reads from the text the writer prints for a response with
  a known three-digit code.
\<close>

section \<open>Three-digit codes\<close>

lemma nat_digits_three:
  assumes "100 \<le> n" and "n < 1000"
  shows "nat_digits n = [digit_char (n div 100), digit_char (n div 10 mod 10), digit_char (n mod 10)]"
proof -
  have "nat_digits n = nat_digits (n div 10) @ [digit_char (n mod 10)]"
    using assms by (subst nat_digits.simps) simp
  also have "nat_digits (n div 10) = nat_digits (n div 10 div 10) @ [digit_char (n div 10 mod 10)]"
  proof -
    have "\<not> n div 10 < 10" using assms by linarith
    then show ?thesis by (subst nat_digits.simps) simp
  qed
  also have "nat_digits (n div 10 div 10) = [digit_char (n div 100)]"
  proof -
    have "n div 10 div 10 = n div 100" "n div 100 < 10"
      using assms by (simp_all add: div_mult2_eq [symmetric] less_mult_imp_div_less)
    then show ?thesis by (subst nat_digits.simps) simp
  qed
  finally show ?thesis by simp
qed

lemma three_digits_value:
  "int (n div 100) * 100 + int (n div 10 mod 10) * 10 + int (n mod 10) = int n"
proof -
  have "n = n div 10 * 10 + n mod 10" by simp
  moreover have "n div 10 = n div 100 * 10 + n div 10 mod 10"
    using div_mult_mod_eq [of "n div 10" 10] by (simp add: div_mult2_eq [symmetric])
  ultimately have "n = (n div 100 * 10 + n div 10 mod 10) * 10 + n mod 10" by simp
  then show ?thesis by (simp add: algebra_simps flip: of_nat_add of_nat_mult)
qed

text \<open>A response whose status line the parser reads back: its version, code and detail text.\<close>

definition wf_status :: "code_map \<Rightarrow> http_version \<Rightarrow> http_response \<Rightarrow> bool" where
  "wf_status cm v r \<longleftrightarrow> parsed_version v \<and> ws_version r = version_index v
     \<and> 100 \<le> ws_code r \<and> ws_code r < 1000
     \<and> (\<exists>d. cm (ws_code r) = Some d \<and> cr \<notin> set d)"

definition wf_response :: "code_map \<Rightarrow> http_version \<Rightarrow> http_response \<Rightarrow> bool" where
  "wf_response cm v r \<longleftrightarrow> wf_status cm v r \<and> wf_header (ws_header r)
     \<and> content_length (ws_header r) 0 = int (length (ws_body r))"

definition status_detail :: "code_map \<Rightarrow> http_response \<Rightarrow> string" where
  "status_detail cm r = fst (code_detail cm (ws_code r))"

definition after_status :: "code_map \<Rightarrow> http_version \<Rightarrow> http_response \<Rightarrow> parser \<Rightarrow> parser" where
  "after_status cm v r p = (advance (response_start_text cm r v) p)
     \<lparr>version := v, code := ws_code r,
      detail_pos := (now_len p + 14, int (length (status_detail cm r)) + 2),
      state := StateHeader new_header\<rparr>"

lemma feed_status:
  assumes "ready p" and "state p = StateVersion new_version" and "\<not> is_request p"
    and "code p \<noteq> -1" and "wf_status cm v r"
  shows "feed cm mem (response_start_text cm r v) p = Inr (True, after_status cm v r p)"
proof -
  obtain d where v: "parsed_version v" and n: "100 \<le> ws_code r" "ws_code r < 1000"
    and d: "cm (ws_code r) = Some d" "cr \<notin> set d"
    using assms(5) by (auto simp: wf_status_def)
  define n where "n = nat (ws_code r)"
  have code: "ws_code r = int n" "100 \<le> n" "n < 1000" using n by (simp_all add: n_def)
  let ?d1 = "digit_char (n div 100)" and ?d2 = "digit_char (n div 10 mod 10)" and ?d3 = "digit_char (n mod 10)"
  have txt1: "to_string (ws_code r) = [?d1, ?d2, ?d3]"
    using code by (simp add: to_string_def nat_digits_three)
  have digits: "is_digit ?d1" "is_digit ?d2" "is_digit ?d3"
    and vals: "digit_val ?d1 = int (n div 100)" "digit_val ?d2 = int (n div 10 mod 10)"
      "digit_val ?d3 = int (n mod 10)"
    using code by (simp_all add: digit_char_is_digit)
  have val: "ws_code r = digit_val ?d1 * 100 + digit_val ?d2 * 10 + digit_val ?d3"
    using three_digits_value [of n] by (simp only: vals code(1))
  have whole: "response_start_text cm r v
      = (version_name v @ '' '') @ [?d1, ?d2, ?d3, CHR '' ''] @ (d @ [cr, lf])"
    by (simp add: response_start_text_def txt1 code_detail_def d)
  have len: "length (version_name v) = 8"
    using v by (auto simp: parsed_version_def version_name_def)
  let ?p1 = "(advance (version_name v @ '' '') p)\<lparr>version := v, state := StateCode new_code\<rparr>"
  let ?p2 = "(advance [?d1, ?d2, ?d3, CHR '' ''] ?p1)\<lparr>code := ws_code r, state := StateDetail new_detail\<rparr>"
  let ?p3 = "(advance (d @ [cr, lf]) ?p2)
      \<lparr>detail_pos := (now_len ?p2 + 1, int (length d) + 2), state := StateHeader new_header\<rparr>"
  have f1: "feed cm mem (version_name v @ '' '') p = Inr (True, ?p1)"
    by (rule feed_version_response [OF assms(1-3) v])
  have f2: "feed cm mem [?d1, ?d2, ?d3, CHR '' ''] ?p1 = Inr (True, ?p2)"
    by (rule feed_code [OF _ _ _ digits val])
      (use assms(1,4) d n in \<open>simp_all add: ready_def\<close>)
  have f3: "feed cm mem (d @ [cr, lf]) ?p2 = Inr (True, ?p3)"
    by (rule feed_detail [OF d(2)]) (use assms(1) in \<open>simp_all add: ready_def\<close>)
  have "feed cm mem (response_start_text cm r v) p = Inr (True, ?p3)"
    by (simp only: whole feed_append [of cm mem "version_name v @ '' ''"]
        feed_append [of cm mem "[?d1, ?d2, ?d3, CHR '' '']"] f1 f2 f3 then_feed_simps)
  then show ?thesis
    by (simp add: after_status_def whole advance_def len status_detail_def code_detail_def d)
qed

section \<open>A response\<close>

definition after_rest :: "(string \<times> string) list \<Rightarrow> string \<Rightarrow> parser \<Rightarrow> parser" where
  "after_rest hs body p = (advance (header_text hs @ crlf @ body) p)
     \<lparr>header_pos := header_positions (now_len p) hs (header_pos p),
      total_len := content_length hs (total_len p),
      body_pos := body_pos_after (now_len p + int (length (header_text hs)) + 2)
        (content_length hs (total_len p)) (length body) (body_pos p),
      state := StateBody \<lparr>body_idx = int (length body)\<rparr>\<rparr>"

lemma feed_rest:
  assumes "ready p" and "state p = StateHeader new_header" and "wf_header hs"
    and "mem_at mem (begin_ptr p + now_len p) (header_text hs)"
  shows "feed cm mem (header_text hs @ crlf @ body) p = Inr (True, after_rest hs body p)"
proof -
  have w: "list_all plain_header hs" "list_all length_ok hs"
    using assms(3) by (simp_all add: wf_header_def)
  let ?h = "header_text hs"
  obtain st where f1: "feed cm mem ?h p = Inr (True, (advance ?h p)
        \<lparr>header_pos := header_positions (now_len p) hs (header_pos p),
         total_len := content_length hs (total_len p), state := st\<rparr>)"
      and h1: "at_header ((advance ?h p)
        \<lparr>header_pos := header_positions (now_len p) hs (header_pos p),
         total_len := content_length hs (total_len p), state := st\<rparr>)"
    using feed_headers [OF at_header_new [OF assms(1,2)] w assms(4), of cm] by blast
  let ?p1 = "(advance ?h p)
        \<lparr>header_pos := header_positions (now_len p) hs (header_pos p),
         total_len := content_length hs (total_len p), state := st\<rparr>"
  let ?p2 = "(advance crlf ?p1)\<lparr>state := StateBody new_body\<rparr>"
  note f2 = feed_empty_line [OF h1, of cm mem]
  have r2: "ready ?p2" "state ?p2 = StateBody new_body" using assms(1) by (simp_all add: ready_def)
  note f3 = feed_body [OF r2, of cm mem body]
  show ?thesis
    by (simp only: feed_append [of cm mem ?h] feed_append [of cm mem crlf] f1 f2 f3 then_feed_simps)
      (simp add: after_rest_def advance_def)
qed

definition response_text :: "code_map \<Rightarrow> http_response \<Rightarrow> http_version \<Rightarrow> string" where
  "response_text cm r v = response_start_text cm r v @ header_text (ws_header r) @ crlf @ ws_body r"

definition after_response :: "code_map \<Rightarrow> http_version \<Rightarrow> http_response \<Rightarrow> parser \<Rightarrow> parser" where
  "after_response cm v r p = after_rest (ws_header r) (ws_body r) (after_status cm v r p)"

lemma parser_message_response:
  assumes "wf_status cm v r" and "wf_header (ws_header r)" and "c0 \<noteq> -1"
    and "mem_at mem a (response_text cm r v)"
  shows "parser_message cm mem a (length (response_text cm r v)) (new_parser False v0 c0)
    = Inr (True, after_response cm v r (new_parser False v0 c0\<lparr>begin_ptr := a\<rparr>))"
proof -
  let ?p0 = "new_parser False v0 c0\<lparr>begin_ptr := a\<rparr>"
  let ?p1 = "after_status cm v r ?p0"
  have f1: "feed cm mem (response_start_text cm r v) ?p0 = Inr (True, ?p1)"
    by (rule feed_status) (use assms in \<open>simp_all add: ready_def new_parser_def\<close>)
  have "mem_at mem (a + int (length (response_start_text cm r v))) (header_text (ws_header r))"
    using assms(4) unfolding response_text_def mem_at_append by blast
  then have m1: "mem_at mem (begin_ptr ?p1 + now_len ?p1) (header_text (ws_header r))"
    by (simp add: after_status_def new_parser_def)
  have r1: "ready ?p1" "state ?p1 = StateHeader new_header"
    by (simp_all add: after_status_def ready_def new_parser_def)
  note f2 = feed_rest [OF r1 assms(2) m1, of cm "ws_body r"]
  have "parser_message cm mem a (length (response_text cm r v)) (new_parser False v0 c0)
      = parse_loop cm mem a (length (response_text cm r v)) ?p0"
    by (simp add: parser_message_def new_parser_def)
  also have "\<dots> = Inr (True, after_response cm v r ?p0)"
    by (simp only: parse_loop_feed [OF assms(4)])
      (simp only: response_text_def feed_append [of cm mem "response_start_text cm r v"] f1 f2
        then_feed_simps after_response_def)
  finally show ?thesis .
qed

lemma after_response_fields:
  fixes v0 :: http_version and c0 a :: int
  defines "p0 \<equiv> new_parser False v0 c0\<lparr>begin_ptr := a\<rparr>"
  shows "begin_ptr (after_response cm v r p0) = a"
    and "is_request (after_response cm v r p0) = False"
    and "version (after_response cm v r p0) = v"
    and "code (after_response cm v r p0) = ws_code r"
    and "detail_pos (after_response cm v r p0) = (14, int (length (status_detail cm r)) + 2)"
    and "header_pos (after_response cm v r p0)
      = header_positions (int (length (response_start_text cm r v))) (ws_header r) Map.empty"
    and "body_pos (after_response cm v r p0)
      = body_pos_after (int (length (response_start_text cm r v)) + int (length (header_text (ws_header r))) + 2)
          (content_length (ws_header r) 0) (length (ws_body r)) (0, 0)"
    and "is_completed (after_response cm v r p0)
      \<longleftrightarrow> int (length (ws_body r)) = content_length (ws_header r) 0"
  by (simp_all add: p0_def after_response_def after_rest_def after_status_def new_parser_def
      is_completed_def)

lemma response_start_split:
  assumes "wf_status cm v r"
  shows "\<exists>pre. length pre = 13 \<and> response_start_text cm r v = pre @ status_detail cm r @ crlf"
proof -
  have "100 \<le> ws_code r" "ws_code r < 1000" using assms by (simp_all add: wf_status_def)
  then have "100 \<le> nat (ws_code r)" "nat (ws_code r) < 1000" "0 \<le> ws_code r" by linarith+
  then have "length (to_string (ws_code r)) = 3" by (simp add: to_string_def nat_digits_three)
  moreover have "length (version_name v) = 8"
    using assms by (auto simp: wf_status_def parsed_version_def version_name_def)
  ultimately show ?thesis
    by (intro exI [of _ "version_name v @ '' '' @ to_string (ws_code r) @ '' ''"])
      (simp add: response_start_text_def status_detail_def)
qed

text \<open>The bytes the stored position of the detail denotes.\<close>

lemma detail_view:
  assumes "wf_status cm v r" and "mem_at mem a (response_text cm r v)"
  defines "c \<equiv> hd (header_text (ws_header r) @ crlf @ ws_body r)"
  shows "cstring mem (a + 14) (int (length (status_detail cm r)) + 2)
    = Inr (drop 1 (status_detail cm r @ crlf) @ [c])"
proof (rule cstring_mem_at)
  let ?d = "status_detail cm r"
  obtain pre where pre: "length pre = 13" "response_start_text cm r v = pre @ ?d @ crlf"
    using response_start_split [OF assms(1)] by blast
  obtain x dl where d: "?d @ crlf = x # dl" by (cases "?d @ crlf") auto
  obtain cs where cs: "header_text (ws_header r) @ crlf @ ws_body r = c # cs"
    unfolding c_def by (cases "header_text (ws_header r) @ crlf @ ws_body r") auto
  have split: "response_text cm r v = (pre @ [x]) @ (dl @ [c]) @ cs"
    using d cs by (simp add: response_text_def pre(2))
  have "mem_at mem (a + 14) (dl @ [c])"
    using assms(2) pre(1) unfolding split mem_at_append [of _ _ "pre @ [x]"] mem_at_append [of _ _ "dl @ [c]"]
    by simp
  then show "mem_at mem (a + 14) (drop 1 (?d @ crlf) @ [c])" by (simp add: d)
qed simp

text \<open>
  C29: The parser on a response with a known three-digit code and a body whose length its
  \<open>Content-Length\<close> declares, other than 1, when its uninitialised \<open>code\<close> does not happen to be -1: it completes and reads back version, code, header
  and body. The detail is not what it should be: the stored view starts one byte late and is
  one byte too long at the other end as well, so it lacks the first letter of the reason phrase
  and ends in the line break and the first byte of the next line.
\<close>

theorem response_parsed:
  assumes "wf_response cm v r" and "length (ws_body r) \<noteq> 1" and "c0 \<noteq> -1"
    and "mem_at mem a (response_text cm r v)"
  shows "\<exists>p m c. parser_message cm mem a (length (response_text cm r v)) (new_parser False v0 c0)
      = Inr (True, p) \<and> is_completed p \<and> get_response_message p = Inr m
    \<and> rs_version m = v \<and> rs_code m = ws_code r
    \<and> view_map mem (rs_header m) = str_map (ws_header r)
    \<and> view_str mem (rs_body m) = Inr (ws_body r)
    \<and> view_str mem (rs_detail m) = Inr (drop 1 (status_detail cm r @ crlf) @ [c])"
proof -
  have w: "wf_status cm v r" "wf_header (ws_header r)"
    "content_length (ws_header r) 0 = int (length (ws_body r))"
    using assms(1) by (simp_all add: wf_response_def)
  let ?p = "after_response cm v r (new_parser False v0 c0\<lparr>begin_ptr := a\<rparr>)"
  note fields = after_response_fields [where cm = cm and v = v and r = r and ?v0.0 = v0 and ?c0.0 = c0 and a = a]
  have run: "parser_message cm mem a (length (response_text cm r v)) (new_parser False v0 c0) = Inr (True, ?p)"
    by (rule parser_message_response [OF w(1,2) assms(3,4)])
  let ?m = "\<lparr>rs_version = version ?p, rs_code = code ?p, rs_detail = view_at ?p (detail_pos ?p),
          rs_header = (\<lambda>k. map_option (view_at ?p) (header_pos ?p k)),
          rs_body = view_at ?p (body_pos ?p)\<rparr>"
  have m: "get_response_message ?p = Inr ?m"
    using w(3) by (simp add: get_response_message_def fields)
  note mem = assms(4) [unfolded response_text_def mem_at_append]
  have header: "view_map mem (rs_header ?m) = str_map (ws_header r)"
    using header_positions_strings [of mem a _ "ws_header r" Map.empty] mem
    by (simp add: view_map_pos fields)
  have body: "view_str mem (rs_body ?m) = Inr (ws_body r)"
  proof -
    let ?s = "int (length (response_start_text cm r v)) + int (length (header_text (ws_header r))) + 2"
    have "mem_at mem (a + ?s) (ws_body r)" using mem by (simp add: algebra_simps)
    from view_str_body [OF this assms(2), of ?s] show ?thesis
      by (simp add: view_str_def view_at_def fields w(3) add.assoc)
  qed
  have detail: "view_str mem (rs_detail ?m) = Inr (drop 1 (status_detail cm r @ crlf)
      @ [hd (header_text (ws_header r) @ crlf @ ws_body r)])"
    using detail_view [OF w(1) assms(4)] by (simp add: view_str_def view_at_def fields)
  show ?thesis
    by (intro exI [of _ ?p] exI [of _ ?m] exI [of _ "hd (header_text (ws_header r) @ crlf @ ws_body r)"] conjI
        run m header body detail) (simp_all add: fields w(3))
qed

definition sample_response :: http_response where
  "sample_response = \<lparr>ws_version = 1, ws_code = 404, ws_detail = [],
     ws_header = [(''Content-Length'', ''2'')], ws_body = ''xy''\<rparr>"

lemma code_404: "http_code_map 404 = Some ''Not Found''"
  by (simp add: http_code_map_def http_code_list_def)

lemma wf_sample_response: "wf_response http_code_map V1_0 sample_response"
  by (simp add: wf_response_def wf_status_def wf_header_def sample_response_def parsed_version_def
      plain_header_def length_ok_def stoi_two code_404 content_length_def length_header_def)

theorem response_parsed_witness:
  "\<exists>p m c. parser_message http_code_map (response_text http_code_map sample_response V1_0) 0
        (length (response_text http_code_map sample_response V1_0)) (new_parser False V0_9 0) = Inr (True, p)
    \<and> is_completed p \<and> get_response_message p = Inr m
    \<and> rs_version m = V1_0 \<and> rs_code m = ws_code sample_response
    \<and> view_map (response_text http_code_map sample_response V1_0) (rs_header m)
      = str_map (ws_header sample_response)
    \<and> view_str (response_text http_code_map sample_response V1_0) (rs_body m) = Inr (ws_body sample_response)
    \<and> view_str (response_text http_code_map sample_response V1_0) (rs_detail m)
      = Inr (drop 1 (status_detail http_code_map sample_response @ crlf) @ [c])"
  by (rule response_parsed [OF wf_sample_response]) (simp_all add: sample_response_def)

section \<open>The uninitialised code\<close>

text \<open>
  Reading a response depends on an uninitialised member. \<open>StateCode\<close> rejects whenever the
  parser's \<open>code\<close> is -1, also before it has computed one; if the memory of a new parser
  happens to hold -1 there, every response is rejected at the first digit of its code.
\<close>

theorem response_rejected_by_stale_code:
  assumes "wf_status cm v r" and "mem_at mem a (response_text cm r v)"
  shows "\<exists>p. parser_message cm mem a (length (response_text cm r v)) (new_parser False v0 (-1)) = Inr (False, p)"
proof -
  let ?p0 = "new_parser False v0 (-1)\<lparr>begin_ptr := a\<rparr>"
  let ?p1 = "(advance (version_name v @ '' '') ?p0)\<lparr>version := v, state := StateCode new_code\<rparr>"
  have f1: "feed cm mem (version_name v @ '' '') ?p0 = Inr (True, ?p1)"
    by (rule feed_version_response)
      (use assms(1) in \<open>simp_all add: wf_status_def ready_def new_parser_def\<close>)
  obtain c cs where c: "response_text cm r v = (version_name v @ '' '') @ c # cs"
  proof -
    have "100 \<le> nat (ws_code r)" "nat (ws_code r) < 1000" "0 \<le> ws_code r"
      using assms(1) unfolding wf_status_def by linarith+
    then show thesis
      using that by (simp add: response_text_def response_start_text_def to_string_def nat_digits_three)
  qed
  have "\<exists>p2. match_state cm mem (read_char c ?p1) = Inr p2 \<and> \<not> is_match p2"
    by (simp add: match_defs advance_def new_parser_def)
  then obtain p2 where p2: "match_state cm mem (read_char c ?p1) = Inr p2" "\<not> is_match p2" by blast
  have "parser_message cm mem a (length (response_text cm r v)) (new_parser False v0 (-1))
      = parse_loop cm mem a (length (response_text cm r v)) ?p0"
    by (simp add: parser_message_def new_parser_def)
  also have "\<dots> = Inr (False, p2)"
    by (simp only: parse_loop_feed [OF assms(2)])
      (simp only: c feed_append [of cm mem "version_name v @ '' ''"] f1 then_feed_simps feed.simps p2 bind_res_simps simp_thms if_True)
  finally show ?thesis by blast
qed

theorem response_rejected_by_stale_code_witness:
  "\<exists>p. parser_message http_code_map (response_text http_code_map sample_response V1_0) 0
      (length (response_text http_code_map sample_response V1_0)) (new_parser False V0_9 (-1)) = Inr (False, p)"
  by (rule response_rejected_by_stale_code) (use wf_sample_response in \<open>simp_all add: wf_response_def\<close>)

end
