(* ===== verification/HttpServer.thy ===== *)
theory HttpServer
  imports BaseBuffer HttpFailures HttpResponses
begin

text \<open>
  The connection handler of \<open>HTTPServer2\<close> (src/src/http/HTTPServer2.cpp), the function the
  coroutine server runs once per connection. Its environment is explicit: the results of the
  reads in order (the handler waits when they are used up), the result of each write by its
  number, the table of user callbacks, and what a default-constructed response happens to
  hold in its uninitialised members.
\<close>

section \<open>The handler\<close>

text \<open>
  A user callback reads the request through views into the buffer and fills the response.
\<close>

type_synonym http_callback = "string \<Rightarrow> request_message \<Rightarrow> http_response \<Rightarrow> http_response"

type_synonym path_table = "string \<rightharpoonup> http_callback"

definition add_bind :: "string \<Rightarrow> http_callback \<Rightarrow> path_table \<Rightarrow> path_table" where
  "add_bind path cb cbs = cbs(path \<mapsto> cb)"

datatype recv_result =
    Recv_waiting buffer parser
  | Recv_done int buffer "(request_message \<times> http_callback) option"

text \<open>The block the buffer owns, through which the parser's pointer and every view read.\<close>

definition block_of :: "buffer \<Rightarrow> string" where
  "block_of b = cells (buf b)"

definition on_completed :: "path_table \<Rightarrow> buffer \<Rightarrow> parser \<Rightarrow> recv_result res" where
  "on_completed cbs b p =
     bind_res (get_request_message p) (\<lambda>req.
     bind_res (view_str (block_of b) (rq_path req)) (\<lambda>path.
     Inr (case cbs path of
            None \<Rightarrow> Recv_done 404 b None
          | Some cb \<Rightarrow> Recv_done 200 b (Some (req, cb)))))"

text \<open>
  The loop of reads. The parser is given the start of the buffer's content and the number of
  bytes of the last read.
\<close>

fun recv_loop ::
  "code_map \<Rightarrow> path_table \<Rightarrow> read_res list \<Rightarrow> buffer \<Rightarrow> parser \<Rightarrow> recv_result res" where
  "recv_loop cm cbs [] b p = Inr (Recv_waiting b p)"
| "recv_loop cm cbs (io # ios) b p =
     (let (r, b1) = push_from io b
      in if delivered r = [] then Inr (Recv_done (-1) b1 None)
         else bind_res
           (parser_message cm (block_of b1) (int (left_read_ptr b1)) (length (delivered r)) p)
           (\<lambda>(ok, p1).
              if \<not> ok then Inr (Recv_done 400 b1 None)
              else if is_completed p1 then on_completed cbs b1 p1
              else recv_loop cm cbs ios b1 p1))"

text \<open>
  The writer's callback: every piece is appended to the buffer the request was read into,
  and one write of the buffer's content is tried.
\<close>

record sink =
  sk_buf :: buffer
  sk_code :: int
  sk_writes :: nat
  sk_sent :: string

definition put_piece :: "(nat \<Rightarrow> write_res) \<Rightarrow> string \<Rightarrow> sink \<Rightarrow> sink" where
  "put_piece w str st =
     (let (r, bs, b) = pop_to (w (sk_writes st)) (push str (sk_buf st))
      in \<lparr>sk_buf = b,
          sk_code = (case r of Write_fail _ \<Rightarrow> -1 | Write_count _ \<Rightarrow> sk_code st),
          sk_writes = sk_writes st + 1,
          sk_sent = sk_sent st @ bs\<rparr>)"

datatype handler_result =
    Handler_waiting buffer parser
  | Handler_closed sink code_map

definition start_sink :: "int \<Rightarrow> buffer \<Rightarrow> sink" where
  "start_sink c b = \<lparr>sk_buf = b, sk_code = c, sk_writes = 0, sk_sent = []\<rparr>"

definition send_pieces ::
  "(nat \<Rightarrow> write_res) \<Rightarrow> sink \<Rightarrow> (string list \<times> code_map) res \<Rightarrow> handler_result res" where
  "send_pieces w st r = bind_res r (\<lambda>(pieces, cm). Inr (Handler_closed (emit (put_piece w) pieces st) cm))"

definition http_respond ::
  "code_map \<Rightarrow> http_response \<Rightarrow> (nat \<Rightarrow> write_res) \<Rightarrow> recv_result \<Rightarrow> handler_result res" where
  "http_respond cm res0 w rr =
     (case rr of
        Recv_waiting b p \<Rightarrow> Inr (Handler_waiting b p)
      | Recv_done c b req \<Rightarrow>
          if c = 200 then
            (case req of
               None \<Rightarrow> Inl Dead_object
             | Some (m, cb) \<Rightarrow>
                 send_pieces w (start_sink c b) (write_response cm (cb (block_of b) m res0)))
          else if 0 \<le> c then send_pieces w (start_sink c b) (write_error_response_message cm c)
          else Inr (Handler_closed (start_sink c b) cm))"

definition http_handler ::
  "code_map \<Rightarrow> path_table \<Rightarrow> http_response \<Rightarrow> http_version \<Rightarrow> int \<Rightarrow> read_res list
     \<Rightarrow> (nat \<Rightarrow> write_res) \<Rightarrow> handler_result res" where
  "http_handler cm cbs res0 v0 c0 reads w =
     bind_res (recv_loop cm cbs reads new_buffer (new_parser True v0 c0)) (http_respond cm res0 w)"

section \<open>The writer's callback as a message sink\<close>

definition sink_out :: "sink \<Rightarrow> string" where
  "sink_out st = sk_sent st @ peek (sk_buf st)"

definition sink_good :: "string \<Rightarrow> sink \<Rightarrow> bool" where
  "sink_good str st \<longleftrightarrow> wf_buffer (sk_buf st) \<and> push_safe str (sk_buf st)"

lemma put_piece_fields:
  "sk_buf (put_piece w str st) = snd (snd (pop_to (w (sk_writes st)) (push str (sk_buf st))))"
  "sk_sent (put_piece w str st)
     = sk_sent st @ fst (snd (pop_to (w (sk_writes st)) (push str (sk_buf st))))"
  "sk_writes (put_piece w str st) = Suc (sk_writes st)"
  by (simp_all add: put_piece_def case_prod_beta)

interpretation hs: message_sink "put_piece w" sink_out sink_good for w
proof
  fix str st
  assume "sink_good str st"
  then have "wf_buffer (sk_buf st)" "push_safe str (sk_buf st)"
    by (simp_all add: sink_good_def)
  from wb.put_flush_view [OF this, of "w (sk_writes st)"]
  show "sink_out (put_piece w str st) = sink_out st @ str"
    by (simp add: sink_out_def put_piece_fields)
qed

text \<open>Two situations in which every push is safe: the text fits the block, and full writes.\<close>

definition room :: "buffer \<Rightarrow> nat" where
  "room b = left_read_ptr b + remain_right b"

lemma room_push:
  "wf_buffer b \<Longrightarrow> length str \<le> room b \<Longrightarrow> room (push str b) = room b - length str"
  by (auto simp: push_def Let_def room_def remain_right_move_head buf_insert_tail_def
      buf_move_head_def buffer_defs)

lemma room_pop_to:
  "wf_buffer b \<Longrightarrow> room b \<le> room (snd (snd (pop_to io b)))"
  by (cases io) (simp_all add: pop_to_def room_def remain_right_def)

lemma all_good_room:
  "wf_buffer (sk_buf st) \<Longrightarrow> length (concat pieces) \<le> room (sk_buf st) \<Longrightarrow> hs.all_good w pieces st"
proof (induction pieces arbitrary: st)
  case (Cons str pieces)
  let ?st = "put_piece w str st"
  have "sink_good str st"
    using Cons.prems by (simp add: sink_good_def push_safe_def grows_for_push_def room_def)
  moreover have "wf_buffer (sk_buf ?st)"
    using Cons.prems(1) by (simp add: put_piece_fields wf_pop_to wf_push)
  moreover have "length (concat pieces) \<le> room (sk_buf ?st)"
  proof -
    have "length (concat pieces) \<le> room (push str (sk_buf st))"
      using Cons.prems by (simp add: room_push)
    also have "\<dots> \<le> room (sk_buf ?st)"
      unfolding put_piece_fields by (rule room_pop_to [OF wf_push [OF Cons.prems(1)]])
    finally show ?thesis .
  qed
  ultimately show ?case using Cons.IH by simp
qed simp

section \<open>The first read\<close>

lemma first_read:
  assumes "length bs \<le> 1024"
  defines "b \<equiv> buf_insert_tail bs new_buffer"
  shows "push_from (Read_data bs) new_buffer = (Read_data bs, b)"
    and "wf_buffer b" and "peek b = bs" and "left_read_ptr b = 0" and "mem_at (block_of b) 0 bs"
    and "room b = 1024 - length bs" and "tight b"
proof -
  have g: "grow_for_read new_buffer = new_buffer"
    by (simp add: grow_for_read_def new_buffer_def vec_new_def init_capa_def)
  have rr: "remain_right new_buffer = 1024"
    by (simp add: remain_right_def new_buffer_def vec_new_def init_capa_def)
  show "push_from (Read_data bs) new_buffer = (Read_data bs, b)"
    using assms(1) by (simp add: push_from_eq g rr b_def)
  show "wf_buffer b" unfolding b_def by (rule wf_insert_tail) (simp_all add: rr assms(1))
  show "peek b = bs" unfolding b_def by (simp add: peek_insert_tail)
  show "left_read_ptr b = 0" by (simp add: b_def buf_insert_tail_def store_at_def new_buffer_def)
  show "mem_at (block_of b) 0 bs"
    by (simp add: b_def mem_at_def block_of_def buf_insert_tail_def store_at_def new_buffer_def
        overwrite_def slice_def)
  show "room b = 1024 - length bs"
    by (simp add: b_def room_def remain_right_def buf_insert_tail_def store_at_def new_buffer_def
        vec_new_def init_capa_def)
  show "tight b" by (simp add: b_def tight_def buf_insert_tail_def store_at_def new_buffer_def vec_new_def)
qed

text \<open>The reading half of the handler on a well-formed request that arrives in one read.\<close>

lemma recv_loop_request:
  assumes "wf_request r" and "length (wq_body r) \<noteq> 1" and "length (request_text r) \<le> 1024"
  defines "b \<equiv> buf_insert_tail (request_text r) new_buffer"
  shows "\<exists>m. message_is (block_of b) m r
    \<and> recv_loop cm cbs (Read_data (request_text r) # ios) new_buffer (new_parser True v0 c0)
      = Inr (case cbs (wq_path r) of None \<Rightarrow> Recv_done 404 b None
             | Some cb \<Rightarrow> Recv_done 200 b (Some (m, cb)))"
proof -
  note fr = first_read [OF assms(3), folded b_def]
  obtain p m where p: "parser_message cm (block_of b) 0 (length (request_text r)) (new_parser True v0 c0)
        = Inr (True, p)" "is_completed p" "get_request_message p = Inr m" "message_is (block_of b) m r"
    using request_parsed_lemma [OF assms(1,2) fr(5), of cm v0 c0] by blast
  have "request_text r \<noteq> []" by (simp add: request_text_def)
  then have "recv_loop cm cbs (Read_data (request_text r) # ios) new_buffer (new_parser True v0 c0)
      = on_completed cbs b p"
    using p(2) by (simp add: fr(1,4) p(1))
  moreover have "view_str (block_of b) (rq_path m) = Inr (wq_path r)"
    using p(4) by (simp add: message_is_def)
  ultimately show ?thesis
    using p(3,4) by (intro exI [of _ m]) (simp add: on_completed_def split: option.split)
qed

lemma send_pieces_out:
  assumes "hs.all_good w pieces (start_sink c b)"
  shows "\<exists>st. send_pieces w (start_sink c b) (Inr (pieces, cm)) = Inr (Handler_closed st cm)
    \<and> sk_sent st @ peek (sk_buf st) = peek b @ concat pieces"
  using hs.emit_out [OF assms] by (simp add: send_pieces_def sink_out_def start_sink_def)

text \<open>The error responses.\<close>

definition error_text :: "int \<Rightarrow> string" where
  "error_text c = ''HTTP/1.0 '' @ (if c = 404 then ''404 Not Found'' else ''400 Bad Request'') @ crlf
     @ ''User-Agent: simple server'' @ crlf"

lemma code_400: "http_code_map 400 = Some ''Bad Request''"
  by (simp add: http_code_map_def http_code_list_def)

lemma to_string_errors: "to_string 404 = ''404''" "to_string 400 = ''400''"
  by (simp_all add: to_string_def nat_digits_three digit_char_def char_of_def bit_Suc_0_iff)

lemma write_error_text:
  "c = 400 \<or> c = 404 \<Longrightarrow> \<exists>pieces. write_error_response_message http_code_map c = Inr (pieces, http_code_map)
     \<and> concat pieces = error_text c"
  by (auto simp: write_error_response_message_def code_404 code_400 write_response_def
      error_response_def get_version_str_def checked_index_def code_detail_def to_string_errors
      write_header_body_def error_text_def)

section \<open>Properties of the handler\<close>

lemma length_error_text: "length (error_text c) \<le> 60"
  by (simp add: error_text_def)

lemma respond_error:
  assumes "c = 400 \<or> c = 404" and "wf_buffer b" and "60 \<le> room b"
  shows "\<exists>st. http_respond http_code_map res0 w (Recv_done c b None) = Inr (Handler_closed st http_code_map)
    \<and> sk_sent st @ peek (sk_buf st) = peek b @ error_text c"
proof -
  obtain pieces where pieces: "write_error_response_message http_code_map c = Inr (pieces, http_code_map)"
      "concat pieces = error_text c"
    using write_error_text [OF assms(1)] by blast
  have "hs.all_good w pieces (start_sink c b)"
    by (rule all_good_room) (use assms length_error_text [of c] pieces(2) in \<open>simp_all add: start_sink_def\<close>)
  from send_pieces_out [OF this, of http_code_map] show ?thesis
    using assms(1) pieces by (auto simp: http_respond_def)
qed

text \<open>
  C30: What the handler writes for a request that arrives in one read, whatever each write takes.
  The bytes sent and the bytes still pending when the connection is closed are, in this
  order, the request itself, which is never popped from the buffer that is also the output
  buffer, and then the response: the one the callback bound to the path fills, or 404 where
  no callback is bound. (What is pending then is dropped. For a request of at most 900 bytes,
  with a body not of one byte, and a response of at most 124 bytes, which fit the buffer's
  first block.)
\<close>

theorem request_echoed_before_response:
  assumes "wf_request r" and "length (wq_body r) \<noteq> 1" and "length (request_text r) \<le> 900"
  shows "\<exists>mem m. message_is mem m r \<and>
    (case cbs (wq_path r) of
       None \<Rightarrow> \<exists>st. http_handler http_code_map cbs res0 v0 c0 (Read_data (request_text r) # ios) w
           = Inr (Handler_closed st http_code_map)
         \<and> sk_sent st @ peek (sk_buf st) = request_text r @ error_text 404
     | Some cb \<Rightarrow> \<forall>pieces cm'. write_response http_code_map (cb mem m res0) = Inr (pieces, cm')
         \<longrightarrow> length (concat pieces) \<le> 124
         \<longrightarrow> (\<exists>st. http_handler http_code_map cbs res0 v0 c0 (Read_data (request_text r) # ios) w
             = Inr (Handler_closed st cm')
           \<and> sk_sent st @ peek (sk_buf st) = request_text r @ concat pieces))"
proof -
  have len: "length (request_text r) \<le> 1024" using assms(3) by simp
  let ?b = "buf_insert_tail (request_text r) new_buffer"
  note fr = first_read [OF len]
  obtain m where m: "message_is (block_of ?b) m r"
      "recv_loop http_code_map cbs (Read_data (request_text r) # ios) new_buffer (new_parser True v0 c0)
        = Inr (case cbs (wq_path r) of None \<Rightarrow> Recv_done 404 ?b None
             | Some cb \<Rightarrow> Recv_done 200 ?b (Some (m, cb)))"
    using recv_loop_request [OF assms(1,2) len] by blast
  show ?thesis
  proof (cases "cbs (wq_path r)")
    case None
    have "\<exists>st. http_respond http_code_map res0 w (Recv_done 404 ?b None) = Inr (Handler_closed st http_code_map)
        \<and> sk_sent st @ peek (sk_buf st) = peek ?b @ error_text 404"
      by (rule respond_error) (use fr assms(3) in simp_all)
    then show ?thesis
      using m None by (intro exI [of _ "block_of ?b"] exI [of _ m]) (simp add: http_handler_def fr(3))
  next
    case (Some cb)
    have "\<exists>st. http_handler http_code_map cbs res0 v0 c0 (Read_data (request_text r) # ios) w
             = Inr (Handler_closed st cm')
           \<and> sk_sent st @ peek (sk_buf st) = request_text r @ concat pieces"
      if "write_response http_code_map (cb (block_of ?b) m res0) = Inr (pieces, cm')"
        "length (concat pieces) \<le> 124" for pieces cm'
    proof -
      have "hs.all_good w pieces (start_sink 200 ?b)"
        by (rule all_good_room) (use fr assms(3) that(2) in \<open>simp_all add: start_sink_def\<close>)
      from send_pieces_out [OF this, of cm'] show ?thesis
        using m(2) Some that(1) by (simp add: http_handler_def http_respond_def fr(3))
    qed
    then show ?thesis
      using m Some by (intro exI [of _ "block_of ?b"] exI [of _ m]) simp
  qed
qed

definition blank_response :: http_response where
  "blank_response = \<lparr>ws_version = 0, ws_code = 0, ws_detail = [], ws_header = [], ws_body = []\<rparr>"

definition hello :: http_callback where
  "hello mem m res = res\<lparr>ws_version := 1, ws_code := 200, ws_body := ''hi''\<rparr>"

lemma hello_pieces:
  "write_response http_code_map (hello mem m blank_response)
     = Inr ([''HTTP/1.0 200 OK'' @ crlf, [], crlf, ''hi''], http_code_map)"
proof -
  have "http_code_map 200 = Some ''OK''" by (simp add: http_code_map_def http_code_list_def)
  moreover have "to_string 200 = ''200''"
    by (simp add: to_string_def nat_digits_three digit_char_def char_of_def bit_Suc_0_iff)
  ultimately show ?thesis
    by (simp add: hello_def blank_response_def write_response_def get_version_str_def
        checked_index_def code_detail_def write_header_body_def)
qed

lemma sample_text_length: "length (request_text sample_request) \<le> 900"
  by (simp add: request_text_def start_text_def sample_request_def method_name_def version_name_def
      header_text_def header_line_def)

theorem request_echoed_before_response_witness:
  "\<exists>st. http_handler http_code_map [''/a'' \<mapsto> hello] blank_response V0_9 0
      [Read_data (request_text sample_request)] (\<lambda>_. Write_count 1000) = Inr (Handler_closed st http_code_map)
    \<and> sk_sent st @ peek (sk_buf st)
      = request_text sample_request @ ''HTTP/1.0 200 OK'' @ crlf @ crlf @ ''hi''"
  using request_echoed_before_response [OF wf_sample _ sample_text_length, of "[''/a'' \<mapsto> hello]"
      blank_response V0_9 0 "[]" "\<lambda>_. Write_count 1000"]
  by (simp add: hello_pieces sample_request_def)

section \<open>Full writes\<close>

text \<open>Every write takes all it is offered, as a blocking socket would.\<close>

definition full_writes :: "nat \<Rightarrow> (nat \<Rightarrow> write_res) \<Rightarrow> bool" where
  "full_writes k w \<longleftrightarrow> (\<forall>n. \<exists>j. w n = Write_count j \<and> k \<le> j)"

lemma put_piece_full:
  assumes "wf_buffer (sk_buf st)" and "full_writes k w" and "get_size (sk_buf st) + length str \<le> k"
  shows "wf_buffer (sk_buf (put_piece w str st)) \<and> get_size (sk_buf (put_piece w str st)) = 0"
proof -
  let ?b = "push str (sk_buf st)"
  have wf: "wf_buffer ?b" by (rule wf_push [OF assms(1)])
  obtain j where j: "w (sk_writes st) = Write_count j" "k \<le> j"
    using assms(2) by (auto simp: full_writes_def)
  have "length (peek ?b) = length (peek (sk_buf st)) + length str"
    by (rule wb.put_length [OF assms(1)])
  then have "get_size ?b \<le> j" using assms j wf by simp
  then show ?thesis
    using wf j by (simp add: put_piece_fields pop_to_def wf_pop_to get_size_def buffer_defs)
qed

lemma emit_full:
  assumes "full_writes k w"
  shows "wf_buffer (sk_buf st) \<Longrightarrow> get_size (sk_buf st) = 0 \<Longrightarrow> length (concat pieces) \<le> k \<Longrightarrow>
    hs.all_good w pieces st \<and> get_size (sk_buf (emit (put_piece w) pieces st)) = 0"
proof (induction pieces arbitrary: st)
  case (Cons str pieces)
  have "sink_good str st"
    using Cons.prems by (simp add: sink_good_def push_safe_def)
  moreover have "wf_buffer (sk_buf (put_piece w str st)) \<and> get_size (sk_buf (put_piece w str st)) = 0"
    by (rule put_piece_full [OF Cons.prems(1) assms]) (use Cons.prems in simp)
  ultimately show ?case
    using Cons.IH [of "put_piece w str st"] Cons.prems(3) by simp
qed simp

text \<open>
  With full writes a response of any length is sent completely: the bytes on the wire are
  exactly the request followed by the pieces of the response, and nothing is pending when the
  handler closes the connection.
\<close>

theorem full_writes_send_everything:
  assumes "wf_request r" and "length (wq_body r) \<noteq> 1" and "length (request_text r) \<le> 1024"
    and "cbs (wq_path r) = Some cb"
    and "\<And>mem m. write_response cm (cb mem m res0) = Inr (pieces, cm')"
    and "full_writes (length (request_text r) + length (concat pieces)) w" and "pieces \<noteq> []"
  shows "\<exists>st. http_handler cm cbs res0 v0 c0 (Read_data (request_text r) # ios) w
      = Inr (Handler_closed st cm')
    \<and> sk_sent st = request_text r @ concat pieces \<and> peek (sk_buf st) = []"
proof -
  let ?b = "buf_insert_tail (request_text r) new_buffer"
  let ?k = "length (request_text r) + length (concat pieces)"
  note fr = first_read [OF assms(3)]
  obtain m where m: "recv_loop cm cbs (Read_data (request_text r) # ios) new_buffer (new_parser True v0 c0)
        = Inr (Recv_done 200 ?b (Some (m, cb)))"
    using recv_loop_request [OF assms(1-3), of cm cbs ios v0 c0] assms(4) by auto
  let ?st = "start_sink 200 ?b"
  obtain x xs where xs: "pieces = x # xs" using assms(7) by (cases pieces) auto
  have wf: "wf_buffer (sk_buf ?st)" using fr(2) by (simp add: start_sink_def)
  have "get_size ?b = length (request_text r)" using fr(2,3) length_peek [of ?b] by simp
  then have le: "get_size (sk_buf ?st) + length x \<le> ?k" by (simp add: start_sink_def xs)
  note full = put_piece_full [OF wf assms(6) le]
  have "sink_good x ?st"
    using fr(2,7) tight_content_safe [OF fr(2,7)] by (simp add: sink_good_def push_safe_def start_sink_def)
  moreover have rest: "hs.all_good w xs (put_piece w x ?st)
      \<and> get_size (sk_buf (emit (put_piece w) xs (put_piece w x ?st))) = 0"
    by (rule emit_full [OF assms(6)]) (use full xs in simp_all)
  ultimately have good: "hs.all_good w pieces ?st" by (simp add: xs)
  have "send_pieces w ?st (Inr (pieces, cm')) = Inr (Handler_closed (emit (put_piece w) pieces ?st) cm')"
    by (simp add: send_pieces_def)
  moreover have empty: "peek (sk_buf (emit (put_piece w) pieces ?st)) = []"
    using rest by (simp add: xs peek_def)
  moreover have "sk_sent (emit (put_piece w) pieces ?st) = request_text r @ concat pieces"
    using hs.emit_out [OF good] empty fr(3) by (simp add: sink_out_def start_sink_def)
  ultimately show ?thesis
    using m assms(5) by (simp add: http_handler_def http_respond_def)
qed

theorem full_writes_send_everything_witness:
  "\<exists>st. http_handler http_code_map [''/a'' \<mapsto> hello] blank_response V0_9 0
      [Read_data (request_text sample_request)] (\<lambda>_. Write_count 2000) = Inr (Handler_closed st http_code_map)
    \<and> sk_sent st = request_text sample_request
        @ concat [''HTTP/1.0 200 OK'' @ crlf, [], crlf, ''hi''] \<and> peek (sk_buf st) = []"
proof (rule full_writes_send_everything [where cb = hello, OF wf_sample])
  show "length (request_text sample_request) \<le> 1024" using sample_text_length by simp
qed (use sample_text_length in \<open>simp_all add: hello_pieces sample_request_def full_writes_def\<close>)

section \<open>Requests in several reads\<close>

text \<open>
  After the first read the handler still passes the start of the buffer to the parser, so the
  second call sees the first bytes of the request again.
\<close>

lemma second_read:
  assumes "length xs + length ys \<le> 512"
  defines "b \<equiv> buf_insert_tail xs new_buffer"
  shows "push_from (Read_data ys) b = (Read_data ys, buf_insert_tail ys b)"
    and "wf_buffer (buf_insert_tail ys b)" and "peek (buf_insert_tail ys b) = xs @ ys"
    and "left_read_ptr (buf_insert_tail ys b) = 0" and "mem_at (block_of (buf_insert_tail ys b)) 0 (xs @ ys)"
    and "room (buf_insert_tail ys b) = 1024 - length (xs @ ys)"
proof -
  have len: "length xs \<le> 1024" using assms(1) by simp
  note fr = first_read [OF len, folded b_def]
  have rr: "remain_right b = 1024 - length xs" using fr(4,6) by (simp add: room_def)
  have "right_write_ptr b \<le> 512" "vcap (buf b) = 1024"
    using assms(1) by (simp_all add: b_def buf_insert_tail_def store_at_def new_buffer_def vec_new_def
        init_capa_def)
  then have g: "grow_for_read b = b" by (simp add: grow_for_read_def init_capa_def)
  show "push_from (Read_data ys) b = (Read_data ys, buf_insert_tail ys b)"
    using assms(1) by (simp add: push_from_eq g rr)
  show wf: "wf_buffer (buf_insert_tail ys b)"
    using assms(1) by (intro wf_insert_tail fr) (simp add: rr)
  show "peek (buf_insert_tail ys b) = xs @ ys" by (simp add: peek_insert_tail fr)
  show left: "left_read_ptr (buf_insert_tail ys b) = 0"
    using fr(4) by (simp add: buf_insert_tail_def store_at_def)
  have "right_write_ptr b = length xs" using fr(2,3,4) length_peek [of b] by (simp add: get_size_def)
  then have "cells (buf (buf_insert_tail ys b)) = xs @ ys @ drop (length (xs @ ys)) (replicate 1024 nul)"
    using assms(1)
    by (simp add: b_def buf_insert_tail_def store_at_def new_buffer_def vec_new_def init_capa_def
        overwrite_def)
  then show "mem_at (block_of (buf_insert_tail ys b)) 0 (xs @ ys)"
    by (simp add: mem_at_def block_of_def slice_def)
  show "room (buf_insert_tail ys b) = 1024 - length (xs @ ys)"
    using rr left assms(1)
    by (simp add: room_def remain_right_def buf_insert_tail_def store_at_def)
qed

lemma method_lengths:
  "0 < k \<Longrightarrow> k \<le> length (method_name m) \<Longrightarrow> k \<in> {1, 2, 3} \<or> k = 4 \<and> m = POST"
  by (cases m) (auto simp: method_name_def)

lemma method_prefix:
  assumes "0 < k" and "k \<le> length (method_name m)"
  shows "\<exists>p. feed cm mem (take k (method_name m)) (new_parser True v0 c0\<lparr>begin_ptr := a\<rparr>) = Inr (True, p)
    \<and> ready p \<and> state p = StateMethod \<lparr>method_idx = int k\<rparr> \<and> meth p = m"
proof -
  from method_lengths [OF assms] show ?thesis
    by (cases m)
      (auto simp: method_name_def match_defs new_parser_def ready_def eval_nat_numeral)
qed

text \<open>
  A request split inside its method is rejected. Any well-formed request that arrives in
  two reads, the first of them with only the method or a part of it, is answered with 400:
  the second call of the parser is given the first byte of the request again instead of the
  bytes that followed. The same request in one read is accepted.
\<close>

theorem split_in_method_rejected:
  assumes "wf_request r" and "xs @ ys = request_text r" and "length (request_text r) \<le> 512"
    and "0 < length xs" and "length xs \<le> length (method_name (wq_method r))"
  shows "\<exists>st. http_handler http_code_map cbs res0 v0 c0 (Read_data xs # Read_data ys # ios) w
      = Inr (Handler_closed st http_code_map)
    \<and> sk_sent st @ peek (sk_buf st) = request_text r @ error_text 400"
proof -
  let ?m = "method_name (wq_method r)" and ?b1 = "buf_insert_tail xs new_buffer"
  let ?b2 = "buf_insert_tail ys ?b1"
  have len: "length xs \<le> 1024" and len2: "length xs + length ys \<le> 512"
    using assms(3) arg_cong [OF assms(2), of length] by simp_all
  note fr = first_read [OF len] and sr = second_read [OF len2]
  have rt: "request_text r = ?m @ drop (length ?m) (request_text r)"
    by (simp add: request_text_def start_text_def)
  have xs: "xs = take (length xs) ?m"
    using assms(2,5) rt by (metis append_eq_conv_conj take_append diff_is_0_eq take0 append_Nil2)
  obtain c cs where c: "xs = c # cs" using assms(4) by (cases xs) auto
  obtain d ds where d: "ys = d # ds"
  proof (cases ys)
    case Nil
    then have "length (request_text r) \<le> length ?m" using assms(2,5) by simp
    then show ?thesis by (simp add: request_text_def start_text_def)
  qed
  obtain p where p: "feed http_code_map (block_of ?b1) xs (new_parser True v0 c0\<lparr>begin_ptr := 0\<rparr>) = Inr (True, p)"
      "ready p" "state p = StateMethod \<lparr>method_idx = int (length xs)\<rparr>" "meth p = wq_method r"
    using method_prefix [OF assms(4,5), of http_code_map "block_of ?b1" 0 v0 c0] xs by auto
  have run1: "parser_message http_code_map (block_of ?b1) 0 (length xs) (new_parser True v0 c0) = Inr (True, p)"
    using p(1) parse_loop_feed [OF fr(5), of http_code_map "new_parser True v0 c0\<lparr>begin_ptr := 0\<rparr>"]
    by (simp add: parser_message_def new_parser_def)
  have nc: "\<not> is_completed p" using p(3) by (simp add: is_completed_def)
  have first: "block_of ?b2 ! 0 = c" "block_of ?b2 \<noteq> []"
    using sr(5) c by (auto simp: mem_at_Cons)
  have cm: "c = (case wq_method r of GET \<Rightarrow> CHR ''G'' | POST \<Rightarrow> CHR ''P'')"
    using xs c by (cases "wq_method r") (auto simp: method_name_def take_Cons split: nat.splits)
  have "\<exists>p2. match_state http_code_map (block_of ?b2) (read_char c (p\<lparr>begin_ptr := - now_len p\<rparr>)) = Inr p2
      \<and> \<not> is_match p2"
    using method_lengths [OF assms(4,5)] p(2-4) cm
    by (cases "wq_method r") (auto simp: match_defs ready_def)
  then obtain p2 where p2: "match_state http_code_map (block_of ?b2) (read_char c (p\<lparr>begin_ptr := - now_len p\<rparr>))
      = Inr p2" "\<not> is_match p2" by blast
  have run2: "parser_message http_code_map (block_of ?b2) 0 (length ys) p = Inr (False, p2)"
    using p(2) p2 first d by (simp add: parser_message_def ready_def)
  have "recv_loop http_code_map cbs (Read_data xs # Read_data ys # ios) new_buffer (new_parser True v0 c0)
      = Inr (Recv_done 400 ?b2 None)"
  proof -
    have "xs \<noteq> []" "ys \<noteq> []" using c d by simp_all
    then show ?thesis using nc by (simp add: fr(1,4) sr(1,4) run1 run2)
  qed
  moreover have "\<exists>st. http_respond http_code_map res0 w (Recv_done 400 ?b2 None)
      = Inr (Handler_closed st http_code_map) \<and> sk_sent st @ peek (sk_buf st) = peek ?b2 @ error_text 400"
    by (rule respond_error) (use sr(2,6) len2 in simp_all)
  ultimately show ?thesis
    by (simp add: http_handler_def sr(3) assms(2))
qed

theorem split_in_method_rejected_witness:
  "\<exists>st. http_handler http_code_map [''/a'' \<mapsto> hello] blank_response V0_9 0
      [Read_data ''PO'', Read_data (drop 2 (request_text sample_request))] (\<lambda>_. Write_count 1000)
      = Inr (Handler_closed st http_code_map)
    \<and> sk_sent st @ peek (sk_buf st) = request_text sample_request @ error_text 400"
proof (rule split_in_method_rejected [OF wf_sample])
  show "''PO'' @ drop 2 (request_text sample_request) = request_text sample_request"
    "length (request_text sample_request) \<le> 512"
    by (simp_all add: request_text_def start_text_def sample_request_def method_name_def version_name_def
        header_text_def header_line_def)
qed (simp_all add: sample_request_def method_name_def)

end
