(* ===== verification/Scheduling.thy ===== *)
theory Scheduling
  imports Coroutines
begin

text \<open>
  The coroutine scheduler under its loop: invariants of the pool, the channels and the ready
  queue, a run of one coroutine, the whole of \<open>handle_co\<close>, and the steps of the loop that make
  coroutines ready (src/src/co/Coroutine.cpp, co_fun.cpp).
\<close>

section \<open>Invariants\<close>

text \<open>
  Of the pool: every coroutine is in the map, on another scheduler or in the queue of the pool,
  once, and the counter counts the live ones. Of the channels: \<open>fd_map\<close> is the table of the live channels, all of
  them one-shot.
\<close>

definition pool_inv :: "co_state \<Rightarrow> bool" where
  "pool_inv st \<longleftrightarrow> finite (co_map st \<union> elsewhere st) \<and> co_map st \<inter> elsewhere st = {}
     \<and> co_count st = int (card (co_map st \<union> elsewhere st)) \<and> distinct (pool_queue st)
     \<and> set (pool_queue st) \<inter> (co_map st \<union> elsewhere st) = {}
     \<and> (\<forall>c \<in> co_map st \<union> elsewhere st \<union> set (pool_queue st). c < next_co st)"

definition io_inv :: "co_state \<Rightarrow> bool" where
  "io_inv st \<longleftrightarrow> reactor_inv st \<and> flags_clear st
     \<and> (\<forall>fd a. fd_map st fd = Some a \<longrightarrow> (\<exists>ch. chans st a = Some ch \<and> ch_fd ch = fd))
     \<and> (\<forall>a ch. chans st a = Some ch \<longrightarrow> fd_map st (ch_fd ch) = Some a \<and> is_once ch)"

lemma io_invI:
  assumes "reactor_inv st" and "flags_clear st"
    and "\<And>fd a. fd_map st fd = Some a \<Longrightarrow> \<exists>ch. chans st a = Some ch \<and> ch_fd ch = fd"
    and "\<And>a ch. chans st a = Some ch \<Longrightarrow> fd_map st (ch_fd ch) = Some a \<and> is_once ch"
  shows "io_inv st"
  unfolding io_inv_def using assms by blast

lemma io_invD:
  assumes "io_inv st"
  shows "reactor_inv st" and "flags_clear st"
    and "fd_map st fd = Some a \<Longrightarrow> \<exists>ch. chans st a = Some ch \<and> ch_fd ch = fd \<and> is_once ch"
    and "chans st a = Some ch \<Longrightarrow> fd_map st (ch_fd ch) = Some a"
    and "chans st a = Some ch \<Longrightarrow> is_once ch"
  using assms unfolding io_inv_def by blast+

lemma pool_inv_same: "same_co st st' \<Longrightarrow> pool_inv st \<Longrightarrow> pool_inv st'"
  by (simp add: same_co_def pool_inv_def)

lemma truncate_eq_inv:
  assumes "reactor.truncate st' = reactor.truncate st"
  shows "reactor_inv st' = reactor_inv st" and "flags_clear st' = flags_clear st" and "chans st' = chans st"
  using arg_cong [OF assms, of reactor_inv] arg_cong [OF assms, of flags_clear] arg_cong [OF assms, of chans]
  by (simp_all only: truncate_inv truncate_flags truncate_simps)

lemma io_inv_same:
  assumes "reactor.truncate st' = reactor.truncate st" and "fd_map st' = fd_map st"
  shows "io_inv st' = io_inv st"
  unfolding io_inv_def truncate_eq_inv [OF assms(1)] assms(2) by (rule refl)

lemma reactor_inv_fd_map [simp]: "reactor_inv (st\<lparr>fd_map := m\<rparr>) = reactor_inv st"
  by (rule truncate_eq_inv(1)) (simp add: reactor.truncate_def)

lemma io_fd_nonneg: "io_inv st \<Longrightarrow> fd_map st fd = Some a \<Longrightarrow> 0 \<le> fd"
  using io_invD(3) [of st fd a] inv_channel [OF io_invD(1), of st a] by (auto simp: channel_ok_def)

lemma fd_channel_ok:
  assumes inv: "io_inv st" and "0 \<le> fd"
  shows "\<exists>a st'. fd_channel fd st = Inr (a, st') \<and> io_inv st' \<and> fd_map st' fd = Some a"
proof (cases "fd_map st fd")
  case (Some a)
  then show ?thesis using inv by (simp add: fd_channel_def)
next
  case None
  have "ch_fd ch \<noteq> fd" if "chans st a = Some ch" for a ch using None io_invD(4) [OF inv that] by auto
  then have ok: "op_ok st (Op_get fd True)" using assms(2) by (auto simp: op_ok_def)
  let ?ch = "\<lparr>ch_fd = fd, is_once = True, cb_arr = (\<lambda>_. None), trigger_arr = (\<lambda>_. False), enable_arr = (\<lambda>_. False)\<rparr>"
  obtain st1 where st1: "do_op (Op_get fd True) st = Inr st1" "reactor_inv st1"
      "chans st1 = (chans st)(next_addr st \<mapsto> ?ch)"
    using get_fresh [OF io_invD(1) [OF inv] ok] by blast
  then obtain a st0 where st0: "get_channel fd st = Inr (a, st0)" "set_once a True st0 = Inr st1"
    by (auto simp: do_op_def bind_res_Inr_iff)
  have a: "a = next_addr st" using st0(1) by (auto simp: get_channel_def bind_res_Inr_iff)
  have "reactor.more st1 = reactor.more st"
    using more_set_once [OF st0(2)] more_get_channel [OF st0(1)] by simp
  then have fm: "fd_map st1 = fd_map st" by (rule same_co_more(2))
  have fresh: "chans st a = None"
    using inv_channel [OF io_invD(1) [OF inv], of a] a by (cases "chans st a") (auto simp: channel_ok_def)
  let ?st = "st1\<lparr>fd_map := (fd_map st1)(fd \<mapsto> a)\<rparr>"
  have "io_inv ?st"
  proof (rule io_invI)
    show "reactor_inv ?st" using st1(2) by simp
    show "flags_clear ?st" using io_invD(2) [OF inv] st1(3) by (auto simp: flags_clear_def)
  next
    fix fd' b assume "fd_map ?st fd' = Some b"
    then show "\<exists>ch. chans ?st b = Some ch \<and> ch_fd ch = fd'"
      using io_invD(3) [OF inv, of fd' b] fresh by (auto simp: fm st1(3) a split: if_splits)
  next
    fix b ch assume b: "chans ?st b = Some ch"
    show "fd_map ?st (ch_fd ch) = Some b \<and> is_once ch"
    proof (cases "b = a")
      case True
      then show ?thesis using b a st1(3) by auto
    next
      case False
      then have "chans st b = Some ch" using b a st1(3) by simp
      then show ?thesis using io_invD(4,5) [OF inv, of b ch] None by (auto simp: fm)
    qed
  qed
  then show ?thesis using None st0 by (simp add: fd_channel_def)
qed

lemma fd_channel_nonneg: "io_inv st \<Longrightarrow> fd_channel fd st = Inr r \<Longrightarrow> 0 \<le> fd"
  using io_fd_nonneg [of st fd]
  by (auto simp: fd_channel_def get_channel_def new_channel_def bind_res_Inr_iff assertm_def split: option.splits if_splits)

lemma co_wait_ok:
  assumes inv: "io_inv st" and "fd_map st fd = Some a"
  shows "\<exists>st'. co_wait a et co st = Inr st' \<and> io_inv st'"
proof -
  obtain ch where ch: "chans st a = Some ch" "ch_fd ch = fd" "is_once ch" using io_invD(3) [OF assms] by blast
  note rinv = io_invD(1) [OF inv]
  let ?cb = "if enable_arr ch et then None else Some co"
  have "?cb = None \<longrightarrow> cb_arr ch et \<noteq> None"
    using inv_channel [OF rinv ch(1)] by (auto simp: channel_ok_def)
  from enable_live [OF rinv ch(1) this] obtain st' ch' where st': "enable_event a et ?cb st = Inr st'"
      "reactor_inv st'" "chans st' = (chans st)(a \<mapsto> ch')"
      "ch_fd ch' = ch_fd ch" "is_once ch'" "trigger_arr ch' = trigger_arr ch"
    using ch(3) by fastforce
  have fm: "fd_map st' = fd_map st" by (rule same_co_more(2) [OF more_enable_event [OF st'(1)]])
  have "io_inv st'"
  proof (rule io_invI)
    show "reactor_inv st'" by (rule st'(2))
    show "flags_clear st'" using io_invD(2) [OF inv] st'(3,6) ch(1) by (simp add: flags_clear_def)
  next
    fix fd' b assume "fd_map st' fd' = Some b"
    then show "\<exists>c. chans st' b = Some c \<and> ch_fd c = fd'"
      using io_invD(3) [OF inv, of fd' b] st'(3,4) ch(1) by (auto simp: fm)
  next
    fix b c assume "chans st' b = Some c"
    then show "fd_map st' (ch_fd c) = Some b \<and> is_once c"
      using io_invD(4,5) [OF inv, of b c] io_invD(4) [OF inv ch(1)] st'(3-5)
      by (cases "b = a") (auto simp: fm)
  qed
  then show ?thesis using st'(1) ch(1) by (simp add: co_wait_def with_channel_def)
qed

lemma co_close_ok:
  assumes inv: "io_inv st"
  shows "\<exists>st'. co_close fd st = Inr st' \<and> io_inv st'"
proof (cases "fd_map st fd")
  case None
  then show ?thesis using inv by (simp add: co_close_def)
next
  case (Some a)
  then obtain ch where ch: "chans st a = Some ch" "ch_fd ch = fd" using io_invD(3) [OF inv] by blast
  obtain st1 where st1: "destroy_channel a st = Inr st1" "reactor_inv st1" "chans st1 = (chans st)(a := None)"
    using destroy_live [OF io_invD(1) [OF inv] ch(1)] by blast
  let ?st = "st1\<lparr>fd_map := (fd_map st1)(fd := None)\<rparr>"
  have fm: "fd_map st1 = fd_map st" by (rule same_co_more(2) [OF more_destroy_channel [OF st1(1)]])
  have "io_inv ?st"
  proof (rule io_invI)
    show "reactor_inv ?st" using st1(2) by simp
    show "flags_clear ?st" using io_invD(2) [OF inv] st1(3) by (auto simp: flags_clear_def)
  next
    fix fd' b assume b: "fd_map ?st fd' = Some b"
    then have "fd' \<noteq> fd" "fd_map st fd' = Some b" by (auto simp: fm split: if_splits)
    moreover obtain c where "chans st b = Some c" "ch_fd c = fd'" using io_invD(3) [OF inv] calculation(2) by blast
    moreover have "b \<noteq> a" using calculation ch by auto
    ultimately show "\<exists>c. chans ?st b = Some c \<and> ch_fd c = fd'" using st1(3) by simp
  next
    fix b c assume "chans ?st b = Some c"
    then have b: "chans st b = Some c" "b \<noteq> a" using st1(3) by (auto split: if_splits)
    then have "fd_map st (ch_fd c) = Some b" by (intro io_invD(4) [OF inv])
    moreover have "ch_fd c \<noteq> fd" using calculation b(2) Some by auto
    ultimately show "fd_map ?st (ch_fd c) = Some b \<and> is_once c"
      using io_invD(5) [OF inv b(1)] by (simp add: fm)
  qed
  then show ?thesis using Some st1(1) by (simp add: co_close_def)
qed

section \<open>A run of one coroutine\<close>

text \<open>Programs that only use descriptors and do not throw; a channel on a negative number throws.\<close>

primrec prog_ok :: "co_prog \<Rightarrow> bool" where
  "prog_ok Co_end = True"
| "prog_ok (Co_io et fd k) = (0 \<le> fd \<and> (\<forall>r. prog_ok (k r)))"
| "prog_ok (Co_call k) = (\<forall>r. prog_ok (k r))"
| "prog_ok (Co_sleep ms p) = prog_ok p"
| "prog_ok (Co_close fd p) = prog_ok p"
| "prog_ok (Co_spawn b p) = (prog_ok b \<and> prog_ok p)"
| "prog_ok (Co_yield p) = prog_ok p"
| "prog_ok (Co_throw e) = False"

text \<open>While \<open>co\<close> runs it is the one live coroutine that is not suspended.\<close>

definition running :: "nat \<Rightarrow> co_state \<Rightarrow> bool" where
  "running co st \<longleftrightarrow> pool_inv st \<and> io_inv st \<and> is_schedule st \<and> co \<in> co_map st
     \<and> dom (suspended st) = co_map st - {co}"

definition settled :: "co_state \<Rightarrow> bool" where
  "settled st \<longleftrightarrow> pool_inv st \<and> io_inv st \<and> is_schedule st \<and> dom (suspended st) = co_map st"

text \<open>The queue holds every coroutine once, and all programs use descriptors.\<close>

definition sound_queue :: "co_state \<Rightarrow> bool" where
  "sound_queue st \<longleftrightarrow> distinct (ready_queue st) \<and> set (ready_queue st) \<subseteq> dom (suspended st)
     \<and> (\<forall>c p. suspended st c = Some p \<longrightarrow> prog_ok p)"

lemma running_same: "same_co st st' \<Longrightarrow> io_inv st' \<Longrightarrow> running co st \<Longrightarrow> running co st'"
  using pool_inv_same [of st st'] by (auto simp: running_def same_co_def)

lemma sound_same: "same_co st st' \<Longrightarrow> sound_queue st' = sound_queue st"
  by (simp add: sound_queue_def same_co_def)

lemma settled_suspend: "running co st \<Longrightarrow> settled (suspend co p st)"
  using io_inv_same [of "suspend co p st" st]
  by (auto simp: running_def settled_def suspend_def pool_inv_def reactor.truncate_def)

lemma sound_suspend:
  "running co st \<Longrightarrow> sound_queue st \<Longrightarrow> prog_ok p \<Longrightarrow> sound_queue (suspend co p st)"
  by (auto simp: sound_queue_def suspend_def)

lemma settled_release: "running co st \<Longrightarrow> settled (release_co co st) \<and> handlers (release_co co st) = handlers st
    \<and> (sound_queue st \<longrightarrow> sound_queue (release_co co st))"
proof -
  assume run: "running co st"
  then have "co \<in> co_map st" by (simp add: running_def)
  then have rel: "release_co co st = st\<lparr>co_map := co_map st - {co}, pool_queue := pool_queue st @ [co],
      co_count := co_count st - 1\<rparr>" by (simp add: release_co_def)
  have pool: "pool_inv st" "co \<in> co_map st" using run by (simp_all add: running_def)
  then have "co_map st - {co} \<union> elsewhere st = (co_map st \<union> elsewhere st) - {co}" by (auto simp: pool_inv_def)
  moreover have "0 < card (co_map st \<union> elsewhere st)" using pool by (auto simp: pool_inv_def card_gt_0_iff)
  ultimately have "pool_inv (release_co co st)" using pool unfolding rel
    by (auto simp: pool_inv_def card_Diff_singleton)
  moreover have "io_inv (release_co co st)"
    using run io_inv_same [of "release_co co st" st] by (simp add: running_def rel reactor.truncate_def)
  ultimately show ?thesis using run by (simp add: settled_def running_def rel sound_queue_def)
qed

text \<open>A coroutine the pool hands out is not live, and none of the old ones.\<close>

lemma get_co_channel_new:
  assumes "pool_inv st" and "get_co_channel st = (c, st1)"
  shows "c \<notin> co_map st" and "c \<notin> elsewhere st" and "pool_inv (st1\<lparr>co_map := insert c (co_map st1)\<rparr>)"
proof -
  note frame = get_co_channel_frame [OF assms(2)]
  show new: "c \<notin> co_map st" "c \<notin> elsewhere st"
    using assms(1) frame by (cases "pool_queue st"; auto simp: pool_inv_def)+
  show "pool_inv (st1\<lparr>co_map := insert c (co_map st1)\<rparr>)"
    using assms(1) frame new by (cases "pool_queue st") (auto simp: pool_inv_def less_Suc_eq)
qed

lemma add_co_keeps:
  assumes inv: "pool_inv st" "io_inv st" and dom: "dom (suspended st) \<subseteq> co_map st"
  shows "\<exists>st' c. add_co b st = Inr st' \<and> pool_inv st' \<and> io_inv st' \<and> is_schedule st' \<and> c \<notin> co_map st
    \<and> co_map st' = insert c (co_map st) \<and> suspended st' = (suspended st)(c \<mapsto> b)
    \<and> ready_queue st' = ready_queue st @ [c] \<and> scheduled st' = scheduled st @ [c] \<and> resumed st' = resumed st
    \<and> c \<notin> elsewhere st \<and> elsewhere st' = elsewhere st \<and> handlers st' = (if is_schedule st then handlers st else handlers st + 1)"
proof -
  obtain c st1 where get: "get_co_channel st = (c, st1)" by fastforce
  note frame = get_co_channel_frame [OF get] and new = get_co_channel_new [OF inv(1) get]
  let ?st = "st1\<lparr>co_map := insert c (co_map st1), suspended := (suspended st1)(c \<mapsto> b),
     ready_queue := ready_queue st1 @ [c], scheduled := scheduled st1 @ [c],
     handlers := (if is_schedule st1 then handlers st1 else handlers st1 + 1), is_schedule := True\<rparr>"
  have "add_co b st = Inr ?st" by (simp add: add_co_eq get)
  moreover have "pool_inv ?st" using new(3) by (simp add: pool_inv_def)
  moreover have "io_inv ?st"
    using inv(2) frame io_inv_same [of ?st st] by (simp add: reactor.truncate_def)
  ultimately show ?thesis using frame new(1,2) by (intro exI [of _ ?st] exI [of _ c]) simp
qed

lemma running_add_co:
  assumes run: "running co st"
  shows "\<exists>st'. add_co b st = Inr st' \<and> running co st' \<and> handlers st' = handlers st
    \<and> (sound_queue st \<and> prog_ok b \<longrightarrow> sound_queue st')"
proof -
  have "pool_inv st" "io_inv st" "dom (suspended st) \<subseteq> co_map st" "is_schedule st"
    using run by (auto simp: running_def)
  from add_co_keeps [OF this(1-3), of b] \<open>is_schedule st\<close> obtain st' c where st': "add_co b st = Inr st'"
      "pool_inv st'" "io_inv st'" "is_schedule st'" "c \<notin> co_map st" "co_map st' = insert c (co_map st)"
      "suspended st' = (suspended st)(c \<mapsto> b)" "ready_queue st' = ready_queue st @ [c]" "handlers st' = handlers st"
    by auto
  have "running co st'" using run st' by (auto simp: running_def)
  moreover have "sound_queue st'" if "sound_queue st" "prog_ok b"
    using that run st'(5,7,8) by (auto simp: sound_queue_def running_def)
  ultimately show ?thesis using st' by blast
qed

lemma co_add_timer_ok:
  assumes run: "running co st"
  shows "\<exists>st'. co_add_timer env ms co st = Inr st' \<and> (same_co st st' \<or> same_co (push_ready co st) st') \<and> io_inv st'"
proof -
  let ?n = "clock_calls st" and ?ti = "\<lparr>trigger_after_ms = ms, timer_cb = co\<rparr>"
  have sched: "is_schedule st" and inv: "io_inv st" using run by (simp_all add: running_def)
  obtain i w fired where add: "add_timer quiet (sys_clock env ?n) (sys_clock env (?n + 1)) (sys_clock env (?n + 2))
      ?ti (co_wheel st) = Inr (i, w, fired)" "fired = [] \<or> fired = [co]"
    using add_timer_quiet [of "sys_clock env ?n" "sys_clock env (?n + 1)" "sys_clock env (?n + 2)" ?ti "co_wheel st"]
    by (metis timer.select_convs(2))
  let ?st = "st\<lparr>co_wheel := w, clock_calls := ?n + 3\<rparr>"
  have "co_add_timer env ms co st = Inr (if fired = [] then ?st else push_ready co ?st)"
    using add sched by (auto simp: co_add_timer_def Let_def schedule_co_def push_ready_def)
  moreover have "io_inv ?st" "io_inv (push_ready co ?st)"
    using inv io_inv_same [of ?st st] io_inv_same [of "push_ready co ?st" st]
    by (simp_all add: reactor.truncate_def push_ready_def)
  ultimately show ?thesis by (auto simp: same_co_def push_ready_def)
qed

text \<open>
  A run keeps the books of the pool and of the channels; with programs on descriptors it does
  not throw.
\<close>

lemma run_keeps:
  assumes "running co st"
  shows "(\<forall>st'. run_co env co p st = Inr st' \<longrightarrow> settled st' \<and> handlers st' = handlers st)
    \<and> (sound_queue st \<and> prog_ok p \<longrightarrow> (\<exists>st'. run_co env co p st = Inr st' \<and> sound_queue st'))"
  using assms
proof (induction p arbitrary: st)
  case Co_end
  then show ?case using settled_release [of co st] by simp
next
  case (Co_io et fd k)
  have inv: "io_inv st" using Co_io.prems by (simp add: running_def)
  show ?case
  proof (cases "0 \<le> fd")
    case False
    then have "fd_channel fd st \<noteq> Inr r" for r using fd_channel_nonneg [OF inv] by blast
    then obtain e where "fd_channel fd st = Inl e" by (cases "fd_channel fd st") auto
    then show ?thesis using False by simp
  next
    case True
    obtain a st1 where st1: "fd_channel fd st = Inr (a, st1)" "io_inv st1" "fd_map st1 fd = Some a"
      using fd_channel_ok [OF inv True] by blast
    obtain ret st2 where call: "sys_call env st1 = (ret, st2)" by fastforce
    have same: "same_co st st2"
      using same_co_trans [OF same_fd_channel [OF st1(1)] same_sys_call [of st1 env]] call by simp
    have inv2: "io_inv st2" "fd_map st2 fd = Some a"
      using st1(2,3) call io_inv_same [of st2 st1] by (auto simp: sys_call_def reactor.truncate_def)
    have run2: "running co st2" by (rule running_same [OF same inv2(1) Co_io.prems])
    have eq: "run_co env co (Co_io et fd k) st = (if 0 \<le> ret then run_co env co (k ret) st2
        else bind_res (co_wait a et co st2) (\<lambda>st3. Inr (suspend co (Co_call k) st3)))"
      using st1(1) call by simp
    show ?thesis
    proof (cases "0 \<le> ret")
      case True
      have "settled st' \<and> handlers st' = handlers st" if "run_co env co (k ret) st2 = Inr st'" for st'
        using Co_io.IH [OF rangeI run2, of ret] that same by (auto simp: same_co_def)
      moreover have "\<exists>st'. run_co env co (k ret) st2 = Inr st' \<and> sound_queue st'"
        if "sound_queue st" "prog_ok (k ret)"
        using Co_io.IH [OF rangeI run2, of ret] that sound_same [OF same] by blast
      ultimately show ?thesis unfolding eq using True by (simp del: run_co.simps)
    next
      case False
      obtain st3 where st3: "co_wait a et co st2 = Inr st3" "io_inv st3" using co_wait_ok [OF inv2] by blast
      have same3: "same_co st st3" by (rule same_co_trans [OF same same_co_wait [OF st3(1)]])
      have run3: "running co st3" by (rule running_same [OF same3 st3(2) Co_io.prems])
      have "settled (suspend co (Co_call k) st3)" by (rule settled_suspend [OF run3])
      moreover have "handlers (suspend co (Co_call k) st3) = handlers st"
        using same3 by (simp add: suspend_def same_co_def)
      moreover have "sound_queue (suspend co (Co_call k) st3)" if "sound_queue st" "prog_ok (Co_io et fd k)"
        using sound_suspend [OF run3, of "Co_call k"] that sound_same [OF same3] by simp
      ultimately show ?thesis unfolding eq using False st3(1) by simp
    qed
  qed
next
  case (Co_call k)
  obtain ret st1 where call: "sys_call env st = (ret, st1)" by fastforce
  have same: "same_co st st1" using same_sys_call [of st env] call by simp
  have "io_inv st1"
    using Co_call.prems call io_inv_same [of st1 st] by (auto simp: running_def sys_call_def reactor.truncate_def)
  then have run1: "running co st1" by (rule running_same [OF same _ Co_call.prems])
  have eq: "run_co env co (Co_call k) st = run_co env co (k ret) st1" using call by simp
  have hs: "handlers st1 = handlers st" "sound_queue st1 = sound_queue st"
    using same sound_same [OF same] by (simp_all add: same_co_def)
  show ?case unfolding eq using Co_call.IH [OF rangeI run1, of ret] hs by simp
next
  case (Co_sleep ms p)
  obtain st1 where st1: "co_add_timer env ms co st = Inr st1" "same_co st st1 \<or> same_co (push_ready co st) st1" "io_inv st1"
    using co_add_timer_ok [OF Co_sleep.prems] by blast
  let ?st = "suspend co p st1"
  have run1: "running co st1"
  proof -
    have "suspended st1 = suspended st" "co_map st1 = co_map st" "is_schedule st1 = is_schedule st"
      "pool_inv st1 = pool_inv st"
      using st1(2) by (auto simp: same_co_def push_ready_def pool_inv_def)
    then show ?thesis using Co_sleep.prems st1(3) by (simp add: running_def)
  qed
  have "settled ?st" by (rule settled_suspend [OF run1])
  moreover have "handlers ?st = handlers st"
    using st1(2) by (auto simp: same_co_def push_ready_def suspend_def)
  moreover have "sound_queue ?st" if "sound_queue st" "prog_ok p"
  proof -
    have "co \<notin> dom (suspended st)" using Co_sleep.prems by (simp add: running_def)
    then have "co \<notin> set (ready_queue st)" using that(1) by (auto simp: sound_queue_def)
    moreover have "suspended st1 = suspended st"
      "ready_queue st1 = ready_queue st \<or> ready_queue st1 = ready_queue st @ [co]"
      using st1(2) by (auto simp: same_co_def push_ready_def)
    ultimately show ?thesis using that by (auto simp: sound_queue_def suspend_def)
  qed
  ultimately show ?case using st1(1) by simp
next
  case (Co_close fd p)
  have inv: "io_inv st" using Co_close.prems by (simp add: running_def)
  obtain st1 where st1: "co_close fd st = Inr st1" "io_inv st1" using co_close_ok [OF inv] by blast
  have same: "same_co st st1" by (rule same_co_close [OF st1(1)])
  have run1: "running co st1" by (rule running_same [OF same st1(2) Co_close.prems])
  have hs: "handlers st1 = handlers st" "sound_queue st1 = sound_queue st"
    using same sound_same [OF same] by (simp_all add: same_co_def)
  show ?case using Co_close.IH [OF run1] hs st1(1) by simp
next
  case (Co_spawn b p)
  obtain st1 where st1: "add_co b st = Inr st1" "running co st1" "handlers st1 = handlers st"
      "sound_queue st \<and> prog_ok b \<longrightarrow> sound_queue st1"
    using running_add_co [OF Co_spawn.prems, of b] by blast
  show ?case using Co_spawn.IH(2) [OF st1(2)] st1(1,3,4) by auto
next
  case (Co_yield p)
  show ?case using settled_suspend [OF Co_yield.prems, of p] sound_suspend [OF Co_yield.prems, of p]
    by (simp add: suspend_def)
next
  case (Co_throw e)
  then show ?case by simp
qed

section \<open>The scheduler and the loop\<close>

text \<open>The callback of a one-shot event and of a timer: \<open>schedule_co\<close>, without the mutex.\<close>

definition wake_co :: "nat \<Rightarrow> co_state \<Rightarrow> co_state res" where
  "wake_co co st = schedule_co False (Some co) st"

primrec wake_all :: "nat list \<Rightarrow> co_state \<Rightarrow> co_state res" where
  "wake_all [] st = Inr st"
| "wake_all (c # cs) st = bind_res (wake_co c st) (wake_all cs)"

definition timers_event :: "u64 \<Rightarrow> u64 \<Rightarrow> co_state \<Rightarrow> co_state res option" where
  "timers_event now1 now st =
     bind_ro (trigger_timer quiet now1 now (co_wheel st))
       (\<lambda>(w, fired, after). Some (wake_all fired (st\<lparr>co_wheel := w\<rparr>)))"

inductive co_step :: "co_env \<Rightarrow> co_state \<Rightarrow> co_state \<Rightarrow> bool" for env where
  spawn: "add_co b st = Inr st' \<Longrightarrow> co_step env st st'"
| handler: "0 < handlers st \<Longrightarrow> run_handler env st = Inr st' \<Longrightarrow> co_step env st st'"
| events: "distinct (map fst ready) \<Longrightarrow> poll wake_co ready st = Inr st' \<Longrightarrow> co_step env st st'"
| timers: "timers_event now1 now st = Some (Inr st') \<Longrightarrow> co_step env st st'"

inductive co_reach :: "co_env \<Rightarrow> co_state \<Rightarrow> bool" for env where
  init: "co_reach env (co_init now)"
| step: "co_reach env st \<Longrightarrow> co_step env st st' \<Longrightarrow> co_reach env st'"

inductive_cases co_stepE: "co_step env st st'"

definition co_inv :: "co_state \<Rightarrow> bool" where
  "co_inv st \<longleftrightarrow> pool_inv st \<and> io_inv st \<and> dom (suspended st) = co_map st
     \<and> handlers st = (if is_schedule st then 1 else 0) \<and> (ready_queue st \<noteq> [] \<longrightarrow> is_schedule st)
     \<and> resumed st @ ready_queue st = scheduled st"

lemma co_inv_init: "co_inv (co_init now)"
proof -
  have "reactor.truncate (co_init now) = new_reactor"
    by (simp add: co_init_def reactor.truncate_def new_reactor_def)
  then have "reactor_inv (co_init now)" using inv_new truncate_inv [of "co_init now"] by metis
  then have "io_inv (co_init now)"
    by (intro io_invI) (simp_all add: co_init_def flags_clear_def)
  then show ?thesis by (simp add: co_inv_def pool_inv_def co_init_def)
qed

lemma co_inv_add:
  assumes "co_inv st" and "add_co b st = Inr st'"
  shows "co_inv st'"
proof -
  have "pool_inv st" "io_inv st" "dom (suspended st) \<subseteq> co_map st" using assms(1) by (simp_all add: co_inv_def)
  from add_co_keeps [OF this, of b] assms(2) obtain c where st': "pool_inv st'" "io_inv st'" "is_schedule st'"
      "co_map st' = insert c (co_map st)" "suspended st' = (suspended st)(c \<mapsto> b)"
      "ready_queue st' = ready_queue st @ [c]" "scheduled st' = scheduled st @ [c]" "resumed st' = resumed st"
      "handlers st' = (if is_schedule st then handlers st else handlers st + 1)" by auto
  then have "dom (suspended st') = co_map st'" using assms(1) by (simp add: co_inv_def)
  moreover have "handlers st' = 1" "resumed st' @ ready_queue st' = scheduled st'"
    using assms(1) st'(6-9) by (simp_all add: co_inv_def split: if_splits)
  ultimately show ?thesis using st'(1-3) by (simp add: co_inv_def)
qed

text \<open>One turn of the loop of \<open>handle_co\<close>.\<close>

lemma resume_turn:
  assumes "settled st" and ready: "ready_queue st = co # q" and "resumed st @ ready_queue st = scheduled st"
  shows "(\<forall>st'. resume_co env co (st\<lparr>ready_queue := q\<rparr>) = Inr st' \<longrightarrow> settled st' \<and> handlers st' = handlers st
      \<and> resumed st' = resumed st @ [co] \<and> (\<exists>new. ready_queue st' = q @ new) \<and> resumed st' @ ready_queue st' = scheduled st')
    \<and> (sound_queue st \<longrightarrow> (\<exists>st'. resume_co env co (st\<lparr>ready_queue := q\<rparr>) = Inr st' \<and> sound_queue st'))"
proof (cases "suspended st co")
  case None
  then show ?thesis using ready by (auto simp: resume_co_def sound_queue_def)
next
  case (Some p)
  let ?st = "st\<lparr>ready_queue := q, suspended := (suspended st)(co := None), resumed := resumed st @ [co]\<rparr>"
  have eq: "resume_co env co (st\<lparr>ready_queue := q\<rparr>) = run_co env co p ?st" by (simp add: resume_co_def Some)
  have "io_inv ?st" using assms(1) io_inv_same [of ?st st] by (simp add: settled_def reactor.truncate_def)
  then have run: "running co ?st"
    using assms(1) Some by (auto simp: running_def settled_def pool_inv_def)
  have "settled st' \<and> handlers st' = handlers st \<and> resumed st' = resumed st @ [co]
      \<and> (\<exists>new. ready_queue st' = q @ new) \<and> resumed st' @ ready_queue st' = scheduled st'"
    if res: "run_co env co p ?st = Inr st'" for st'
  proof -
    have "leaves p ?st st'" by (rule leaves_run [OF res])
    then obtain new where "ready_queue st' = q @ new" "scheduled st' = scheduled st @ new" "resumed st' = resumed st @ [co]"
      unfolding leaves_def by auto
    then show ?thesis using run_keeps [OF run, of env p] res assms(3) ready by auto
  qed
  moreover have "\<exists>st'. run_co env co p ?st = Inr st' \<and> sound_queue st'" if "sound_queue st"
  proof -
    have "sound_queue ?st" "prog_ok p" using that Some ready by (auto simp: sound_queue_def)
    then show ?thesis using run_keeps [OF run, of env p] by blast
  qed
  ultimately show ?thesis unfolding eq by blast
qed

lemma handle_loop_keeps:
  "settled st \<Longrightarrow> resumed st @ ready_queue st = scheduled st \<Longrightarrow>
     (\<forall>st'. handle_loop env st = Inr st' \<longrightarrow> pool_inv st' \<and> io_inv st' \<and> dom (suspended st') = co_map st'
        \<and> \<not> is_schedule st' \<and> ready_queue st' = [] \<and> handlers st' = handlers st \<and> resumed st' = scheduled st'
        \<and> (\<exists>later. resumed st' = resumed st @ ready_queue st @ later))
     \<and> (sound_queue st \<longrightarrow> (\<exists>st'. handle_loop env st = Inr st' \<and> sound_queue st'))"
proof (induction env st rule: handle_loop.induct)
  case (1 env st)
  show ?case
  proof (cases "ready_queue st")
    case Nil
    let ?st = "st\<lparr>is_schedule := False\<rparr>"
    have "io_inv ?st" using "1.prems"(1) io_inv_same [of ?st st] by (simp add: settled_def reactor.truncate_def)
    then show ?thesis using "1.prems" Nil
      by (simp add: handle_loop.simps [of env st] settled_def pool_inv_def sound_queue_def)
  next
    case (Cons co q)
    note turn = resume_turn [OF "1.prems"(1) Cons "1.prems"(2), of env]
    have eq: "handle_loop env st = (case resume_co env co (st\<lparr>ready_queue := q\<rparr>) of
        Inl e \<Rightarrow> Inl e | Inr st1 \<Rightarrow> handle_loop env st1)"
      by (simp add: handle_loop.simps [of env st] Cons)
    show ?thesis
    proof (cases "resume_co env co (st\<lparr>ready_queue := q\<rparr>)")
      case (Inl e)
      then show ?thesis using turn by (simp add: eq)
    next
      case (Inr st1)
      then obtain new where st1: "settled st1" "handlers st1 = handlers st" "resumed st1 = resumed st @ [co]"
          "ready_queue st1 = q @ new" "resumed st1 @ ready_queue st1 = scheduled st1"
          "sound_queue st \<longrightarrow> sound_queue st1"
        using turn by auto
      note IH = "1.IH" [OF Cons Inr st1(1,5)]
      show ?thesis unfolding eq Inr sum.case
      proof (intro conjI allI impI)
        fix st' assume "handle_loop env st1 = Inr st'"
        then obtain later where st': "pool_inv st'" "io_inv st'" "dom (suspended st') = co_map st'"
            "\<not> is_schedule st'" "ready_queue st' = []" "handlers st' = handlers st1" "resumed st' = scheduled st'"
            "resumed st' = resumed st1 @ ready_queue st1 @ later" using IH by blast
        then show "pool_inv st'" "io_inv st'" "dom (suspended st') = co_map st'" "\<not> is_schedule st'"
          "ready_queue st' = []" "handlers st' = handlers st" "resumed st' = scheduled st'"
          using st1(2) by simp_all
        show "\<exists>later. resumed st' = resumed st @ ready_queue st @ later"
          using st'(8) st1(3,4) Cons by (intro exI [of _ "new @ later"]) simp
      qed (use IH st1(6) in blast)
    qed
  qed
qed

lemma run_handler_keeps:
  assumes "co_inv st" and "0 < handlers st"
  shows "(\<forall>st'. run_handler env st = Inr st' \<longrightarrow> co_inv st' \<and> ready_queue st' = [] \<and> handlers st' = 0
        \<and> (\<exists>later. resumed st' = resumed st @ ready_queue st @ later))
     \<and> (sound_queue st \<longrightarrow> (\<exists>st'. run_handler env st = Inr st'))"
proof -
  let ?st = "st\<lparr>handlers := handlers st - 1\<rparr>"
  have "is_schedule st" "handlers st = 1" using assms by (auto simp: co_inv_def split: if_splits)
  moreover have "io_inv ?st" using assms(1) io_inv_same [of ?st st] by (simp add: co_inv_def reactor.truncate_def)
  ultimately have "settled ?st" "resumed ?st @ ready_queue ?st = scheduled ?st"
    using assms(1) by (simp_all add: co_inv_def settled_def pool_inv_def)
  note keeps = handle_loop_keeps [OF this, of env]
  have eq: "run_handler env st = handle_loop env ?st" "handlers ?st = 0"
    using \<open>handlers st = 1\<close> by (simp_all add: run_handler_def)
  have "co_inv st' \<and> ready_queue st' = [] \<and> handlers st' = 0
      \<and> (\<exists>later. resumed st' = resumed st @ ready_queue st @ later)" if "handle_loop env ?st = Inr st'" for st'
  proof -
    have st': "pool_inv st'" "io_inv st'" "dom (suspended st') = co_map st'" "\<not> is_schedule st'"
      "ready_queue st' = []" "handlers st' = handlers ?st" "resumed st' = scheduled st'"
      and later: "\<exists>later. resumed st' = resumed ?st @ ready_queue ?st @ later"
      using keeps that by blast+
    then have "co_inv st'" using eq(2) by (simp add: co_inv_def)
    then show ?thesis using st' later eq(2) by simp
  qed
  moreover have "sound_queue ?st = sound_queue st" by (simp add: sound_queue_def)
  ultimately show ?thesis unfolding eq(1) using keeps by blast
qed

text \<open>Waking never fails; it only touches the scheduler's part of the state.\<close>

definition woken :: "nat list \<Rightarrow> co_state \<Rightarrow> co_state" where
  "woken cs st = st\<lparr>ready_queue := ready_queue st @ cs, scheduled := scheduled st @ cs,
     handlers := (if cs = [] \<or> is_schedule st then handlers st else handlers st + 1),
     is_schedule := (is_schedule st \<or> cs \<noteq> [])\<rparr>"

lemma wake_eq: "wake_co c st = Inr (woken [c] st)"
  by (cases "is_schedule st") (simp_all add: wake_co_def schedule_co_def push_ready_def woken_def)

lemma woken_Nil: "woken [] st = st"
  by (simp add: woken_def)

lemma woken_then: "woken cs (woken [c] st) = woken (c # cs) st"
  by (simp add: woken_def)

lemma wake_all_eq: "wake_all cs st = Inr (woken cs st)"
  by (induction cs arbitrary: st) (simp_all add: woken_Nil wake_eq woken_then)

definition wake_more :: "nat \<Rightarrow> 'x co_state_ext \<Rightarrow> 'x co_state_ext" where
  "wake_more c m =
     (let st = reactor.extend new_reactor m
      in reactor.more (st\<lparr>ready_queue := ready_queue st @ [c], scheduled := scheduled st @ [c],
           handlers := (if is_schedule st then handlers st else handlers st + 1), is_schedule := True\<rparr>))"

lemma woken_more: "woken [c] st = reactor.more_update (wake_more c) st"
  by (cases st) (simp add: woken_def wake_more_def reactor.extend_def)

lemma woken_fold: "reactor.more_update (fold wake_more cs) st = woken cs st"
proof (induction cs arbitrary: st)
  case (Cons c cs)
  have "reactor.more_update (fold wake_more (c # cs)) st = reactor.more_update (fold wake_more cs) (woken [c] st)"
    by (simp add: woken_more)
  then show ?case by (simp only: Cons.IH woken_then)
next
  case Nil
  show ?case by (cases st) (simp add: woken_def)
qed

text \<open>One poll: the coroutines whose events are ready are appended to the queue.\<close>

lemma poll_wakes:
  assumes "io_inv st" and "distinct (map fst ready)"
  shows "poll wake_co ready st =
    Inr (woken (ready_calls st ready) (st\<lparr>epoll := snd (epoll_wait (event_count st) ready (epoll st))\<rparr>))"
proof -
  have "(wake_co :: nat \<Rightarrow> co_state \<Rightarrow> co_state res) = outside wake_more"
    by (intro ext) (simp add: wake_eq woken_more outside_def)
  then show ?thesis
    using poll_calls [OF io_invD(1,2) [OF assms(1)] assms(2), of wake_more] by (simp add: woken_fold)
qed

lemma co_inv_woken: "co_inv st \<Longrightarrow> co_inv (woken cs st)"
  using io_inv_same [of "woken cs st" st]
  by (auto simp: co_inv_def woken_def pool_inv_def reactor.truncate_def)

lemma co_inv_epoll:
  assumes "co_inv st" and "\<And>fd. disarmed (epoll st fd) (ep fd)"
  shows "co_inv (st\<lparr>epoll := ep\<rparr>)"
proof -
  have inv: "io_inv st" using assms(1) by (simp add: co_inv_def)
  have "io_inv (st\<lparr>epoll := ep\<rparr>)"
    using inv_wait [OF io_invD(1) [OF inv] assms(2)] inv by (simp add: io_inv_def flags_clear_def)
  then show ?thesis using assms(1) by (simp add: co_inv_def pool_inv_def)
qed

lemma co_step_inv: "co_step env st st' \<Longrightarrow> co_inv st \<Longrightarrow> co_inv st'"
proof (erule co_stepE)
  fix b assume "co_inv st" "add_co b st = Inr st'"
  then show "co_inv st'" by (rule co_inv_add)
next
  assume "co_inv st" "0 < handlers st" "run_handler env st = Inr st'"
  then show "co_inv st'" using run_handler_keeps by blast
next
  fix ready assume inv: "co_inv st" and ev: "distinct (map fst ready)" "poll wake_co ready st = Inr st'"
  have "st' = woken (ready_calls st ready) (st\<lparr>epoll := snd (epoll_wait (event_count st) ready (epoll st))\<rparr>)"
    using poll_wakes [OF _ ev(1), of st] inv ev(2) by (simp add: co_inv_def)
  moreover have "co_inv (st\<lparr>epoll := snd (epoll_wait (event_count st) ready (epoll st))\<rparr>)"
    by (rule co_inv_epoll [OF inv]) (rule epoll_wait_disarms)
  ultimately show "co_inv st'" using co_inv_woken by simp
next
  fix now1 now assume inv: "co_inv st" and tm: "timers_event now1 now st = Some (Inr st')"
  then obtain w fired where st': "st' = woken fired (st\<lparr>co_wheel := w\<rparr>)"
    by (auto simp: timers_event_def bind_ro_def wake_all_eq split: sum.splits bind_splits)
  have "co_inv (st\<lparr>co_wheel := w\<rparr>)"
    using inv io_inv_same [of "st\<lparr>co_wheel := w\<rparr>" st] by (simp add: co_inv_def pool_inv_def reactor.truncate_def)
  then show "co_inv st'" unfolding st' by (rule co_inv_woken)
qed

lemma co_reach_inv: "co_reach env st \<Longrightarrow> co_inv st"
  by (induction rule: co_reach.induct) (auto intro: co_inv_init co_step_inv)

text \<open>A scheduler does not touch the coroutines of others; one that is alone has no others.\<close>

lemma resume_elsewhere: "resume_co env co st = Inr st' \<Longrightarrow> elsewhere st' = elsewhere st"
  by (auto simp: resume_co_def leaves_def split: option.splits dest!: leaves_run)

lemma handle_loop_elsewhere: "handle_loop env st = Inr st' \<Longrightarrow> elsewhere st' = elsewhere st"
proof (induction env st rule: handle_loop.induct)
  case (1 env st)
  show ?case
  proof (cases "ready_queue st")
    case Nil
    then show ?thesis using "1.prems" by (auto simp: handle_loop.simps [of env st])
  next
    case (Cons co q)
    then obtain st1 where "resume_co env co (st\<lparr>ready_queue := q\<rparr>) = Inr st1" "handle_loop env st1 = Inr st'"
      using "1.prems" by (auto simp: handle_loop.simps [of env st] split: sum.splits)
    then show ?thesis using "1.IH" [OF Cons] resume_elsewhere by fastforce
  qed
qed

lemma co_step_elsewhere: "co_step env st st' \<Longrightarrow> co_inv st \<Longrightarrow> elsewhere st' = elsewhere st"
proof (erule co_stepE)
  fix b assume "co_inv st" "add_co b st = Inr st'"
  then show ?thesis by (auto simp: add_co_eq split: prod.splits dest!: get_co_channel_frame)
next
  assume "run_handler env st = Inr st'"
  then show ?thesis by (auto simp: run_handler_def dest: handle_loop_elsewhere)
next
  fix ready assume "co_inv st" "distinct (map fst ready)" "poll wake_co ready st = Inr st'"
  then show ?thesis using poll_wakes [of st ready] by (auto simp: co_inv_def woken_def)
next
  fix now1 now assume "timers_event now1 now st = Some (Inr st')"
  then show ?thesis by (auto simp: timers_event_def bind_ro_def wake_all_eq woken_def split: sum.splits bind_splits)
qed

lemma co_reach_alone: "co_reach env st \<Longrightarrow> elsewhere st = {}"
proof (induction rule: co_reach.induct)
  case (step st st')
  then show ?case using co_step_elsewhere co_reach_inv by blast
qed (simp add: co_init_def)

section \<open>Properties\<close>

text \<open>
  C2: The books of the scheduler. In every state reached by spawning coroutines, running
  \<open>handle_co\<close>, events and timers: the map holds exactly the coroutines that have not ended, each
  of them suspended with a program; the counter of the pool is their number; no coroutine is
  both live and in the pool, nor twice in the pool; \<open>handle_co\<close> is in the list of the loop
  exactly once when \<open>is_schedule\<close> is set and not otherwise, and it is set whenever a coroutine
  is ready, so none waits for ever in the queue; and the coroutines resumed so far are those
  scheduled, in that order, without the ones still in the queue.
\<close>

theorem scheduler_books:
  assumes "co_reach env st"
  shows "dom (suspended st) = co_map st \<and> co_count st = int (card (co_map st))
    \<and> distinct (pool_queue st) \<and> set (pool_queue st) \<inter> co_map st = {}
    \<and> handlers st = (if is_schedule st then 1 else 0) \<and> (ready_queue st \<noteq> [] \<longrightarrow> is_schedule st)
    \<and> resumed st @ ready_queue st = scheduled st"
  using co_reach_inv [OF assms] co_reach_alone [OF assms] unfolding co_inv_def pool_inv_def by simp

definition calm_env :: co_env where
  "calm_env = \<lparr>sys_io = (\<lambda>n. if even n then -1 else 5), sys_clock = (\<lambda>_. 1000)\<rparr>"

text \<open>A new scheduler with one coroutine.\<close>

definition one_co :: "u64 \<Rightarrow> co_prog \<Rightarrow> co_state" where
  "one_co now b = (co_init now)\<lparr>co_map := {0}, co_count := 1, next_co := 1, suspended := [0 \<mapsto> b],
     ready_queue := [0], scheduled := [0], handlers := 1, is_schedule := True\<rparr>"

lemma one_co_simps [simp]:
  "co_map (one_co now b) = {0}" "suspended (one_co now b) = [0 \<mapsto> b]" "ready_queue (one_co now b) = [0]"
  "handlers (one_co now b) = 1" "resumed (one_co now b) = []" "co_wheel (one_co now b) = new_wheel now"
  by (simp_all add: one_co_def co_init_def)

lemma spawn_one: "add_co b (co_init now) = Inr (one_co now b)"
  by (simp add: add_co_eq get_co_channel_def pool_get_def co_init_def one_co_def)

lemma one_co_reach: "co_reach env (one_co now b)"
  by (rule co_reach.step [OF co_reach.init co_step.spawn [OF spawn_one]])

theorem scheduler_books_witness:
  "\<exists>st. co_reach calm_env st \<and> ready_queue st = [0] \<and> dom (suspended st) = co_map st
    \<and> co_count st = int (card (co_map st)) \<and> handlers st = (if is_schedule st then 1 else 0)"
proof -
  have reach: "co_reach calm_env (one_co 0 Co_end)" by (rule one_co_reach)
  show ?thesis
    by (intro exI [of _ "one_co 0 Co_end"] conjI reach) (use scheduler_books [OF reach] in \<open>simp, blast+\<close>)
qed

text \<open>
  C13: \<open>handle_co\<close> returns, however many coroutines the bodies it resumes make ready themselves:
  if no coroutine is ready twice, all that are ready are live and the programs use
  non-negative descriptors and do not throw, it ends without an
  error; it has resumed the ready ones in their order, each once, and then those made ready
  meanwhile, until the queue was empty; and then it is no longer in the list of the loop.
\<close>

theorem handle_co_drains_queue:
  assumes "co_reach env st" and "0 < handlers st" and "distinct (ready_queue st)"
    and "set (ready_queue st) \<subseteq> co_map st" and "\<forall>c p. suspended st c = Some p \<longrightarrow> prog_ok p"
  shows "\<exists>st' later. run_handler env st = Inr st' \<and> resumed st' = resumed st @ ready_queue st @ later
    \<and> ready_queue st' = [] \<and> handlers st' = 0 \<and> \<not> is_schedule st'"
proof -
  have inv: "co_inv st" by (rule co_reach_inv [OF assms(1)])
  then have "sound_queue st" using assms(3-5) by (simp add: sound_queue_def co_inv_def)
  then obtain st' where st': "run_handler env st = Inr st'"
    using run_handler_keeps [OF inv assms(2)] by blast
  then have "co_inv st' \<and> ready_queue st' = [] \<and> handlers st' = 0
      \<and> (\<exists>later. resumed st' = resumed st @ ready_queue st @ later)"
    using run_handler_keeps [OF inv assms(2)] by blast
  moreover from this have "\<not> is_schedule st'" by (auto simp: co_inv_def split: if_splits)
  ultimately show ?thesis using st' by blast
qed

theorem handle_co_drains_queue_witness:
  "\<exists>st st' later. co_reach calm_env st \<and> run_handler calm_env st = Inr st' \<and> resumed st' = 0 # later
    \<and> ready_queue st' = []"
proof -
  let ?b = "Co_spawn Co_end (Co_io READ 5 (\<lambda>r. Co_end))"
  have "\<exists>st' later. run_handler calm_env (one_co 0 ?b) = Inr st'
      \<and> resumed st' = resumed (one_co 0 ?b) @ ready_queue (one_co 0 ?b) @ later
      \<and> ready_queue st' = [] \<and> handlers st' = 0 \<and> \<not> is_schedule st'"
    by (rule handle_co_drains_queue [OF one_co_reach]) simp_all
  then show ?thesis using one_co_reach [of calm_env 0 ?b] by auto
qed

text \<open>
  C32: Who is woken. When a coroutine waits for an event of a descriptor, the event is armed in
  the kernel, and when it is ready the scheduler wakes one coroutine: the waiting one, if the
  event was not enabled on this channel before; but a one-shot event stays enabled after it
  has reported, and then it is the coroutine that waited for it first, whoever waits now.
\<close>

theorem first_waiter_woken:
  assumes "co_reach env st" and "chans st a = Some ch"
  shows "\<exists>st'. co_wait a et co st = Inr st'
    \<and> poll wake_co [(ch_fd ch, et = READ, et = WRITE)] st'
      = Inr (woken [if enable_arr ch et then the (cb_arr ch et) else co]
          (st'\<lparr>epoll := snd (epoll_wait (event_count st') [(ch_fd ch, et = READ, et = WRITE)] (epoll st'))\<rparr>))"
proof -
  have inv: "io_inv st" using co_reach_inv [OF assms(1)] by (simp add: co_inv_def)
  note rinv = io_invD(1) [OF inv]
  let ?fd = "ch_fd ch" and ?cb = "if enable_arr ch et then None else Some co"
  have "fd_map st ?fd = Some a" by (rule io_invD(4) [OF inv assms(2)])
  from co_wait_ok [OF inv this, of et co] obtain st' where st': "co_wait a et co st = Inr st'" "io_inv st'" by blast
  have "?cb = None \<longrightarrow> cb_arr ch et \<noteq> None"
    using inv_channel [OF rinv assms(2)] by (auto simp: channel_ok_def)
  note en = enable_live [OF rinv assms(2) this]
  have eq: "enable_event a et ?cb st = Inr st'" using st'(1) assms(2) by (simp add: co_wait_def with_channel_def)
  obtain ch' where ch': "chans st' a = Some ch'" "epoll st' ?fd = Some (wanted a ch')" "enable_arr ch' et"
      "cb_arr ch' et = (if ?cb = None then cb_arr ch et else ?cb)"
    using en eq by fastforce
  have "ready_calls st' [(?fd, et = READ, et = WRITE)] = [the (cb_arr ch' et)]"
    using ch'(1-3) by (cases et) (simp_all add: ready_calls_def calls_at_def report_of_def calls_of_def wanted_def)
  also have "the (cb_arr ch' et) = (if enable_arr ch et then the (cb_arr ch et) else co)"
    using ch'(4) by simp
  finally show ?thesis
    using st'(1) poll_wakes [OF st'(2), of "[(?fd, et = READ, et = WRITE)]"] by simp
qed

text \<open>Timer events one after the other, with nothing in between.\<close>

primrec timers_events :: "u64 list \<Rightarrow> co_state \<Rightarrow> co_state res option" where
  "timers_events [] st = Some (Inr st)"
| "timers_events (t # ts) st = bind_ro (timers_event t t st) (timers_events ts)"

lemma timers_events_woken:
  "tw.triggers ts (co_wheel st) = Some (w, fired) \<Longrightarrow> timers_events ts st = Some (Inr (woken fired (st\<lparr>co_wheel := w\<rparr>)))"
proof (induction ts arbitrary: st fired)
  case Nil
  then show ?case by (simp add: woken_Nil)
next
  case (Cons t ts)
  obtain w1 f1 f2 where q: "quiet_trigger t (co_wheel st) = Some (w1, f1)"
      and rest: "tw.triggers ts w1 = Some (w, f2)" "fired = f1 @ f2"
    using Cons.prems by (auto split: option.splits)
  then obtain after where one: "trigger_timer quiet t t (co_wheel st) = Some (Inr (w1, f1, after))"
    by (auto simp: quiet_trigger_def split: option.splits sum.splits)
  let ?st = "woken f1 (st\<lparr>co_wheel := w1\<rparr>)"
  have "timers_event t t st = Some (Inr ?st)" by (simp add: timers_event_def one wake_all_eq)
  moreover have "timers_events ts ?st = Some (Inr (woken f2 (?st\<lparr>co_wheel := w\<rparr>)))"
    by (rule Cons.IH) (simp add: rest(1) woken_def)
  moreover have "woken f2 (?st\<lparr>co_wheel := w\<rparr>) = woken fired (st\<lparr>co_wheel := w\<rparr>)"
    unfolding rest(2) by (simp add: woken_def)
  ultimately show ?case by simp
qed

text \<open>
  C27: \<open>co_sleep\<close> called from a coroutine in the loop of \<open>handle_co\<close>, and any timer events after it
  whose slot times do not go back. The slot time of the sleep is its end, rounded down to 10 ms.
  If the wheel has reached it, the coroutine is put behind the ready ones at once; else a sleep
  of a minute or more is dropped by the wheel, and nothing refers to the suspended coroutine
  any more. Any other is filed in the wheel: the timer events make ready the coroutines whose
  timers were due before, and this one exactly once, as soon as one of them reaches the time at
  which the wheel comes to its slot, and not before. That is the slot time if it is at most a
  revolution ahead of the wheel, and earlier by a multiple of a revolution if the wheel was
  further behind.
\<close>

theorem co_sleep_outcome:
  assumes "is_schedule st" and "wf_wheel (co_wheel st)" and "calm (sys_clock env (clock_calls st)) ms"
  defines "at \<equiv> slot_time (ms + sys_clock env (clock_calls st))" and "before \<equiv> unat (trigger_before_ms (co_wheel st))"
  shows "\<exists>st'. run_co env co (Co_sleep ms p) st = Inr st' \<and> suspended st' co = Some p \<and>
    (if at \<le> before then ready_queue st' = ready_queue st @ [co]
     else if 60000 \<le> unat ms then ready_queue st' = ready_queue st \<and> co_wheel st' = co_wheel st
       \<and> chans st' = chans st
     else ready_queue st' = ready_queue st \<and> (at \<le> before + 60000 \<longrightarrow> due_time before at = at)
       \<and> (\<forall>ts t. -1 \<notin> set (ts @ [t]) \<and> sorted (map slot_time (ts @ [t])) \<longrightarrow>
            (\<exists>st''. timers_events (ts @ [t]) st' = Some (Inr st'')
              \<and> mset (ready_queue st'') = mset (ready_queue st)
                  + mset (map snd (filter (\<lambda>d. fst d \<le> slot_time t) (due_callbacks (co_wheel st))))
                  + (if due_time before at \<le> slot_time t then {#co#} else {#}))))"
proof -
  let ?n = "clock_calls st" and ?w = "co_wheel st" and ?ti = "\<lparr>trigger_after_ms = ms, timer_cb = co\<rparr>"
  let ?add = "add_timer quiet (sys_clock env ?n) (sys_clock env (?n + 1)) (sys_clock env (?n + 2)) ?ti ?w"
  note cases = add_timer_cases [OF assms(2), of "sys_clock env ?n" ?ti quiet "sys_clock env (?n + 1)"
      "sys_clock env (?n + 2)", simplified timer.simps, folded at_def before_def, OF assms(3)]
  consider (due) "at \<le> before" | (long) "before < at" "60000 \<le> unat ms" | (filed) "before < at" "unat ms < 60000"
    by linarith
  then show ?thesis
  proof cases
    case due
    then have "?add = Inr (no_timer, ?w, [co])"
      using cases(1) by (simp add: quiet_apply [of co ?w])
    then show ?thesis using due assms(1)
      by (simp add: co_add_timer_def Let_def schedule_co_def push_ready_def suspend_def)
  next
    case long
    then have "?add = Inr (no_timer, ?w, [])" using cases(2) by simp
    then show ?thesis using long by (simp add: co_add_timer_def Let_def suspend_def)
  next
    case filed
    note filing = file_then_triggers [OF assms(2), of "sys_clock env ?n" ?ti, simplified timer.simps, folded at_def before_def,
        OF assms(3) filed, of quiet "sys_clock env (?n + 1)" "sys_clock env (?n + 2)"]
    obtain i w where w: "?add = Inr (i, w, [])" "wf_wheel w"
        "\<forall>ts t. -1 \<notin> set (ts @ [t]) \<and> sorted (map slot_time (ts @ [t])) \<longrightarrow>
          (\<exists>w2 fired. tw.triggers (ts @ [t]) w = Some (w2, fired)
           \<and> mset fired = mset (map snd (filter (\<lambda>d. fst d \<le> slot_time t) (due_callbacks ?w)))
               + (if due_time before at \<le> slot_time t then {#co#} else {#})
           \<and> mset (due_callbacks w2) = mset (filter (\<lambda>d. slot_time t < fst d) (due_callbacks ?w))
               + (if due_time before at \<le> slot_time t then {#} else {#(due_time before at, co)#}))"
      by (rule filing)
    let ?st = "suspend co p (st\<lparr>co_wheel := w, clock_calls := ?n + 3\<rparr>)"
    have run: "run_co env co (Co_sleep ms p) st = Inr ?st"
      using w(1) by (simp add: co_add_timer_def Let_def)
    have events: "\<exists>st''. timers_events (ts @ [t]) ?st = Some (Inr st'')
        \<and> mset (ready_queue st'') = mset (ready_queue st)
            + mset (map snd (filter (\<lambda>d. fst d \<le> slot_time t) (due_callbacks ?w)))
            + (if due_time before at \<le> slot_time t then {#co#} else {#})"
      if ts: "-1 \<notin> set (ts @ [t]) \<and> sorted (map slot_time (ts @ [t]))" for ts t
    proof -
      obtain w2 fired where trig: "tw.triggers (ts @ [t]) w = Some (w2, fired)"
          and fired: "mset fired = mset (map snd (filter (\<lambda>d. fst d \<le> slot_time t) (due_callbacks ?w)))
               + (if due_time before at \<le> slot_time t then {#co#} else {#})"
        using w(3) ts by blast
      have "co_wheel ?st = w" by (simp add: suspend_def)
      with trig have "timers_events (ts @ [t]) ?st = Some (Inr (woken fired (?st\<lparr>co_wheel := w2\<rparr>)))"
        by (intro timers_events_woken) (simp only:)
      moreover have "ready_queue (woken fired (?st\<lparr>co_wheel := w2\<rparr>)) = ready_queue st @ fired"
        by (simp add: woken_def suspend_def)
      ultimately show ?thesis using fired by (intro exI [of _ "woken fired (?st\<lparr>co_wheel := w2\<rparr>)"]) simp
    qed
    have near: "at \<le> before + 60000 \<longrightarrow> due_time before at = at"
      using due_time_near [OF filed(1)] assms(2) by (simp add: before_def at_def wf_wheel_def slot_time_bounds)
    have "ready_queue ?st = ready_queue st" "suspended ?st co = Some p" by (simp_all add: suspend_def)
    then show ?thesis using filed run near events
      by (intro exI [of _ ?st] conjI) (simp_all only: not_le [symmetric] if_False simp_thms, blast?)
  qed
qed

text \<open>
  A coroutine that reads and then writes one descriptor, with both calls blocking the first
  time: the state in which it waits for the first, and for the second.
\<close>

definition read_write :: "int \<Rightarrow> co_prog" where
  "read_write fd = Co_io READ fd (\<lambda>_. Co_io WRITE fd (\<lambda>_. Co_end))"

definition waiting_co :: "u64 \<Rightarrow> int \<Rightarrow> (event_type \<Rightarrow> bool) \<Rightarrow> nat list \<Rightarrow> nat \<Rightarrow> co_prog \<Rightarrow> co_state" where
  "waiting_co now fd evs past calls p =
     (co_init now)\<lparr>co_map := {0}, co_count := 1, next_co := 1, suspended := [0 \<mapsto> p],
       scheduled := past, resumed := past, io_calls := calls, fd_map := [fd \<mapsto> 0], next_addr := 1,
       chans := [0 \<mapsto> \<lparr>ch_fd = fd, is_once = True, cb_arr = (\<lambda>et. if evs et then Some 0 else None),
                       trigger_arr = (\<lambda>_. False), enable_arr = evs\<rparr>],
       fd_set := {fd}, event_count := 1,
       epoll := [fd \<mapsto> \<lparr>i_ptr = 0, i_in = evs READ, i_out = evs WRITE, i_oneshot = True\<rparr>]\<rparr>"

lemma run_first:
  assumes "0 \<le> fd" and "sys_io env 0 < 0"
  shows "run_handler env (one_co now (Co_io READ fd k)) =
    Inr (waiting_co now fd ((\<lambda>_. False)(READ := True)) [0] 1 (Co_call k))"
  using assms
  by (simp add: run_handler_def handle_loop.simps one_co_def co_init_def resume_co_def
      fd_channel_def get_channel_def new_channel_def set_once_def with_channel_def put_channel_def sys_call_def
      co_wait_def enable_event_def ch_enable_def update_channel_def Let_def suspend_def waiting_co_def wanted_def
      fun_eq_iff)

lemma poll_waiting:
  assumes reach: "co_reach env (waiting_co now fd evs past calls p)" (is "co_reach env ?st")
    and "r \<and> evs READ \<or> w \<and> evs WRITE"
  shows "poll wake_co [(fd, r, w)] ?st =
    Inr (woken ((if evs READ \<and> r then [0] else []) @ (if evs WRITE \<and> w then [0] else []))
          (?st\<lparr>epoll := [fd \<mapsto> \<lparr>i_ptr = 0, i_in = False, i_out = False, i_oneshot = True\<rparr>]\<rparr>))"
proof -
  have "io_inv ?st" using co_reach_inv [OF reach] by (simp add: co_inv_def)
  from poll_wakes [OF this, of "[(fd, r, w)]"] assms(2) show ?thesis
    by (auto simp: waiting_co_def ready_calls_def calls_at_def report_of_def calls_of_def disarm_def)
qed

lemma not_READ: "(et \<noteq> READ) = (et = WRITE)"
  by (cases et) simp_all

lemma run_second:
  assumes "0 \<le> fd" and "sys_io env 2 < 0"
  shows "run_handler env (woken [0] ((waiting_co now fd ((\<lambda>_. False)(READ := True)) [0] 1
        (Co_call (\<lambda>_. Co_io WRITE fd (\<lambda>_. Co_end))))
        \<lparr>epoll := [fd \<mapsto> \<lparr>i_ptr = 0, i_in = False, i_out = False, i_oneshot = True\<rparr>]\<rparr>)) =
    Inr (waiting_co now fd (\<lambda>_. True) [0, 0] 3 (Co_call (\<lambda>_. Co_end)))"
  using assms
  by (simp add: run_handler_def handle_loop.simps co_init_def resume_co_def woken_def
      fd_channel_def with_channel_def put_channel_def sys_call_def numeral_2_eq_2 numeral_3_eq_3
      co_wait_def enable_event_def ch_enable_def update_channel_def Let_def suspend_def waiting_co_def wanted_def
      fun_eq_iff not_READ)

lemma run_third:
  "run_handler env (woken [0, 0] ((waiting_co now fd (\<lambda>_. True) [0, 0] 3 (Co_call (\<lambda>_. Co_end)))
      \<lparr>epoll := [fd \<mapsto> \<lparr>i_ptr = 0, i_in = False, i_out = False, i_oneshot = True\<rparr>]\<rparr>)) = Inl Dead_object"
  by (simp add: run_handler_def handle_loop.simps co_init_def resume_co_def woken_def
      sys_call_def Let_def release_co_def waiting_co_def)

lemma waiting_reach:
  assumes "0 \<le> fd" and "sys_io env 0 < 0"
  shows "co_reach env (waiting_co now fd ((\<lambda>_. False)(READ := True)) [0] 1 (Co_call k))"
  by (rule co_reach.step [OF one_co_reach [of env now "Co_io READ fd k"] co_step.handler])
    (use run_first [OF assms, of now] in simp_all)

text \<open>
  A coroutine that reads a descriptor and then writes it, where both calls block at first,
  can take the process down. The read leaves its event enabled, so the wait for the write
  arms both; when the descriptor is readable and writable in one poll, the coroutine is made
  ready twice, once by each event. The first time it goes on and ends; the second time a
  coroutine that has ended is resumed, and it returns to the null address on its stack.
\<close>

theorem double_wakeup_crashes:
  assumes "0 \<le> fd" and "sys_io env 0 < 0" and "sys_io env 2 < 0"
  shows "\<exists>st1 st2 st3 st4 st5. co_reach env st1 \<and> suspended st1 0 = Some (read_write fd)
    \<and> run_handler env st1 = Inr st2 \<and> poll wake_co [(fd, True, False)] st2 = Inr st3
    \<and> run_handler env st3 = Inr st4 \<and> poll wake_co [(fd, True, True)] st4 = Inr st5
    \<and> co_reach env st5 \<and> ready_queue st5 = [0, 0] \<and> run_handler env st5 = Inl Dead_object"
proof -
  let ?gone = "[fd \<mapsto> \<lparr>i_ptr = 0, i_in = False, i_out = False, i_oneshot = True\<rparr>]"
  let ?st2 = "waiting_co 0 fd ((\<lambda>_. False)(READ := True)) [0] 1 (Co_call (\<lambda>_. Co_io WRITE fd (\<lambda>_. Co_end)))"
  let ?st3 = "woken [0] (?st2\<lparr>epoll := ?gone\<rparr>)"
  let ?st4 = "waiting_co 0 fd (\<lambda>_. True) [0, 0] 3 (Co_call (\<lambda>_. Co_end))"
  let ?st5 = "woken [0, 0] (?st4\<lparr>epoll := ?gone\<rparr>)"
  have r2: "co_reach env ?st2" by (rule waiting_reach [OF assms(1,2)])
  have p3: "poll wake_co [(fd, True, False)] ?st2 = Inr ?st3" using poll_waiting [OF r2, of True False] by simp
  have r3: "co_reach env ?st3" by (rule co_reach.step [OF r2 co_step.events [OF _ p3]]) simp
  note h4 = run_second [OF assms(1,3), of 0]
  have r4: "co_reach env ?st4"
    by (rule co_reach.step [OF r3 co_step.handler [OF _ h4]]) (simp add: woken_def waiting_co_def co_init_def)
  have p5: "poll wake_co [(fd, True, True)] ?st4 = Inr ?st5" using poll_waiting [OF r4, of True True] by simp
  have r5: "co_reach env ?st5" by (rule co_reach.step [OF r4 co_step.events [OF _ p5]]) simp
  have "ready_queue ?st5 = [0, 0]" by (simp add: woken_def waiting_co_def co_init_def)
  then show ?thesis
    using one_co_reach [of env 0 "read_write fd"]
      run_first [OF assms(1,2), of 0 "\<lambda>_. Co_io WRITE fd (\<lambda>_. Co_end)", folded read_write_def] p3 h4 p5 r5 run_third [of env fd 0]
    by (intro exI [of _ "one_co 0 (read_write fd)"] exI [of _ ?st2] exI [of _ ?st3] exI [of _ ?st4] exI [of _ ?st5])
      (intro conjI; simp only: one_co_simps fun_upd_same)
qed

theorem double_wakeup_crashes_witness:
  "\<exists>st5. co_reach calm_env st5 \<and> ready_queue st5 = [0, 0] \<and> run_handler calm_env st5 = Inl Dead_object"
proof -
  have "sys_io calm_env 0 < 0" "sys_io calm_env 2 < 0" by (simp_all add: calm_env_def)
  from double_wakeup_crashes [OF _ this, of 5] show ?thesis by auto
qed

theorem first_waiter_woken_witness:
  "\<exists>st st' st'' co. co_reach calm_env st \<and> co_wait 0 READ 7 st = Inr st'
    \<and> poll wake_co [(5, True, False)] st' = Inr st'' \<and> ready_queue st'' = [0]"
proof -
  let ?st = "waiting_co 0 5 ((\<lambda>_. False)(READ := True)) [0] 1 (Co_call (\<lambda>_. Co_io WRITE 5 (\<lambda>_. Co_end)))"
  let ?ch = "\<lparr>ch_fd = 5, is_once = True, cb_arr = (\<lambda>et. if et = READ then Some 0 else None),
     trigger_arr = (\<lambda>_. False), enable_arr = (\<lambda>_. False)(READ := True)\<rparr>"
  have reach: "co_reach calm_env ?st" by (rule waiting_reach) (simp_all add: calm_env_def)
  have ch: "chans ?st 0 = Some ?ch" by (simp add: waiting_co_def fun_eq_iff)
  from first_waiter_woken [OF reach ch, of READ 7] obtain st' where st': "co_wait 0 READ 7 ?st = Inr st'"
      "poll wake_co [(5, True, False)] st' = Inr (woken [0]
        (st'\<lparr>epoll := snd (epoll_wait (event_count st') [(5, True, False)] (epoll st'))\<rparr>))" by auto
  have "ready_queue st' = []"
    using same_co_wait [OF st'(1)] by (simp add: same_co_def waiting_co_def co_init_def)
  then show ?thesis using st' reach by (intro exI conjI) (assumption, assumption, assumption, simp add: woken_def)
qed

theorem co_sleep_outcome_witness:
  "\<exists>st'. run_co calm_env 0 (Co_sleep 70000 Co_end) (one_co 1000 Co_end) = Inr st' \<and> ready_queue st' = [0]
    \<and> co_wheel st' = new_wheel 1000"
proof -
  let ?st = "one_co 1000 Co_end"
  have "wf_wheel (new_wheel 1000 :: nat wheel) \<and> agenda (new_wheel 1000 :: nat wheel) = []"
    by (rule wf_new_wheel) simp
  then have "is_schedule ?st" "wf_wheel (co_wheel ?st)" by (simp_all add: one_co_def co_init_def)
  moreover have "calm (sys_clock calm_env (clock_calls ?st)) 70000"
    by (simp add: calm_env_def calm_def)
  ultimately show ?thesis
    using co_sleep_outcome [of ?st calm_env 70000 0 Co_end]
    by (auto simp: calm_env_def slot_time_def new_wheel_def get_slot_timestamp_def every_ms_def)
qed

end
