(* ===== verification/HttpCoroutine.thy ===== *)
theory HttpCoroutine
  imports HttpServer Scheduling
begin

text \<open>
  The connection handler of \<open>HTTPServer2\<close> as the program of a coroutine
  (src/src/http/HTTPServer2.cpp over src/src/co/co_fun.cpp): each read and each write of the
  handler is a \<open>co_read\<close> or \<open>co_write\<close> at which the coroutine may be suspended, and the last
  thing it does is \<open>co_close\<close>. \<open>HttpServer\<close> has the handler as a function of the results of
  its calls; here both are shown to agree, and the program is run on the scheduler. The bytes
  the peer sends are one text, of which a read takes as many as it returns.
\<close>

section \<open>The program of a connection\<close>

text \<open>A call that fails gives \<open>-1\<close>; the handler does not look at \<open>errno\<close>.\<close>

definition read_of :: "int \<Rightarrow> string \<Rightarrow> read_res" where
  "read_of r inp = (if r < 0 then Read_fail EAGAIN else Read_data (take (nat r) inp))"

definition write_of :: "int \<Rightarrow> write_res" where
  "write_of r = (if r < 0 then Write_fail EAGAIN else Write_count (nat r))"

definition or_throw :: "'a res \<Rightarrow> ('a \<Rightarrow> co_prog) \<Rightarrow> co_prog" where
  "or_throw r k = (case r of Inl e \<Rightarrow> Co_throw e | Inr x \<Rightarrow> k x)"

lemma or_throw_simps [simp]: "or_throw (Inl e) k = Co_throw e" "or_throw (Inr x) k = k x"
  by (simp_all add: or_throw_def)

lemma or_throw_bind: "or_throw (bind_res r f) k = or_throw r (\<lambda>x. or_throw (f x) k)"
  by (cases r) simp_all

lemma or_throw_cong [fundef_cong]:
  "r = r' \<Longrightarrow> (\<And>x. r' = Inr x \<Longrightarrow> k x = k' x) \<Longrightarrow> or_throw r k = or_throw r' k'"
  by (cases r') simp_all

lemma got_consumes:
  assumes "(d, b1) = push_from (read_of r inp) b" and "delivered d \<noteq> []"
  shows "inp \<noteq> [] \<and> 0 < length (delivered d)"
  using assms by (cases inp) (auto simp: read_of_def push_from_eq split: if_splits)

text \<open>The loop of reads; \<open>fin\<close> is what follows it.\<close>

function recv_prog ::
  "code_map \<Rightarrow> path_table \<Rightarrow> (recv_result \<Rightarrow> co_prog) \<Rightarrow> int \<Rightarrow> string \<Rightarrow> buffer \<Rightarrow> parser \<Rightarrow> co_prog" where
  "recv_prog cm cbs fin fd inp b p = co_read fd (\<lambda>r.
     let (d, b1) = push_from (read_of r inp) b
     in if delivered d = [] then fin (Recv_done (-1) b1 None)
        else or_throw (parser_message cm (block_of b1) (int (left_read_ptr b1)) (length (delivered d)) p)
          (\<lambda>(ok, p1).
             if \<not> ok then fin (Recv_done 400 b1 None)
             else if is_completed p1 then or_throw (on_completed cbs b1 p1) fin
             else recv_prog cm cbs fin fd (drop (length (delivered d)) inp) b1 p1))"
  by pat_completeness auto
termination
  by (relation "measure (\<lambda>(cm, cbs, fin, fd, inp, b, p). length inp)") (simp_all add: got_consumes)

declare recv_prog.simps [simp del]

text \<open>The writer's callback: one \<open>co_write\<close> of what the buffer holds, for each piece.\<close>

primrec send_prog :: "int \<Rightarrow> string list \<Rightarrow> sink \<Rightarrow> (sink \<Rightarrow> co_prog) \<Rightarrow> co_prog" where
  "send_prog fd [] st k = k st"
| "send_prog fd (s # ss) st k = co_write fd (\<lambda>r. send_prog fd ss (put_piece (\<lambda>_. write_of r) s st) k)"

definition send_reply ::
  "(sink \<Rightarrow> code_map \<Rightarrow> co_prog) \<Rightarrow> int \<Rightarrow> int \<Rightarrow> buffer \<Rightarrow> (string list \<times> code_map) res \<Rightarrow> co_prog" where
  "send_reply after fd c b r =
     or_throw r (\<lambda>(pieces, cm). send_prog fd pieces (start_sink c b) (\<lambda>st. after st cm))"

text \<open>What follows the loop; \<open>Recv_waiting\<close> is no result of the program's loop.\<close>

definition respond_prog ::
  "code_map \<Rightarrow> http_response \<Rightarrow> (sink \<Rightarrow> code_map \<Rightarrow> co_prog) \<Rightarrow> int \<Rightarrow> recv_result \<Rightarrow> co_prog" where
  "respond_prog cm res0 after fd rr =
     (case rr of
        Recv_waiting b p \<Rightarrow> Co_end
      | Recv_done c b req \<Rightarrow>
          if c = 200 then
            (case req of
               None \<Rightarrow> Co_throw Dead_object
             | Some (m, cb) \<Rightarrow> send_reply after fd c b (write_response cm (cb (block_of b) m res0)))
          else if 0 \<le> c then send_reply after fd c b (write_error_response_message cm c)
          else after (start_sink c b) cm)"

definition http_prog ::
  "code_map \<Rightarrow> path_table \<Rightarrow> http_response \<Rightarrow> http_version \<Rightarrow> int \<Rightarrow> (sink \<Rightarrow> code_map \<Rightarrow> co_prog)
     \<Rightarrow> string \<Rightarrow> int \<Rightarrow> co_prog" where
  "http_prog cm cbs res0 v0 c0 after inp fd =
     recv_prog cm cbs (respond_prog cm res0 after fd) fd inp new_buffer (new_parser True v0 c0)"

text \<open>The \<open>user_cb\<close> the HTTP server gives to the coroutine server.\<close>

definition http_user_cb ::
  "code_map \<Rightarrow> path_table \<Rightarrow> http_response \<Rightarrow> http_version \<Rightarrow> int \<Rightarrow> string \<Rightarrow> int \<Rightarrow> co_prog" where
  "http_user_cb cm cbs res0 v0 c0 inp fd =
     http_prog cm cbs res0 v0 c0 (\<lambda>st cm'. Co_close fd Co_end) inp fd"

section \<open>The program and the handler\<close>

text \<open>A program after its calls have returned, each after as many suspensions as it took.\<close>

definition answer :: "int \<Rightarrow> co_prog \<Rightarrow> co_prog" where
  "answer r p = (case p of Co_io et fd k \<Rightarrow> k r | Co_call k \<Rightarrow> k r | _ \<Rightarrow> p)"

definition answered :: "int list \<Rightarrow> co_prog \<Rightarrow> co_prog" where
  "answered rs p = fold answer rs p"

lemma answered_simps [simp]:
  "answered [] p = p"
  "answered (r # rs) (Co_io et fd k) = answered rs (k r)"
  "answered (r # rs) (Co_call k) = answered rs (k r)"
  "answered (rs @ qs) p = answered qs (answered rs p)"
  by (simp_all add: answered_def answer_def)

text \<open>The results of the reads as the handler's function takes them.\<close>

primrec deliver :: "int list \<Rightarrow> string \<Rightarrow> read_res list" where
  "deliver [] inp = []"
| "deliver (r # rs) inp = read_of r inp # deliver rs (drop (nat r) inp)"

lemma send_prog_answered:
  "answered (map ws [sk_writes st ..< sk_writes st + length ss]) (send_prog fd ss st k)
     = k (emit (put_piece (\<lambda>i. write_of (ws i))) ss st)
   \<and> sk_writes (emit (put_piece (\<lambda>i. write_of (ws i))) ss st) = sk_writes st + length ss"
proof (induction ss arbitrary: st)
  case (Cons s ss)
  have put: "put_piece (\<lambda>_. write_of (ws (sk_writes st))) s st = put_piece (\<lambda>i. write_of (ws i)) s st"
    by (simp add: put_piece_def)
  have "[sk_writes st ..< sk_writes st + length (s # ss)]
      = sk_writes st # [Suc (sk_writes st) ..< Suc (sk_writes st) + length ss]"
    by (simp add: upt_conv_Cons del: upt_Suc)
  then show ?case
    using Cons.IH [of "put_piece (\<lambda>i. write_of (ws i)) s st"]
    by (simp add: co_write_def put put_piece_fields)
qed simp

text \<open>A read that asks for at least 512 bytes, as the buffer does, delivers what it returns.\<close>

lemma read_delivers:
  assumes "wf_buffer b" and "init_capa \<le> vcap (buf b)" and "r \<le> 512"
  shows "delivered (fst (push_from (read_of r inp) b)) = delivered (read_of r inp)"
    and "drop (length (delivered (read_of r inp))) inp = drop (nat r) inp"
proof -
  have "512 \<le> remain_right (grow_for_read b)"
    using assms(1,2) by (auto simp: grow_for_read_def remain_right_def init_capa_def vec_resize_def
        wf_buffer_def wf_cvec_def)
  then show "delivered (fst (push_from (read_of r inp) b)) = delivered (read_of r inp)"
    using assms(3) by (auto simp: read_of_def push_from_eq)
  show "drop (length (delivered (read_of r inp))) inp = drop (nat r) inp"
    by (auto simp: read_of_def min_def)
qed

lemma recv_prog_answered:
  assumes "wf_buffer b" and "init_capa \<le> vcap (buf b)" and "\<forall>r \<in> set rs. r \<le> 512"
  shows "case recv_loop cm cbs (deliver rs inp) b p of
      Inl e \<Rightarrow> \<exists>n. answered (take n rs) (recv_prog cm cbs fin fd inp b p) = Co_throw e
    | Inr rr \<Rightarrow> (case rr of
        Recv_waiting b' p' \<Rightarrow> answered rs (recv_prog cm cbs fin fd inp b p)
            = recv_prog cm cbs fin fd (drop (sum_list (map nat rs)) inp) b' p'
      | Recv_done c b' req \<Rightarrow> \<exists>n. answered (take n rs) (recv_prog cm cbs fin fd inp b p) = fin rr)"
  using assms
proof (induction rs arbitrary: inp b p)
  case Nil
  then show ?case by simp
next
  case (Cons r rs)
  let ?goal = "\<lambda>x p0. case x of
      Inl e \<Rightarrow> \<exists>n. answered (take n (r # rs)) p0 = Co_throw e
    | Inr rr \<Rightarrow> (case rr of
        Recv_waiting b' p' \<Rightarrow> answered (r # rs) p0
            = recv_prog cm cbs fin fd (drop (sum_list (map nat (r # rs))) inp) b' p'
      | Recv_done c b' req \<Rightarrow> \<exists>n. answered (take n (r # rs)) p0 = fin rr)"
  obtain d b1 where pf: "push_from (read_of r inp) b = (d, b1)" by fastforce
  have d: "delivered d = delivered (read_of r inp)" "drop (length (delivered d)) inp = drop (nat r) inp"
    using read_delivers [OF Cons.prems(1,2), of r inp] Cons.prems(3) pf by auto
  have b1: "wf_buffer b1" "init_capa \<le> vcap (buf b1)"
    using wf_push_from [OF Cons.prems(1), of "read_of r inp"]
      init_capa_le_push_from [OF Cons.prems(2), of "read_of r inp"] pf by simp_all
  let ?k = "\<lambda>r. let (d, b1) = push_from (read_of r inp) b
     in if delivered d = [] then fin (Recv_done (-1) b1 None)
        else or_throw (parser_message cm (block_of b1) (int (left_read_ptr b1)) (length (delivered d)) p)
          (\<lambda>(ok, p1).
             if \<not> ok then fin (Recv_done 400 b1 None)
             else if is_completed p1 then or_throw (on_completed cbs b1 p1) fin
             else recv_prog cm cbs fin fd (drop (length (delivered d)) inp) b1 p1)"
  have prog: "recv_prog cm cbs fin fd inp b p = Co_io READ fd ?k"
    by (simp add: recv_prog.simps [of cm cbs fin fd inp b p] co_read_def)
  have loop: "recv_loop cm cbs (deliver (r # rs) inp) b p =
      (if delivered d = [] then Inr (Recv_done (-1) b1 None)
       else bind_res (parser_message cm (block_of b1) (int (left_read_ptr b1)) (length (delivered d)) p)
           (\<lambda>(ok, p1).
              if \<not> ok then Inr (Recv_done 400 b1 None)
              else if is_completed p1 then on_completed cbs b1 p1
              else recv_loop cm cbs (deliver rs (drop (nat r) inp)) b1 p1))"
    using pf by simp
  have one: "\<exists>n. answered (take n (r # rs)) (recv_prog cm cbs fin fd inp b p) = q" if "?k r = q" for q
    unfolding prog by (rule exI [of _ 1]) (use that in \<open>simp only: take_Suc_Cons One_nat_def take_0 answered_simps\<close>)
  show ?case
  proof (cases "delivered d = []")
    case True
    then show ?thesis unfolding loop by (simp add: one pf)
  next
    case False
    show ?thesis
    proof (cases "parser_message cm (block_of b1) (int (left_read_ptr b1)) (length (delivered d)) p")
      case (Inl e)
      then show ?thesis unfolding loop using False by (simp add: one pf)
    next
      case (Inr okp)
      obtain ok p1 where okp: "okp = (ok, p1)" by fastforce
      consider "\<not> ok" | "ok" "is_completed p1" | "ok" "\<not> is_completed p1" by blast
      then show ?thesis
      proof cases
        case 1
        then show ?thesis unfolding loop using False Inr okp by (simp add: one pf)
      next
        case 2
        have fin: "?k r = or_throw (on_completed cbs b1 p1) fin" using 2 False Inr okp pf by simp
        have "recv_loop cm cbs (deliver (r # rs) inp) b p = on_completed cbs b1 p1"
          unfolding loop using 2 False Inr okp by simp
        moreover have "on_completed cbs b1 p1 \<noteq> Inr (Recv_waiting b' p')" for b' p'
          by (auto simp: on_completed_def bind_res_Inr_iff split: option.splits)
        ultimately show ?thesis using one [OF fin]
          by (cases "on_completed cbs b1 p1") (auto split: recv_result.splits)
      next
        case 3
        have k: "?k r = recv_prog cm cbs fin fd (drop (nat r) inp) b1 p1" using 3 False Inr okp pf d(2) by simp
        have lp: "recv_loop cm cbs (deliver (r # rs) inp) b p = recv_loop cm cbs (deliver rs (drop (nat r) inp)) b1 p1"
          unfolding loop using 3 False Inr okp by simp
        have more: "answered (r # qs) (recv_prog cm cbs fin fd inp b p)
            = answered qs (recv_prog cm cbs fin fd (drop (nat r) inp) b1 p1)" for qs
          unfolding prog by (simp only: answered_simps k)
        have less: "\<exists>n. answered (take n (r # rs)) (recv_prog cm cbs fin fd inp b p) = q"
          if "\<exists>n. answered (take n rs) (recv_prog cm cbs fin fd (drop (nat r) inp) b1 p1) = q" for q
          using that more by (metis take_Suc_Cons)
        have "\<forall>r \<in> set rs. r \<le> 512" using Cons.prems(3) by simp
        note IH = Cons.IH [OF b1 this, of "drop (nat r) inp" p1]
        show ?thesis unfolding lp using IH less more [of rs]
          by (auto simp: add.commute split: sum.splits recv_result.splits)
      qed
    qed
  qed
qed

text \<open>
  The program of a connection is the handler. Whatever the reads return, each at most the 512
  bytes the buffer always asks for, and whatever the writes return, the program whose calls
  have had these results is where the handler of \<open>HttpServer\<close> is: before its last operation
  with the same bytes sent and pending, at its next read, or at the exception the handler ends with.
\<close>

theorem http_prog_is_handler:
  assumes "\<forall>r \<in> set rs. r \<le> 512"
  shows "let prog = http_prog cm cbs res0 v0 c0 after inp fd in
    case http_handler cm cbs res0 v0 c0 (deliver rs inp) (\<lambda>i. write_of (ws i)) of
      Inl e \<Rightarrow> \<exists>n. answered (take n rs) prog = Co_throw e
    | Inr hr \<Rightarrow> (case hr of
        Handler_waiting b p \<Rightarrow> answered rs prog
          = recv_prog cm cbs (respond_prog cm res0 after fd) fd (drop (sum_list (map nat rs)) inp) b p
      | Handler_closed st cm' \<Rightarrow> \<exists>n. answered (take n rs @ map ws [0..<sk_writes st]) prog = after st cm')"
proof -
  let ?fin = "respond_prog cm res0 after fd" and ?w = "\<lambda>i. write_of (ws i)"
  let ?rr = "recv_loop cm cbs (deliver rs inp) new_buffer (new_parser True v0 c0)"
  have "init_capa \<le> vcap (buf new_buffer)" by (simp add: new_buffer_def vec_new_def)
  note recv = recv_prog_answered [OF wf_new_buffer this assms, where p = "new_parser True v0 c0" and inp = inp
      and cm = cm and cbs = cbs and fin = ?fin and fd = fd]
  have send: "case send_pieces ?w (start_sink c b) r of
        Inl e \<Rightarrow> send_reply after fd c b r = Co_throw e
      | Inr hr \<Rightarrow> (case hr of Handler_waiting b p \<Rightarrow> False
          | Handler_closed st cm' \<Rightarrow> answered (map ws [0..<sk_writes st]) (send_reply after fd c b r) = after st cm')"
    for c b r
    using send_prog_answered [of ws "start_sink c b"]
    by (cases r) (auto simp: send_pieces_def send_reply_def start_sink_def)
  have resp: "case http_respond cm res0 ?w (Recv_done c b req) of
        Inl e \<Rightarrow> ?fin (Recv_done c b req) = Co_throw e
      | Inr hr \<Rightarrow> (case hr of Handler_waiting b p \<Rightarrow> False
          | Handler_closed st cm' \<Rightarrow> answered (map ws [0..<sk_writes st]) (?fin (Recv_done c b req)) = after st cm')"
    for c b req
  proof -
    have fin: "?fin (Recv_done c b req) = (if c = 200 then
            (case req of None \<Rightarrow> Co_throw Dead_object
             | Some (m, cb) \<Rightarrow> send_reply after fd c b (write_response cm (cb (block_of b) m res0)))
          else if 0 \<le> c then send_reply after fd c b (write_error_response_message cm c)
          else after (start_sink c b) cm)"
      by (simp add: respond_prog_def)
    have "sk_writes (start_sink c b) = 0" by (simp add: start_sink_def)
    then show ?thesis unfolding fin using send [of c b]
      by (cases "c = 200"; simp add: http_respond_def split: option.split prod.split)
  qed
  show ?thesis
  proof (cases ?rr)
    case (Inl e)
    then show ?thesis using recv by (simp add: http_handler_def http_prog_def)
  next
    case (Inr rr)
    show ?thesis
    proof (cases rr)
      case (Recv_waiting b p)
      then show ?thesis using recv Inr by (simp add: http_handler_def http_prog_def http_respond_def)
    next
      case (Recv_done c b req)
      then obtain n where n: "answered (take n rs) (http_prog cm cbs res0 v0 c0 after inp fd) = ?fin (Recv_done c b req)"
        using recv Inr by (auto simp: http_prog_def)
      show ?thesis using resp [of c b req] n Inr Recv_done
        by (auto simp: http_handler_def split: sum.splits handler_result.splits intro!: exI [of _ n])
    qed
  qed
qed

section \<open>A connection on the scheduler\<close>

text \<open>A descriptor that has its channel: calls that do not block run on without the scheduler.\<close>

lemma run_sends:
  assumes "fd_map st fd = Some a" and "\<And>i. i < length ss \<Longrightarrow> 0 \<le> sys_io env (io_calls st + i)"
    and "\<And>i. w (sk_writes sk + i) = write_of (sys_io env (io_calls st + i))"
  shows "run_co env co (send_prog fd ss sk k) st
    = run_co env co (k (emit (put_piece w) ss sk)) (st\<lparr>io_calls := io_calls st + length ss\<rparr>)"
  using assms
proof (induction ss arbitrary: sk st)
  case (Cons s ss)
  let ?st = "st\<lparr>io_calls := io_calls st + 1\<rparr>"
  have put: "put_piece (\<lambda>_. write_of (sys_io env (io_calls st))) s sk = put_piece w s sk"
    using Cons.prems(3) [of 0] by (simp add: put_piece_def)
  have "run_co env co (send_prog fd ss (put_piece w s sk) k) ?st
      = run_co env co (k (emit (put_piece w) ss (put_piece w s sk))) (?st\<lparr>io_calls := io_calls ?st + length ss\<rparr>)"
  proof (rule Cons.IH)
    show "fd_map ?st fd = Some a" using Cons.prems(1) by simp
    show "0 \<le> sys_io env (io_calls ?st + i)" if "i < length ss" for i
      using Cons.prems(2) [of "Suc i"] that by simp
    show "w (sk_writes (put_piece w s sk) + i) = write_of (sys_io env (io_calls ?st + i))" for i
      using Cons.prems(3) [of "Suc i"] by (simp add: put_piece_fields)
  qed
  then show ?case
    using Cons.prems(1) Cons.prems(2) [of 0]
    by (simp add: co_write_def fd_channel_def sys_call_def put)
qed simp

lemma run_sends_then:
  assumes "fd_map st fd = Some a" and "\<And>i. i < length ss \<Longrightarrow> 0 \<le> sys_io env (io_calls st + i)"
  shows "run_co env co (send_prog fd ss sk (\<lambda>_. q)) st = run_co env co q (st\<lparr>io_calls := io_calls st + length ss\<rparr>)"
  by (rule run_sends [OF assms, where w = "\<lambda>i. write_of (sys_io env (io_calls st + (i - sk_writes sk)))"]) simp_all

text \<open>A call that blocks suspends the coroutine before it.\<close>

lemma run_sends_blocked:
  assumes "fd_map st fd = Some a" and "\<And>i. i < length xs \<Longrightarrow> 0 \<le> sys_io env (io_calls st + i)"
    and "sys_io env (io_calls st + length xs) < 0"
  shows "\<exists>sk'. run_co env co (send_prog fd (xs @ x # ys) sk k) st =
    bind_res (co_wait a WRITE co (st\<lparr>io_calls := io_calls st + length xs + 1\<rparr>)) (\<lambda>st1.
    Inr (suspend co (Co_call (\<lambda>r. send_prog fd ys (put_piece (\<lambda>_. write_of r) x sk') k)) st1))"
  using assms
proof (induction xs arbitrary: sk st)
  case Nil
  then show ?case by (auto simp: co_write_def fd_channel_def sys_call_def)
next
  case (Cons s xs)
  let ?st = "st\<lparr>io_calls := io_calls st + 1\<rparr>" and ?sk = "put_piece (\<lambda>_. write_of (sys_io env (io_calls st))) s sk"
  have "\<exists>sk'. run_co env co (send_prog fd (xs @ x # ys) ?sk k) ?st =
    bind_res (co_wait a WRITE co (?st\<lparr>io_calls := io_calls ?st + length xs + 1\<rparr>)) (\<lambda>st1.
    Inr (suspend co (Co_call (\<lambda>r. send_prog fd ys (put_piece (\<lambda>_. write_of r) x sk') k)) st1))"
  proof (rule Cons.IH)
    show "fd_map ?st fd = Some a" using Cons.prems(1) by simp
    show "0 \<le> sys_io env (io_calls ?st + i)" if "i < length xs" for i
      using Cons.prems(2) [of "Suc i"] that by simp
    show "sys_io env (io_calls ?st + length xs) < 0" using Cons.prems(3) by simp
  qed
  then show ?case
    using Cons.prems(1) Cons.prems(2) [of 0]
    by (simp add: co_write_def fd_channel_def sys_call_def)
qed

text \<open>
  The coroutine of the one connection while it runs, resumed by an event that disarmed the
  registration, with the coroutines \<open>q\<close> behind it; and the scheduler when it has ended: it is in
  the pool and its channel is gone. (The list of events of the poller never shrinks.)
\<close>

definition running_co :: "u64 \<Rightarrow> int \<Rightarrow> (event_type \<Rightarrow> bool) \<Rightarrow> nat list \<Rightarrow> nat list \<Rightarrow> nat \<Rightarrow> co_state" where
  "running_co now fd evs q past calls =
     (waiting_co now fd evs past calls Co_end)\<lparr>suspended := Map.empty, ready_queue := q, scheduled := past @ q,
       is_schedule := True, epoll := [fd \<mapsto> \<lparr>i_ptr = 0, i_in = False, i_out = False, i_oneshot = True\<rparr>]\<rparr>"

definition served_co :: "u64 \<Rightarrow> nat list \<Rightarrow> nat list \<Rightarrow> nat \<Rightarrow> co_state" where
  "served_co now q past calls =
     (co_init now)\<lparr>pool_queue := [0], next_co := 1, scheduled := past @ q, resumed := past, ready_queue := q,
       is_schedule := True, io_calls := calls, next_addr := 1, event_count := 1\<rparr>"

lemma running_co_simps [simp]:
  "fd_map (running_co now fd evs q past calls) = [fd \<mapsto> 0]"
  "io_calls (running_co now fd evs q past calls) = calls"
  "(running_co now fd evs q past calls)\<lparr>io_calls := n\<rparr> = running_co now fd evs q past n"
  by (simp_all add: running_co_def waiting_co_def)

lemma handle_loop_Nil: "ready_queue st = [] \<Longrightarrow> handle_loop env st = Inr (st\<lparr>is_schedule := False\<rparr>)"
  by (subst handle_loop.simps) simp

lemma handle_loop_Cons:
  "ready_queue st = c # q \<Longrightarrow> handle_loop env st =
     (case resume_co env c (st\<lparr>ready_queue := q\<rparr>) of Inl e \<Rightarrow> Inl e | Inr st1 \<Rightarrow> handle_loop env st1)"
  by (subst handle_loop.simps) simp

lemma run_woken:
  "run_handler env (woken (0 # q) ((waiting_co now fd evs past calls (Co_call k))
      \<lparr>epoll := [fd \<mapsto> \<lparr>i_ptr = 0, i_in = False, i_out = False, i_oneshot = True\<rparr>]\<rparr>))
   = (case run_co env 0 (k (sys_io env calls)) (running_co now fd evs q (past @ [0]) (calls + 1)) of
        Inl e \<Rightarrow> Inl e | Inr st \<Rightarrow> handle_loop env st)"
  by (simp add: run_handler_def handle_loop_Cons resume_co_def
      woken_def waiting_co_def co_init_def running_co_def sys_call_def)

lemma run_close:
  "run_co env 0 (Co_close fd Co_end) (running_co now fd evs q past calls) = Inr (served_co now q past calls)"
  by (simp add: running_co_def waiting_co_def served_co_def co_init_def co_close_def destroy_channel_def
      remove_channel_def with_channel_def release_co_def fun_eq_iff)

lemma handle_served:
  "handle_loop env (served_co now [] past calls) = Inr ((served_co now [] past calls)\<lparr>is_schedule := False\<rparr>)"
  "handle_loop env (served_co now [0] past calls) = Inl Dead_object"
  by (simp_all add: handle_loop_Nil handle_loop_Cons served_co_def co_init_def resume_co_def)

lemma wait_write:
  "bind_res (co_wait 0 WRITE 0 (running_co now fd ((\<lambda>_. False)(READ := True)) [] past calls)) (\<lambda>st1.
     handle_loop env (suspend 0 p st1)) = Inr (waiting_co now fd (\<lambda>_. True) past calls p)"
  by (simp add: running_co_def waiting_co_def co_init_def co_wait_def with_channel_def enable_event_def
      ch_enable_def put_channel_def update_channel_def Let_def suspend_def wanted_def handle_loop_Nil
      fun_eq_iff not_READ)

text \<open>A read that completes the request leads to what follows the loop.\<close>

lemma recv_prog_read:
  assumes "recv_loop cm cbs [read_of r inp] b p = Inr rr" and "\<And>b' p'. rr \<noteq> Recv_waiting b' p'"
  shows "\<exists>k. recv_prog cm cbs fin fd inp b p = Co_io READ fd k \<and> k r = fin rr"
proof -
  obtain d b1 where pf: "push_from (read_of r inp) b = (d, b1)" by fastforce
  show ?thesis
    unfolding recv_prog.simps [of cm cbs fin fd inp b p] co_read_def
    using assms pf by (auto simp: bind_res_Inr_iff split: if_splits)
qed

lemma recv_loop_done:
  assumes "recv_loop cm cbs [io] b p = Inr rr" and "\<And>b' p'. rr \<noteq> Recv_waiting b' p'"
  shows "recv_loop cm cbs (io # ios) b p = Inr rr"
  using assms by (cases "push_from io b") (auto simp: bind_res_Inr_iff split: if_splits)

lemma http_prog_request:
  assumes "wf_request r" and "length (wq_body r) \<noteq> 1" and "length (request_text r) \<le> 1024"
  shows "\<exists>b m. wf_buffer b \<and> room b = 1024 - length (request_text r) \<and> peek b = request_text r
    \<and> message_is (block_of b) m r
    \<and> (\<forall>ios w. http_handler cm cbs res0 v0 c0 (Read_data (request_text r) # ios) w =
        (case cbs (wq_path r) of
           None \<Rightarrow> send_pieces w (start_sink 404 b) (write_error_response_message cm 404)
         | Some cb \<Rightarrow> send_pieces w (start_sink 200 b) (write_response cm (cb (block_of b) m res0))))
    \<and> (\<forall>after. \<exists>k. http_prog cm cbs res0 v0 c0 after (request_text r @ rest) fd = Co_io READ fd k
        \<and> k (int (length (request_text r))) =
          (case cbs (wq_path r) of
             None \<Rightarrow> send_reply after fd 404 b (write_error_response_message cm 404)
           | Some cb \<Rightarrow> send_reply after fd 200 b (write_response cm (cb (block_of b) m res0))))"
proof -
  let ?b = "buf_insert_tail (request_text r) new_buffer" and ?n = "int (length (request_text r))"
  let ?rr = "\<lambda>m. case cbs (wq_path r) of None \<Rightarrow> Recv_done 404 ?b None | Some cb \<Rightarrow> Recv_done 200 ?b (Some (m, cb))"
  note fr = first_read [OF assms(3)]
  have read: "read_of ?n (request_text r @ rest) = Read_data (request_text r)" by (simp add: read_of_def)
  obtain m where m: "message_is (block_of ?b) m r"
      "recv_loop cm cbs [Read_data (request_text r)] new_buffer (new_parser True v0 c0) = Inr (?rr m)"
    using recv_loop_request [OF assms, of cm cbs "[]" v0 c0] by blast
  have over: "?rr m \<noteq> Recv_waiting b' p'" for b' p' by (simp split: option.split)
  have loop: "recv_loop cm cbs (Read_data (request_text r) # ios) new_buffer (new_parser True v0 c0) = Inr (?rr m)" for ios
    by (rule recv_loop_done [OF m(2) over])
  have "recv_loop cm cbs [read_of ?n (request_text r @ rest)] new_buffer (new_parser True v0 c0) = Inr (?rr m)"
    using m(2) by (simp only: read)
  note read = recv_prog_read [OF this over]
  have prog: "\<exists>k. http_prog cm cbs res0 v0 c0 after (request_text r @ rest) fd = Co_io READ fd k
      \<and> k ?n = (case cbs (wq_path r) of
             None \<Rightarrow> send_reply after fd 404 ?b (write_error_response_message cm 404)
           | Some cb \<Rightarrow> send_reply after fd 200 ?b (write_response cm (cb (block_of ?b) m res0)))" for after
    using read [of "respond_prog cm res0 after fd" fd]
    by (auto simp: http_prog_def respond_prog_def split: option.splits)
  have handler: "http_handler cm cbs res0 v0 c0 (Read_data (request_text r) # ios) w =
        (case cbs (wq_path r) of
           None \<Rightarrow> send_pieces w (start_sink 404 ?b) (write_error_response_message cm 404)
         | Some cb \<Rightarrow> send_pieces w (start_sink 200 ?b) (write_response cm (cb (block_of ?b) m res0)))" for ios w
    unfolding http_handler_def loop bind_res_simps by (simp add: http_respond_def split: option.split)
  show ?thesis
    by (intro exI [of _ ?b] exI [of _ m] conjI allI fr m(1) prog handler)
qed

text \<open>
  A connection whose first read blocks, up to the run in which the read returns: the coroutine
  is suspended with its event armed, and the event makes it ready.
\<close>

abbreviation reading :: "event_type \<Rightarrow> bool" where
  "reading \<equiv> (\<lambda>_. False)(READ := True)"

abbreviation disarmed_at :: "int \<Rightarrow> int \<Rightarrow> interest option" where
  "disarmed_at fd \<equiv> [fd \<mapsto> \<lparr>i_ptr = 0, i_in = False, i_out = False, i_oneshot = True\<rparr>]"

lemma blocked_read:
  fixes now :: u64 and k :: "int \<Rightarrow> co_prog"
  assumes "0 \<le> fd" and "sys_io env 0 < 0"
  defines "st1 \<equiv> waiting_co now fd reading [0] 1 (Co_call k)"
  defines "st2 \<equiv> woken [0] (st1\<lparr>epoll := disarmed_at fd\<rparr>)"
  shows "run_handler env (one_co now (Co_io READ fd k)) = Inr st1"
    and "poll wake_co [(fd, True, False)] st1 = Inr st2"
    and "run_handler env st2 = (case run_co env 0 (k (sys_io env 1)) (running_co now fd reading [] [0, 0] 2) of
        Inl e \<Rightarrow> Inl e | Inr st \<Rightarrow> handle_loop env st)"
proof -
  show "run_handler env (one_co now (Co_io READ fd k)) = Inr st1"
    unfolding st1_def by (rule run_first [OF assms(1,2)])
  have "co_reach env st1" unfolding st1_def by (rule waiting_reach [OF assms(1,2)])
  then show "poll wake_co [(fd, True, False)] st1 = Inr st2"
    using poll_waiting [of env now fd reading "[0]" 1 "Co_call k" True False] by (simp add: st1_def st2_def)
  show "run_handler env st2 = (case run_co env 0 (k (sys_io env 1)) (running_co now fd reading [] [0, 0] 2) of
        Inl e \<Rightarrow> Inl e | Inr st \<Rightarrow> handle_loop env st)"
    using run_woken [where q = "[]" and fd = fd and now = now and evs = reading and past = "[0]" and calls = 1 and k = k
        and env = env] by (simp add: st1_def st2_def numeral_2_eq_2)
qed

text \<open>
  C7: A connection from end to end. The HTTP server's coroutine for a connection is spawned; its
  first read blocks and it is suspended, with the descriptor armed for reading; the descriptor
  becomes readable, the loop wakes the coroutine, the read returns the whole request, and the
  callback bound to its path is called. Then every piece of what it fills is written, in as
  many calls as there are pieces, whatever number of bytes each takes. At the end the coroutine is
  back in the pool, the channel and its registration are gone and nothing is left to be run. The
  bytes sent and pending, for the same results of the calls, are the request and the response.
\<close>

theorem http_connection_served:
  assumes "0 \<le> fd" and "wf_request r" and "length (wq_body r) \<noteq> 1" and "length (request_text r) \<le> 900"
    and "cbs (wq_path r) = Some cb" and "sys_io env 0 < 0" and "sys_io env 1 = int (length (request_text r))"
    and "\<forall>i \<ge> 2. 0 \<le> sys_io env i"
    and "\<forall>mem m. write_response http_code_map (cb mem m res0) = Inr (pieces, cm')" and "length (concat pieces) \<le> 124"
  shows "\<exists>st0 st1 st2 st3 sk.
    add_co (http_user_cb http_code_map cbs res0 v0 c0 (request_text r @ rest) fd) (co_init now) = Inr st0
    \<and> run_handler env st0 = Inr st1 \<and> co_map st1 = {0} \<and> epoll st1 fd \<noteq> None \<and> handlers st1 = 0
    \<and> poll wake_co [(fd, True, False)] st1 = Inr st2 \<and> run_handler env st2 = Inr st3
    \<and> co_map st3 = {} \<and> pool_queue st3 = [0] \<and> co_count st3 = 0 \<and> suspended st3 = Map.empty
    \<and> fd_map st3 = Map.empty \<and> fd_set st3 = {} \<and> epoll st3 = Map.empty \<and> handlers st3 = 0
    \<and> ready_queue st3 = [] \<and> io_calls st3 = 2 + length pieces
    \<and> http_handler http_code_map cbs res0 v0 c0 [Read_data (request_text r)] (\<lambda>i. write_of (sys_io env (2 + i)))
        = Inr (Handler_closed sk cm')
    \<and> (\<forall>after. answered (map (sys_io env) [1..<io_calls st3])
          (http_prog http_code_map cbs res0 v0 c0 after (request_text r @ rest) fd) = after sk cm')
    \<and> sk_sent sk @ peek (sk_buf sk) = request_text r @ concat pieces"
proof -
  let ?w = "\<lambda>i. write_of (sys_io env (2 + i))" and ?after = "\<lambda>(st :: sink) (cm :: code_map). Co_close fd Co_end"
  have "length (request_text r) \<le> 1024" using assms(4) by simp
  from http_prog_request [OF assms(2,3) this, of http_code_map cbs res0 v0 c0 rest fd] assms(5,7,9) obtain b where
      b: "wf_buffer b" "room b = 1024 - length (request_text r)" "peek b = request_text r"
    and handler: "\<And>w. http_handler http_code_map cbs res0 v0 c0 [Read_data (request_text r)] w
        = send_pieces w (start_sink 200 b) (Inr (pieces, cm'))"
    and prog: "\<And>after. \<exists>k. http_prog http_code_map cbs res0 v0 c0 after (request_text r @ rest) fd = Co_io READ fd k
        \<and> k (sys_io env 1) = send_prog fd pieces (start_sink 200 b) (\<lambda>st. after st cm')"
    by (auto simp: send_reply_def)
  from prog [of ?after] obtain k where
      k: "http_prog http_code_map cbs res0 v0 c0 ?after (request_text r @ rest) fd = Co_io READ fd k"
        "k (sys_io env 1) = send_prog fd pieces (start_sink 200 b) (\<lambda>_. Co_close fd Co_end)" by blast
  note read = blocked_read [OF assms(1,6), of now k]
  let ?run = "running_co now fd reading [] [0, 0]"
  have "run_co env 0 (k (sys_io env 1)) (?run 2) = run_co env 0 (Co_close fd Co_end) (?run (2 + length pieces))"
    unfolding k(2) using assms(8) by (subst run_sends_then [where a = 0]) simp_all
  then have run: "run_handler env (woken [0] ((waiting_co now fd reading [0] 1 (Co_call k))\<lparr>epoll := disarmed_at fd\<rparr>))
      = Inr ((served_co now [] [0, 0] (2 + length pieces))\<lparr>is_schedule := False\<rparr>)"
    using read(3) by (simp only: run_close sum.case handle_served)
  have "hs.all_good ?w pieces (start_sink 200 b)"
    by (rule all_good_room) (use assms(4,10) b in \<open>simp_all add: start_sink_def\<close>)
  from send_pieces_out [OF this, of cm'] obtain sk where
      sk: "send_pieces ?w (start_sink 200 b) (Inr (pieces, cm')) = Inr (Handler_closed sk cm')"
        "sk_sent sk @ peek (sk_buf sk) = peek b @ concat pieces" by blast
  have "[1..<2 + length pieces] = 1 # [2..<length pieces + 2]" by (simp add: upt_conv_Cons numeral_2_eq_2 del: upt_Suc)
  then have "map (sys_io env) [1..<2 + length pieces] = sys_io env 1 # map (\<lambda>i. sys_io env (2 + i)) [0..<length pieces]"
    by (simp only: list.map map_add_upt [symmetric] map_map o_def add.commute)
  then have ans: "answered (map (sys_io env) [1..<2 + length pieces])
      (http_prog http_code_map cbs res0 v0 c0 after (request_text r @ rest) fd) = after sk cm'" for after
    using prog [of after] sk(1) send_prog_answered [of "\<lambda>i. sys_io env (2 + i)" "start_sink 200 b" pieces fd "\<lambda>st. after st cm'"]
    by (auto simp: send_pieces_def start_sink_def simp del: upt_Suc)
  let ?st1 = "waiting_co now fd reading [0] 1 (Co_call k)"
  let ?st2 = "woken [0] (?st1\<lparr>epoll := disarmed_at fd\<rparr>)"
  let ?st3 = "(served_co now [] [0, 0] (2 + length pieces))\<lparr>is_schedule := False\<rparr>"
  have st1: "co_map ?st1 = {0}" "epoll ?st1 fd \<noteq> None" "handlers ?st1 = 0"
    by (simp_all add: waiting_co_def co_init_def)
  have st3: "co_map ?st3 = {}" "pool_queue ?st3 = [0]" "co_count ?st3 = 0" "suspended ?st3 = Map.empty"
    "fd_map ?st3 = Map.empty" "fd_set ?st3 = {}" "epoll ?st3 = Map.empty" "handlers ?st3 = 0" "ready_queue ?st3 = []"
    and calls: "io_calls ?st3 = 2 + length pieces"
    by (simp_all add: served_co_def co_init_def)
  have ans3: "answered (map (sys_io env) [1..<io_calls ?st3])
      (http_prog http_code_map cbs res0 v0 c0 after (request_text r @ rest) fd) = after sk cm'" for after
    unfolding calls by (rule ans)
  show ?thesis
    unfolding http_user_cb_def k(1) handler
    by (intro exI [of _ "one_co now (Co_io READ fd k)"] exI [of _ ?st1] exI [of _ ?st2] exI [of _ ?st3] exI [of _ sk]
        conjI allI spawn_one read(1,2) run st1 st3 calls ans3 sk(1) sk(2) [unfolded b(3)])
qed

text \<open>
  C38: A slow client takes the server down. As before, but one of the writes blocks: the coroutine
  waits for the descriptor to become writable with the read event still enabled. When the client
  has also sent something more, or closed, by the time it has made room, both events are reported by
  one poll and the coroutine is made ready twice; the first time it writes the rest, closes the
  descriptor and ends, and then it is resumed once more: the process crashes.
\<close>

theorem slow_client_crashes_server:
  assumes "0 \<le> fd" and "wf_request r" and "length (wq_body r) \<noteq> 1" and "length (request_text r) \<le> 1024"
    and "cbs (wq_path r) = Some cb" and "sys_io env 0 < 0" and "sys_io env 1 = int (length (request_text r))"
    and "\<forall>mem m. \<exists>cm'. write_response http_code_map (cb mem m res0) = Inr (xs @ x # ys, cm')"
    and "\<forall>i \<ge> 2. (sys_io env i < 0) = (i = 2 + length xs)"
  shows "\<exists>st0 st1 st2 st3 st4.
    add_co (http_user_cb http_code_map cbs res0 v0 c0 (request_text r @ rest) fd) (co_init now) = Inr st0
    \<and> run_handler env st0 = Inr st1 \<and> poll wake_co [(fd, True, False)] st1 = Inr st2
    \<and> run_handler env st2 = Inr st3 \<and> poll wake_co [(fd, True, True)] st3 = Inr st4
    \<and> co_reach env st4 \<and> ready_queue st4 = [0, 0] \<and> run_handler env st4 = Inl Dead_object"
proof -
  let ?after = "\<lambda>(st :: sink) (cm :: code_map). Co_close fd Co_end" and ?n = "length xs"
  from http_prog_request [OF assms(2-4), of http_code_map cbs res0 v0 c0 rest fd] assms(5,7) obtain b m where
      prog: "\<And>after. \<exists>k. http_prog http_code_map cbs res0 v0 c0 after (request_text r @ rest) fd = Co_io READ fd k
        \<and> k (sys_io env 1) = send_reply after fd 200 b (write_response http_code_map (cb (block_of b) m res0))"
    by auto
  from prog [of ?after] obtain k where
      k: "http_prog http_code_map cbs res0 v0 c0 ?after (request_text r @ rest) fd = Co_io READ fd k"
        "k (sys_io env 1) = send_reply ?after fd 200 b (write_response http_code_map (cb (block_of b) m res0))" by blast
  obtain cm' where "write_response http_code_map (cb (block_of b) m res0) = Inr (xs @ x # ys, cm')"
    using assms(8) by blast
  then have k1: "k (sys_io env 1) = send_prog fd (xs @ x # ys) (start_sink 200 b) (\<lambda>_. Co_close fd Co_end)"
    using k(2) by (simp add: send_reply_def)
  note read = blocked_read [OF assms(1,6), of now k]
  let ?st1 = "waiting_co now fd reading [0] 1 (Co_call k)"
  let ?st2 = "woken [0] (?st1\<lparr>epoll := disarmed_at fd\<rparr>)"
  have ok: "0 \<le> sys_io env (2 + i)" if "i \<noteq> ?n" for i using assms(9) that by (simp add: not_less [symmetric])
  obtain sk where sk: "run_co env 0 (k (sys_io env 1)) (running_co now fd reading [] [0, 0] 2) =
      bind_res (co_wait 0 WRITE 0 (running_co now fd reading [] [0, 0] (?n + 3))) (\<lambda>st1.
      Inr (suspend 0 (Co_call (\<lambda>r. send_prog fd ys (put_piece (\<lambda>_. write_of r) x sk) (\<lambda>_. Co_close fd Co_end))) st1))"
  proof -
    have calls: "2 + ?n + 1 = ?n + 3" by simp
    show thesis
      using that run_sends_blocked [of "running_co now fd reading [] [0, 0] 2" fd 0 xs env 0 x ys "start_sink 200 b"
          "\<lambda>_. Co_close fd Co_end", unfolded running_co_simps calls] ok assms(9)
      unfolding k1 by auto
  qed
  let ?k = "\<lambda>r. send_prog fd ys (put_piece (\<lambda>_. write_of r) x sk) (\<lambda>_. Co_close fd Co_end)"
  let ?st3 = "waiting_co now fd (\<lambda>_. True) [0, 0] (?n + 3) (Co_call ?k)"
  obtain st where "co_wait 0 WRITE 0 (running_co now fd reading [] [0, 0] (?n + 3)) = Inr st"
      "handle_loop env (suspend 0 (Co_call ?k) st) = Inr ?st3"
    using wait_write [of now fd "[0, 0]" "?n + 3" env "Co_call ?k"] by (auto simp only: bind_res_Inr_iff)
  then have h2: "run_handler env ?st2 = Inr ?st3"
    using read(3) sk by simp
  let ?st4 = "woken [0, 0] (?st3\<lparr>epoll := disarmed_at fd\<rparr>)"
  have r2: "co_reach env ?st2"
    by (rule co_reach.step [OF waiting_reach [OF assms(1,6)] co_step.events [OF _ read(2)]]) simp
  have r3: "co_reach env ?st3"
    by (rule co_reach.step [OF r2 co_step.handler [OF _ h2]]) (simp add: woken_def waiting_co_def co_init_def)
  have p4: "poll wake_co [(fd, True, True)] ?st3 = Inr ?st4" using poll_waiting [OF r3, of True True] by simp
  have r4: "co_reach env ?st4" by (rule co_reach.step [OF r3 co_step.events [OF _ p4]]) simp
  have "run_co env 0 (?k (sys_io env (?n + 3))) (running_co now fd (\<lambda>_. True) [0] [0, 0, 0] (?n + 4))
      = Inr (served_co now [0] [0, 0, 0] (?n + 4 + length ys))"
  proof -
    have "0 \<le> sys_io env (?n + 4 + i)" for i using ok [of "?n + 2 + i"] by (simp add: numeral_eq_Suc)
    then show ?thesis by (subst run_sends_then [where a = 0]) (simp_all only: running_co_simps run_close fun_upd_same)
  qed
  then have "run_handler env ?st4 = Inl Dead_object"
    using run_woken [where q = "[0]" and fd = fd and now = now and evs = "\<lambda>_. True" and past = "[0, 0]"
        and calls = "?n + 3" and k = ?k and env = env] by (simp add: handle_served add.commute)
  moreover have "ready_queue ?st4 = [0, 0]" by (simp add: woken_def waiting_co_def co_init_def)
  ultimately show ?thesis
    unfolding http_user_cb_def k(1)
    by (intro exI [of _ "one_co now (Co_io READ fd k)"] exI [of _ ?st1] exI [of _ ?st2] exI [of _ ?st3] exI [of _ ?st4]
        conjI spawn_one read(1,2) h2 p4 r4)
qed

text \<open>Witnesses: the sample request on a descriptor whose calls after the first two take seven bytes each.\<close>

definition serving_env :: "nat \<Rightarrow> co_env" where
  "serving_env blocked =
     \<lparr>sys_io = (\<lambda>n. if n = 0 \<or> n = blocked then -1
                   else if n = 1 then int (length (request_text sample_request)) else 7),
      sys_clock = (\<lambda>_. 1000)\<rparr>"

theorem http_prog_is_handler_witness:
  "\<exists>st n. http_handler http_code_map [''/a'' \<mapsto> hello] blank_response V0_9 0
        (deliver [int (length (request_text sample_request))] (request_text sample_request)) (\<lambda>i. write_of 7)
      = Inr (Handler_closed st http_code_map)
    \<and> answered (take n [int (length (request_text sample_request))] @ map (\<lambda>_. 7) [0..<sk_writes st])
        (http_prog http_code_map [''/a'' \<mapsto> hello] blank_response V0_9 0 (\<lambda>st cm. Co_close 5 Co_end)
          (request_text sample_request) 5) = Co_close 5 Co_end"
proof -
  let ?text = "request_text sample_request" and ?cbs = "[''/a'' \<mapsto> hello]"
  let ?handler = "http_handler http_code_map ?cbs blank_response V0_9 0 (deliver [int (length ?text)] ?text) (\<lambda>i. write_of 7)"
  have small: "length ?text \<le> 512" "length (wq_body sample_request) \<noteq> 1" "wq_path sample_request = ''/a''"
    by (simp_all add: request_text_def start_text_def sample_request_def method_name_def version_name_def
        header_text_def header_line_def)
  then have "length ?text \<le> 1024" by simp
  from http_prog_request [OF wf_sample small(2) this, of http_code_map ?cbs blank_response V0_9 0 "[]" 5] small(3)
  obtain b where "http_handler http_code_map ?cbs blank_response V0_9 0 [Read_data ?text] (\<lambda>i. write_of 7)
      = send_pieces (\<lambda>i. write_of 7) (start_sink 200 b) (Inr ([''HTTP/1.0 200 OK'' @ crlf, [], crlf, ''hi''], http_code_map))"
    by (auto simp: hello_pieces)
  then obtain st where "?handler = Inr (Handler_closed st http_code_map)"
    by (auto simp: read_of_def send_pieces_def)
  then show ?thesis
    using http_prog_is_handler [of "[int (length ?text)]" http_code_map ?cbs blank_response V0_9 0
        "\<lambda>st cm. Co_close 5 Co_end" ?text 5 "\<lambda>_. 7"] small(1) by auto
qed

lemma serving_env_calls:
  "sys_io (serving_env blocked) 0 < 0"
  "blocked \<noteq> 1 \<Longrightarrow> sys_io (serving_env blocked) 1 = int (length (request_text sample_request))"
  "\<forall>i \<ge> 2. (sys_io (serving_env blocked) i < 0) = (i = blocked)"
  "\<forall>i \<ge> 2. 0 \<le> sys_io (serving_env 0) i"
  by (auto simp: serving_env_def)

lemma sample_request_fields:
  "length (wq_body sample_request) \<noteq> 1" "[''/a'' \<mapsto> hello] (wq_path sample_request) = Some hello"
  by (simp_all add: sample_request_def)

theorem http_connection_served_witness:
  "\<exists>st0 st1 st2 st3. add_co (http_user_cb http_code_map [''/a'' \<mapsto> hello] blank_response V0_9 0
        (request_text sample_request @ []) 5) (co_init 1000) = Inr st0
    \<and> run_handler (serving_env 0) st0 = Inr st1 \<and> poll wake_co [(5, True, False)] st1 = Inr st2
    \<and> run_handler (serving_env 0) st2 = Inr st3 \<and> pool_queue st3 = [0] \<and> epoll st3 = Map.empty \<and> io_calls st3 = 6"
proof -
  let ?pieces = "[''HTTP/1.0 200 OK'' @ crlf, [], crlf, ''hi'']"
  have "0 \<le> (5 :: int)" "(0 :: nat) \<noteq> 1" "length (concat ?pieces) \<le> 124" "2 + length ?pieces = 6" by simp_all
  moreover have "\<forall>mem m. write_response http_code_map (hello mem m blank_response) = Inr (?pieces, http_code_map)"
    by (simp add: hello_pieces)
  ultimately show ?thesis
    using http_connection_served [where fd = 5 and cbs = "[''/a'' \<mapsto> hello]" and cb = hello and env = "serving_env 0"
        and pieces = ?pieces and now = 1000 and rest = "[]" and ?v0.0 = V0_9 and ?c0.0 = 0 and cm' = http_code_map
        and ?res0.0 = blank_response, OF _ wf_sample sample_request_fields(1) sample_text_length
        sample_request_fields(2) serving_env_calls(1) serving_env_calls(2) serving_env_calls(4)]
    by metis
qed

theorem slow_client_crashes_server_witness:
  "\<exists>st. co_reach (serving_env 5) st \<and> ready_queue st = [0, 0] \<and> run_handler (serving_env 5) st = Inl Dead_object"
proof -
  let ?xs = "[''HTTP/1.0 200 OK'' @ crlf, [], crlf]"
  have "0 \<le> (5 :: int)" "(5 :: nat) \<noteq> 1" "length (request_text sample_request) \<le> 1024"
    using sample_text_length by simp_all
  moreover have "\<forall>mem m. \<exists>cm'. write_response http_code_map (hello mem m blank_response) = Inr (?xs @ ''hi'' # [], cm')"
    by (simp add: hello_pieces)
  moreover have "\<forall>i \<ge> 2. (sys_io (serving_env 5) i < 0) = (i = 2 + length ?xs)"
    using serving_env_calls(3) [of 5] by simp
  ultimately show ?thesis
    using slow_client_crashes_server [where fd = 5 and cbs = "[''/a'' \<mapsto> hello]" and cb = hello
        and env = "serving_env 5" and xs = ?xs and x = "''hi''" and ys = "[]" and now = 1000 and rest = "[]"
        and ?v0.0 = V0_9 and ?c0.0 = 0 and ?res0.0 = blank_response, OF _ wf_sample sample_request_fields(1) _
        sample_request_fields(2) serving_env_calls(1) serving_env_calls(2)]
    by blast
qed

end
