(* ===== verification/AsyncLogger.thy ===== *)
theory AsyncLogger
  imports Prelude "HOL-Library.Sublist"
begin

text \<open>
  The logger of src/src/logger/Logger.hpp and Logger.cpp: log levels, the blocks the log text
  is collected in, the flush with its daily roll and its limit on the number of blocks, and
  the interleaving of the threads that log with the thread that flushes. The mutex makes
  \<open>write_buf\<close> and one round of the flush thread atomic, so they are the steps of the model.

  The texts \<open>snprintf\<close> produces, the local time and the results of \<open>write\<close> are arguments. The
  files the logger has opened are a list of contents, the current one last. Not modelled: the
  wake-up of the flush thread (its timeout makes every round possible at any time), \<open>is_print\<close>,
  and the flush of a \<open>FATAL\<close> message racing with the flush thread, as it takes no lock.
\<close>

section \<open>Levels\<close>

datatype level = TRACE | DEBUG | INFO | WARN | ERROR | FATAL

fun level_index :: "level \<Rightarrow> nat" where
  "level_index TRACE = 0"
| "level_index DEBUG = 1"
| "level_index INFO = 2"
| "level_index WARN = 3"
| "level_index ERROR = 4"
| "level_index FATAL = 5"

lemma level_index_inj: "level_index a = level_index b \<Longrightarrow> a = b"
  by (cases a; cases b) simp_all

instantiation level :: linorder
begin

definition less_eq_level :: "level \<Rightarrow> level \<Rightarrow> bool" where
  "less_eq_level a b \<longleftrightarrow> level_index a \<le> level_index b"

definition less_level :: "level \<Rightarrow> level \<Rightarrow> bool" where
  "less_level a b \<longleftrightarrow> level_index a < level_index b"

instance
  by intro_classes (auto simp: less_eq_level_def less_level_def dest: level_index_inj)

end

section \<open>Local time\<close>

record day_time =
  day :: int
  hour :: int
  minute :: int
  sec :: int

definition is_after :: "day_time \<Rightarrow> day_time \<Rightarrow> bool" where
  "is_after self dt \<longleftrightarrow> day dt \<noteq> day self \<and> hour self \<le> hour dt \<and> minute self \<le> minute dt
     \<and> sec self \<le> sec dt"

text \<open>A reading of the clock.\<close>

definition clock_time :: "day_time \<Rightarrow> bool" where
  "clock_time t \<longleftrightarrow> 1 \<le> day t \<and> day t \<le> 31 \<and> 0 \<le> hour t \<and> hour t < 24
     \<and> 0 \<le> minute t \<and> minute t < 60 \<and> 0 \<le> sec t \<and> sec t \<le> 60"

section \<open>Blocks\<close>

text \<open>A block: its capacity and the bytes written to it; \<open>writen\<close> is their number.\<close>

record buf_block =
  capacity :: nat
  content :: string

definition is_full :: "buf_block \<Rightarrow> bool" where
  "is_full b \<longleftrightarrow> length (content b) = capacity b"

definition block_write :: "string \<Rightarrow> buf_block \<Rightarrow> nat \<times> buf_block" where
  "block_write log b =
     (let n = min (capacity b - length (content b)) (length log)
      in (n, b\<lparr>content := content b @ take n log\<rparr>))"

definition block_flush :: "write_res \<Rightarrow> buf_block \<Rightarrow> (string \<times> buf_block) res" where
  "block_flush io b =
     (case sys_write (length (content b)) io of
        Write_fail _ \<Rightarrow> Inl Assert_abort
      | Write_count n \<Rightarrow>
          if n = length (content b) then Inr (content b, b\<lparr>content := []\<rparr>) else Inl Assert_abort)"

section \<open>The logger\<close>

record logger =
  roll_time :: day_time
  files :: "string list"
  buf_list :: "buf_block list"
  empty_buf_list :: "buf_block list"

definition buf_block_num :: nat where
  "buf_block_num = 256"

definition buf_block_size :: nat where
  "buf_block_size = 4 * 1024 * 1024"

definition max_log_size :: nat where
  "max_log_size = 1024 * 2"

text \<open>\<open>reset_file_fd\<close>: a new file becomes the current one.\<close>

definition reset_file_fd :: "logger \<Rightarrow> logger" where
  "reset_file_fd lg = lg\<lparr>files := files lg @ [[]]\<rparr>"

definition new_logger :: "int \<Rightarrow> logger" where
  "new_logger today = reset_file_fd
     \<lparr>roll_time = \<lparr>day = today, hour = 0, minute = 0, sec = 0\<rparr>, files = [], buf_list = [],
      empty_buf_list = []\<rparr>"

text \<open>One round of the loop of \<open>write_buf\<close>: a block with room is found, and the text is copied.\<close>

definition provide_block :: "logger \<Rightarrow> logger" where
  "provide_block lg =
     (if buf_list lg = [] \<or> is_full (last (buf_list lg)) then
        (case empty_buf_list lg of
           [] \<Rightarrow> lg\<lparr>buf_list := buf_list lg @ [\<lparr>capacity = buf_block_size, content = []\<rparr>]\<rparr>
         | e # es \<Rightarrow> lg\<lparr>buf_list := buf_list lg @ [e], empty_buf_list := es\<rparr>)
      else lg)"

definition write_last :: "string \<Rightarrow> logger \<Rightarrow> nat \<times> logger" where
  "write_last log lg =
     (let (n, b) = block_write log (last (buf_list lg))
      in (n, lg\<lparr>buf_list := butlast (buf_list lg) @ [b]\<rparr>))"

partial_function (option) write_loop :: "string \<Rightarrow> int \<Rightarrow> logger \<Rightarrow> logger option" where
  "write_loop log remain lg =
     (if 0 < remain then
        (let (n, lg1) = write_last log (provide_block lg)
         in write_loop log (remain - int n) lg1)
      else Some lg)"

definition write_buf :: "string \<Rightarrow> logger \<Rightarrow> logger option" where
  "write_buf log lg = write_loop log (int (length log)) lg"

text \<open>One call of \<open>flush_buf\<close> up to its recursive call.\<close>

definition roll :: "day_time \<Rightarrow> logger \<Rightarrow> logger" where
  "roll ti lg = (if is_after ti (roll_time lg) then reset_file_fd (lg\<lparr>roll_time := ti\<rparr>) else lg)"

definition trim :: "logger \<Rightarrow> logger" where
  "trim lg =
     (let a = length (buf_list lg) + length (empty_buf_list lg)
      in if buf_block_num < a then
           lg\<lparr>empty_buf_list := take (min (length (empty_buf_list lg)) (a - buf_block_num)) (empty_buf_list lg),
              buf_list := (if buf_block_num < length (buf_list lg)
                then take (length (buf_list lg) - buf_block_num) (buf_list lg) else buf_list lg)\<rparr>
         else lg)"

definition append_file :: "string \<Rightarrow> string list \<Rightarrow> string list" where
  "append_file s fs = butlast fs @ [last fs @ s]"

definition flush_first :: "write_res \<Rightarrow> logger \<Rightarrow> logger res" where
  "flush_first io lg =
     (case buf_list lg of
        [] \<Rightarrow> Inr lg
      | b # bs \<Rightarrow>
          bind_res (block_flush io b) (\<lambda>(out, b1).
          Inr (lg\<lparr>files := append_file out (files lg), buf_list := bs,
                  empty_buf_list := empty_buf_list lg @ [b1]\<rparr>)))"

definition flush_once :: "day_time \<Rightarrow> write_res \<Rightarrow> logger \<Rightarrow> logger res" where
  "flush_once ti io lg = flush_first io (trim (roll ti lg))"

text \<open>\<open>flush_buf(true)\<close>: the environment gives each recursive call its time and write result.\<close>

fun flush_full :: "(day_time \<times> write_res) list \<Rightarrow> logger \<Rightarrow> logger res option" where
  "flush_full [] lg = None"
| "flush_full ((ti, io) # env) lg =
     (case flush_once ti io lg of
        Inl e \<Rightarrow> Some (Inl e)
      | Inr lg1 \<Rightarrow> if buf_list lg1 \<noteq> [] then flush_full env lg1 else Some (Inr lg1))"

text \<open>
  \<open>append_log\<close>: the prefix with time and level, the message and the suffix with the file,
  as \<open>snprintf\<close> produces them; each must fit what is left of the 2048 bytes with its
  terminating zero.
\<close>

definition format_log :: "string \<Rightarrow> string \<Rightarrow> string \<Rightarrow> string res" where
  "format_log pre msg suf =
     bind_res (c_assert (length pre + 1 \<le> max_log_size)) (\<lambda>_.
     bind_res (c_assert (length msg + 1 \<le> max_log_size - length pre)) (\<lambda>_.
     bind_res (c_assert (length suf + 1 \<le> max_log_size - length (pre @ msg))) (\<lambda>_.
     Inr (pre @ msg @ suf))))"

datatype log_result =
    Log_done logger
  | Log_fatal logger
  | Log_stuck

definition append_log ::
  "level \<Rightarrow> (day_time \<times> write_res) list \<Rightarrow> string \<Rightarrow> string \<Rightarrow> string \<Rightarrow> logger \<Rightarrow> log_result res" where
  "append_log lv env pre msg suf lg =
     bind_res (format_log pre msg suf) (\<lambda>log.
     case write_buf log lg of
       None \<Rightarrow> Inr Log_stuck
     | Some lg1 \<Rightarrow>
         if FATAL \<le> lv then
           (case flush_full env lg1 of
              None \<Rightarrow> Inr Log_stuck
            | Some r \<Rightarrow> bind_res r (\<lambda>lg2. Inr (Log_fatal lg2)))
         else Inr (Log_done lg1))"

text \<open>The macros \<open>LOG_TRACE\<close> to \<open>LOG_FATAL\<close>.\<close>

definition log_macro ::
  "level \<Rightarrow> level \<Rightarrow> (day_time \<times> write_res) list \<Rightarrow> string \<Rightarrow> string \<Rightarrow> string \<Rightarrow> logger \<Rightarrow> log_result res" where
  "log_macro now_level lv env pre msg suf lg =
     (if now_level \<le> lv then append_log lv env pre msg suf lg else Inr (Log_done lg))"

section \<open>The text the logger holds\<close>

definition pending_text :: "logger \<Rightarrow> string" where
  "pending_text lg = concat (map content (buf_list lg))"

definition log_stream :: "logger \<Rightarrow> string" where
  "log_stream lg = concat (files lg) @ pending_text lg"

definition wf_logger :: "logger \<Rightarrow> bool" where
  "wf_logger lg \<longleftrightarrow> files lg \<noteq> []
     \<and> (\<forall>b \<in> set (buf_list lg). capacity b = buf_block_size \<and> length (content b) \<le> buf_block_size)
     \<and> (\<forall>b \<in> set (empty_buf_list lg). capacity b = buf_block_size \<and> content b = [])"

text \<open>The room in the block the next text starts in; a full or missing block is replaced.\<close>

definition room_left :: "logger \<Rightarrow> nat" where
  "room_left lg =
     (if buf_list lg = [] \<or> is_full (last (buf_list lg)) then buf_block_size
      else capacity (last (buf_list lg)) - length (content (last (buf_list lg))))"

lemma last_block:
  assumes "wf_logger lg" and "buf_list lg \<noteq> []"
  shows "capacity (last (buf_list lg)) = buf_block_size"
    and "length (content (last (buf_list lg))) \<le> buf_block_size"
  using assms(1) last_in_set [OF assms(2)] unfolding wf_logger_def by fastforce+

lemma provide_block_cases:
  assumes "wf_logger lg" and "buf_list lg = [] \<or> is_full (last (buf_list lg))"
  shows "\<exists>b es. provide_block lg = lg\<lparr>buf_list := buf_list lg @ [b], empty_buf_list := es\<rparr>
    \<and> capacity b = buf_block_size \<and> content b = [] \<and> set es \<subseteq> set (empty_buf_list lg)"
proof (cases "empty_buf_list lg")
  case Nil
  then show ?thesis
    using assms(2) by (intro exI [of _ "\<lparr>capacity = buf_block_size, content = []\<rparr>"] exI [of _ "[]"])
      (simp add: provide_block_def)
next
  case (Cons e es)
  then have "capacity e = buf_block_size \<and> content e = []"
    using assms(1) by (simp add: wf_logger_def)
  then show ?thesis
    using assms(2) Cons by (intro exI [of _ e] exI [of _ es]) (auto simp: provide_block_def)
qed

lemma provide_block_spec:
  assumes "wf_logger lg"
  shows "wf_logger (provide_block lg)" and "log_stream (provide_block lg) = log_stream lg"
    and "buf_list (provide_block lg) \<noteq> []"
    and "buf_block_size - length (content (last (buf_list (provide_block lg)))) = room_left lg"
proof -
  have "wf_logger (provide_block lg) \<and> log_stream (provide_block lg) = log_stream lg
    \<and> buf_list (provide_block lg) \<noteq> []
    \<and> buf_block_size - length (content (last (buf_list (provide_block lg)))) = room_left lg"
  proof (cases "buf_list lg = [] \<or> is_full (last (buf_list lg))")
    case True
    then obtain b es where pb: "provide_block lg = lg\<lparr>buf_list := buf_list lg @ [b], empty_buf_list := es\<rparr>"
        "capacity b = buf_block_size" "content b = []" "set es \<subseteq> set (empty_buf_list lg)"
      using provide_block_cases [OF assms] by blast
    have "wf_logger (provide_block lg)"
      using assms pb unfolding wf_logger_def by (simp add: subset_iff)
    then show ?thesis using pb True by (simp add: log_stream_def pending_text_def room_left_def)
  next
    case False
    then have "provide_block lg = lg" by (simp add: provide_block_def)
    moreover have "capacity (last (buf_list lg)) = buf_block_size"
      using last_block [OF assms] False by blast
    ultimately show ?thesis using False assms by (simp add: room_left_def)
  qed
  then show "wf_logger (provide_block lg)" "log_stream (provide_block lg) = log_stream lg"
    "buf_list (provide_block lg) \<noteq> []"
    "buf_block_size - length (content (last (buf_list (provide_block lg)))) = room_left lg"
    by blast+
qed

lemma room_left_pos:
  assumes "wf_logger lg" shows "0 < room_left lg"
proof (cases "buf_list lg = [] \<or> is_full (last (buf_list lg))")
  case False
  then show ?thesis using last_block [OF assms] by (auto simp: room_left_def is_full_def)
qed (simp add: room_left_def buf_block_size_def)

lemma write_last_spec:
  fixes log :: string
  assumes "wf_logger lg" and "buf_list lg \<noteq> []"
  defines "n \<equiv> min (buf_block_size - length (content (last (buf_list lg)))) (length log)"
  shows "\<exists>lg1. write_last log lg = (n, lg1) \<and> wf_logger lg1 \<and> log_stream lg1 = log_stream lg @ take n log
    \<and> buf_list lg1 \<noteq> [] \<and> length (content (last (buf_list lg1))) = length (content (last (buf_list lg))) + n"
proof -
  obtain bs b where bs: "buf_list lg = bs @ [b]" using assms(2) by (cases "buf_list lg" rule: rev_cases) auto
  let ?b = "b\<lparr>content := content b @ take n log\<rparr>" and ?lg = "lg\<lparr>buf_list := bs @ [b\<lparr>content := content b @ take n log\<rparr>]\<rparr>"
  have b: "capacity b = buf_block_size" "length (content b) \<le> buf_block_size"
    using last_block [OF assms(1,2)] by (simp_all add: bs)
  then have "write_last log lg = (n, ?lg)"
    by (simp add: write_last_def block_write_def bs n_def Let_def)
  moreover have "wf_logger ?lg" using assms(1) b by (auto simp: wf_logger_def bs n_def)
  moreover have "log_stream ?lg = log_stream lg @ take n log"
    by (simp add: log_stream_def pending_text_def bs)
  moreover have "length (take n log) = n" by (simp add: n_def)
  ultimately show ?thesis by (intro exI [of _ ?lg]) (simp add: bs)
qed

lemma write_loop_step:
  fixes log :: string
  assumes "wf_logger lg" and "0 < remain"
  defines "n \<equiv> min (room_left lg) (length log)"
  shows "\<exists>lg1. write_loop log remain lg = write_loop log (remain - int n) lg1 \<and> wf_logger lg1
    \<and> log_stream lg1 = log_stream lg @ take n log \<and> (n = room_left lg \<longrightarrow> room_left lg1 = buf_block_size)"
proof -
  note pb = provide_block_spec [OF assms(1)]
  obtain lg1 where lg1: "write_last log (provide_block lg) = (n, lg1)" "wf_logger lg1"
      "log_stream lg1 = log_stream lg @ take n log" "buf_list lg1 \<noteq> []"
      "length (content (last (buf_list lg1))) = length (content (last (buf_list (provide_block lg)))) + n"
    using write_last_spec [OF pb(1,3), of log] by (simp add: pb(2,4) n_def) blast
  have "is_full (last (buf_list lg1))" if "n = room_left lg"
    using lg1(5) pb(4) that last_block [OF lg1(2,4)] room_left_pos [OF assms(1)]
    by (simp add: is_full_def)
  moreover have "write_loop log remain lg = write_loop log (remain - int n) lg1"
    using assms(2) lg1(1) by (subst write_loop.simps) simp
  ultimately show ?thesis using lg1 by (intro exI [of _ lg1]) (simp add: room_left_def)
qed

lemma write_buf_spec:
  assumes "wf_logger lg" and "length log \<le> buf_block_size"
  shows "\<exists>lg1. write_buf log lg = Some lg1 \<and> wf_logger lg1
    \<and> log_stream lg1 = log_stream lg
        @ (if length log \<le> room_left lg then log else take (room_left lg) log @ log)"
proof (cases "log = []")
  case True
  then show ?thesis using assms(1) by (simp add: write_buf_def write_loop.simps)
next
  case False
  then have pos: "0 < int (length log)" by simp
  have stop: "write_loop log r lg1 = Some lg1" if "r \<le> 0" for r lg1
    using that by (subst write_loop.simps) simp
  obtain lg1 where lg1: "write_loop log (int (length log)) lg
        = write_loop log (int (length log) - int (min (room_left lg) (length log))) lg1" "wf_logger lg1"
      "log_stream lg1 = log_stream lg @ take (min (room_left lg) (length log)) log"
      "min (room_left lg) (length log) = room_left lg \<longrightarrow> room_left lg1 = buf_block_size"
    using write_loop_step [OF assms(1) pos, of log] by blast
  show ?thesis
  proof (cases "length log \<le> room_left lg")
    case True
    then show ?thesis using lg1 stop [of 0 lg1] by (simp add: write_buf_def min_def split: if_splits)
  next
    case straddle: False
    let ?r = "int (length log) - int (room_left lg)"
    have m: "min (room_left lg) (length log) = room_left lg" using straddle by simp
    have r: "0 < ?r" using straddle by simp
    have room: "room_left lg1 = buf_block_size" using lg1(4) m by simp
    obtain lg2 where lg2: "write_loop log ?r lg1 = write_loop log (?r - int (length log)) lg2" "wf_logger lg2"
        "log_stream lg2 = log_stream lg1 @ log"
      using write_loop_step [OF lg1(2) r, of log] assms(2) by (auto simp: room min_def split: if_splits)
    then show ?thesis
      using lg1 m straddle stop [of "?r - int (length log)" lg2]
      by (intro exI [of _ lg2]) (simp add: write_buf_def)
  qed
qed

section \<open>Flushing\<close>

definition block_count :: "logger \<Rightarrow> nat" where
  "block_count lg = length (buf_list lg) + length (empty_buf_list lg)"

text \<open>A \<open>write\<close> that takes at least one whole block.\<close>

definition full_write :: "write_res \<Rightarrow> bool" where
  "full_write io \<longleftrightarrow> (\<exists>n. io = Write_count n \<and> buf_block_size \<le> n)"

lemma roll_spec:
  assumes "wf_logger lg"
  shows "wf_logger (roll ti lg)" and "buf_list (roll ti lg) = buf_list lg"
    and "empty_buf_list (roll ti lg) = empty_buf_list lg" and "concat (files (roll ti lg)) = concat (files lg)"
  using assms by (auto simp: roll_def reset_file_fd_def wf_logger_def)

lemma trim_small: "block_count lg \<le> buf_block_num \<Longrightarrow> trim lg = lg"
  by (simp add: trim_def block_count_def Let_def)

lemma concat_append_file: "fs \<noteq> [] \<Longrightarrow> concat (append_file s fs) = concat fs @ s"
  by (cases fs rule: rev_cases) (simp_all add: append_file_def)

lemma flush_first_spec:
  assumes "wf_logger lg" and "full_write io"
  shows "\<exists>lg1. flush_first io lg = Inr lg1 \<and> wf_logger lg1 \<and> buf_list lg1 = tl (buf_list lg)
    \<and> block_count lg1 = block_count lg \<and> log_stream lg1 = log_stream lg"
proof (cases "buf_list lg")
  case Nil
  then show ?thesis using assms(1) by (simp add: flush_first_def)
next
  case (Cons b bs)
  have b: "capacity b = buf_block_size" "length (content b) \<le> buf_block_size"
    using assms(1) Cons by (simp_all add: wf_logger_def)
  have "block_flush io b = Inr (content b, b\<lparr>content := []\<rparr>)"
    using assms(2) b(2) by (auto simp: block_flush_def full_write_def)
  then show ?thesis
    using assms(1) Cons b
    by (auto simp: flush_first_def wf_logger_def block_count_def log_stream_def pending_text_def
        concat_append_file) (simp add: append_file_def)
qed

lemma flush_once_spec:
  assumes "wf_logger lg" and "full_write io" and "block_count lg \<le> buf_block_num"
  shows "\<exists>lg1. flush_once ti io lg = Inr lg1 \<and> wf_logger lg1 \<and> buf_list lg1 = tl (buf_list lg)
    \<and> block_count lg1 = block_count lg \<and> log_stream lg1 = log_stream lg"
proof -
  note roll = roll_spec [OF assms(1), of ti]
  have "block_count (roll ti lg) = block_count lg" by (simp add: block_count_def roll)
  moreover from this have "trim (roll ti lg) = roll ti lg" using assms(3) by (simp add: trim_small)
  moreover have "log_stream (roll ti lg) = log_stream lg" by (simp add: log_stream_def pending_text_def roll)
  ultimately show ?thesis
    using flush_first_spec [OF roll(1) assms(2)] by (simp add: flush_once_def roll)
qed

section \<open>The log store as an interface\<close>

datatype 'e log_event = Ev_log string | Ev_flush 'e

fun logged :: "'e log_event list \<Rightarrow> string" where
  "logged [] = []"
| "logged (Ev_log x # evs) = x @ logged evs"
| "logged (Ev_flush e # evs) = logged evs"

text \<open>
  What the threads rely on: storing a text appends it, perhaps behind some repeated bytes, and
  a flush only moves text from memory to the files.
\<close>

locale log_store =
  fixes stream :: "'s \<Rightarrow> string"
    and store :: "string \<Rightarrow> 's \<Rightarrow> 's option"
    and flush :: "'e \<Rightarrow> 's \<Rightarrow> 's res"
    and ok :: "'s \<Rightarrow> bool"
    and fits :: "string \<Rightarrow> bool"
    and calm :: "'e \<Rightarrow> 's \<Rightarrow> bool"
  assumes store_stream: "ok s \<Longrightarrow> fits x \<Longrightarrow>
      \<exists>s' again. store x s = Some s' \<and> ok s' \<and> stream s' = stream s @ again @ x"
    and flush_stream: "ok s \<Longrightarrow> calm e s \<Longrightarrow> \<exists>s'. flush e s = Inr s' \<and> ok s' \<and> stream s' = stream s"
begin

fun run_log :: "'e log_event list \<Rightarrow> 's \<Rightarrow> 's res option" where
  "run_log [] s = Some (Inr s)"
| "run_log (Ev_log x # evs) s = (case store x s of None \<Rightarrow> None | Some s1 \<Rightarrow> run_log evs s1)"
| "run_log (Ev_flush e # evs) s = (case flush e s of Inl er \<Rightarrow> Some (Inl er) | Inr s1 \<Rightarrow> run_log evs s1)"

text \<open>Texts that fit, and flushes that find the store calm.\<close>

fun calm_run :: "'e log_event list \<Rightarrow> 's \<Rightarrow> bool" where
  "calm_run [] s = True"
| "calm_run (Ev_log x # evs) s = (fits x \<and> (case store x s of None \<Rightarrow> True | Some s1 \<Rightarrow> calm_run evs s1))"
| "calm_run (Ev_flush e # evs) s = (calm e s \<and> (case flush e s of Inl er \<Rightarrow> True | Inr s1 \<Rightarrow> calm_run evs s1))"

lemma run_log_subseq:
  "ok s \<Longrightarrow> calm_run evs s \<Longrightarrow>
     \<exists>s' new. run_log evs s = Some (Inr s') \<and> ok s' \<and> stream s' = stream s @ new \<and> subseq (logged evs) new"
proof (induction evs s rule: run_log.induct)
  case (2 x evs s)
  obtain s1 again where s1: "store x s = Some s1" "ok s1" "stream s1 = stream s @ again @ x"
    using store_stream [of s x] "2.prems" by auto
  have "calm_run evs s1" using "2.prems"(2) s1(1) by simp
  then obtain s2 new where s2: "run_log evs s1 = Some (Inr s2)" "ok s2" "stream s2 = stream s1 @ new"
      "subseq (logged evs) new"
    using "2.IH" [OF s1(1,2)] by blast
  have "subseq (x @ logged evs) ((again @ x) @ new)"
    by (rule list_emb_append_mono [OF list_emb_append2 s2(4)]) simp
  then show ?case using s1 s2 by (intro exI [of _ s2] exI [of _ "(again @ x) @ new"]) simp
next
  case (3 e evs s)
  obtain s1 where s1: "flush e s = Inr s1" "ok s1" "stream s1 = stream s"
    using flush_stream [of s e] "3.prems" by auto
  have "calm_run evs s1" using "3.prems"(2) s1(1) by simp
  then show ?case using "3.IH" [OF s1(1,2)] s1 by simp
qed simp

end

definition fits_block :: "string \<Rightarrow> bool" where
  "fits_block x \<longleftrightarrow> length x \<le> buf_block_size"

definition flush_thread :: "day_time \<times> write_res \<Rightarrow> logger \<Rightarrow> logger res" where
  "flush_thread e lg = flush_once (fst e) (snd e) lg"

definition calm_flush :: "day_time \<times> write_res \<Rightarrow> logger \<Rightarrow> bool" where
  "calm_flush e lg \<longleftrightarrow> full_write (snd e) \<and> block_count lg \<le> buf_block_num"

interpretation lgs: log_store log_stream write_buf flush_thread wf_logger fits_block calm_flush
proof
  fix lg :: logger and x :: string
  assume "wf_logger lg" "fits_block x"
  from write_buf_spec [OF this(1) this(2) [unfolded fits_block_def]]
  obtain lg1 where lg1: "write_buf x lg = Some lg1" "wf_logger lg1"
      "log_stream lg1 = log_stream lg @ (if length x \<le> room_left lg then x else take (room_left lg) x @ x)"
    by blast
  show "\<exists>s' again. write_buf x lg = Some s' \<and> wf_logger s' \<and> log_stream s' = log_stream lg @ again @ x"
    using lg1 by (intro exI [of _ lg1]
        exI [of _ "if length x \<le> room_left lg then [] else take (room_left lg) x"]) simp
next
  fix lg :: logger and e :: "day_time \<times> write_res"
  assume "wf_logger lg" "calm_flush e lg"
  then show "\<exists>s'. flush_thread e lg = Inr s' \<and> wf_logger s' \<and> log_stream s' = log_stream lg"
    using flush_once_spec [of lg "snd e" "fst e"] by (auto simp: flush_thread_def calm_flush_def)
qed

section \<open>Properties\<close>

text \<open>
  What \<open>write_buf\<close> stores, for a text no longer than a block. If the text fits the room
  in the last block it is appended. Otherwise the block is filled with the beginning of the
  text and the whole text follows in the next block, since the copy restarts at the first
  byte: the log then holds the beginning twice.
\<close>

theorem write_buf_appends:
  assumes "wf_logger lg" and "length log \<le> buf_block_size"
  shows "\<exists>lg1. write_buf log lg = Some lg1 \<and> wf_logger lg1
    \<and> log_stream lg1 = log_stream lg
        @ (if length log \<le> room_left lg then log else take (room_left lg) log @ log)"
  by (rule write_buf_spec [OF assms])

lemma wf_new_logger: "wf_logger (new_logger d)" "log_stream (new_logger d) = []"
  "room_left (new_logger d) = buf_block_size" "block_count (new_logger d) = 0"
  by (simp_all add: new_logger_def reset_file_fd_def wf_logger_def log_stream_def pending_text_def
      room_left_def block_count_def)

theorem write_buf_appends_witness:
  "\<exists>lg1. write_buf ''boot'' (new_logger 1) = Some lg1 \<and> wf_logger lg1 \<and> log_stream lg1 = ''boot''"
  using write_buf_appends [OF wf_new_logger(1), of "''boot''" 1]
  by (simp add: wf_new_logger buf_block_size_def)

text \<open>
  C9: No logged byte is lost and the order is kept, however whole calls of the logging threads and
  of the flush thread, which hold the mutex, follow each other, as long as every text fits a block, every \<open>write\<close> takes the block it is
  given, and no flush finds more than 256 blocks: the run does not fail, and the concatenation
  of the texts is a subsequence of what is in the files and the blocks, in that order.
\<close>

theorem log_keeps_everything:
  assumes "lgs.calm_run evs (new_logger today)"
  shows "\<exists>lg. lgs.run_log evs (new_logger today) = Some (Inr lg) \<and> wf_logger lg
    \<and> subseq (logged evs) (concat (files lg) @ pending_text lg)"
  using lgs.run_log_subseq [OF wf_new_logger(1) assms] wf_new_logger(2) [of today]
  by (auto simp: log_stream_def)

definition noon :: day_time where
  "noon = \<lparr>day = 1, hour = 12, minute = 0, sec = 0\<rparr>"

theorem log_keeps_everything_witness:
  "\<exists>lg. lgs.run_log [Ev_log ''a'', Ev_flush (noon, Write_count buf_block_size), Ev_log ''b''] (new_logger 1)
      = Some (Inr lg) \<and> wf_logger lg \<and> subseq ''ab'' (concat (files lg) @ pending_text lg)"
proof -
  have one: "\<exists>lg1. write_buf ''a'' (new_logger 1) = Some lg1 \<and> block_count lg1 = 1"
  proof -
    have "write_loop ''a'' 1 (new_logger 1) = write_loop ''a'' 0
        (new_logger 1\<lparr>buf_list := [\<lparr>capacity = buf_block_size, content = ''a''\<rparr>]\<rparr>)"
      by (subst write_loop.simps) (simp add: provide_block_def write_last_def block_write_def
          new_logger_def reset_file_fd_def buf_block_size_def Let_def)
    also have "\<dots> = Some (new_logger 1\<lparr>buf_list := [\<lparr>capacity = buf_block_size, content = ''a''\<rparr>]\<rparr>)"
      by (subst write_loop.simps) simp
    finally show ?thesis by (simp add: write_buf_def block_count_def new_logger_def reset_file_fd_def)
  qed
  then have "lgs.calm_run [Ev_log ''a'', Ev_flush (noon, Write_count buf_block_size), Ev_log ''b''] (new_logger 1)"
    by (auto simp: fits_block_def buf_block_size_def calm_flush_def full_write_def buf_block_num_def
        split: sum.split option.split)
  from log_keeps_everything [OF this] show ?thesis by simp
qed

lemma flush_full_spec:
  "wf_logger lg \<Longrightarrow> block_count lg \<le> buf_block_num \<Longrightarrow> length (buf_list lg) \<le> length env \<Longrightarrow> env \<noteq> []
     \<Longrightarrow> list_all (\<lambda>e. full_write (snd e)) env
     \<Longrightarrow> \<exists>lg1. flush_full env lg = Some (Inr lg1) \<and> wf_logger lg1 \<and> buf_list lg1 = []
        \<and> log_stream lg1 = log_stream lg"
proof (induction env lg rule: flush_full.induct)
  case (2 ti io env lg)
  have "full_write io" using "2.prems"(5) by simp
  then obtain lg1 where lg1: "flush_once ti io lg = Inr lg1" "wf_logger lg1" "buf_list lg1 = tl (buf_list lg)"
      "block_count lg1 = block_count lg" "log_stream lg1 = log_stream lg"
    using flush_once_spec [OF "2.prems"(1) _ "2.prems"(2)] by blast
  show ?case
  proof (cases "buf_list lg1 = []")
    case True
    then show ?thesis using lg1 by simp
  next
    case False
    have len: "length (buf_list lg1) \<le> length env" using "2.prems"(3) lg1(3) by simp
    moreover have "env \<noteq> []" using False len by auto
    ultimately show ?thesis
      using "2.IH" [OF lg1(1) False lg1(2)] lg1 False "2.prems"(2,5) by simp
  qed
qed simp

text \<open>
  C24: \<open>flush_buf(true)\<close>, as a fatal message and the destructor call it, writes everything. With
  at most 256 blocks and full writes its recursion ends after at most one call per block (and
  one), no block stays behind, and the files hold the text of files and blocks before it.
\<close>

theorem full_flush_writes_everything:
  assumes "wf_logger lg" and "block_count lg \<le> buf_block_num"
    and "max 1 (length (buf_list lg)) \<le> length env" and "list_all (\<lambda>e. full_write (snd e)) env"
  shows "\<exists>lg1. flush_full env lg = Some (Inr lg1) \<and> buf_list lg1 = []
    \<and> concat (files lg1) = concat (files lg) @ pending_text lg"
proof -
  have "length (buf_list lg) \<le> length env" "env \<noteq> []" using assms(3) by auto
  from flush_full_spec [OF assms(1,2) this assms(4)] show ?thesis
    by (auto simp: log_stream_def pending_text_def)
qed

definition two_blocks :: logger where
  "two_blocks = new_logger 1\<lparr>buf_list :=
     [\<lparr>capacity = buf_block_size, content = ''a''\<rparr>, \<lparr>capacity = buf_block_size, content = ''b''\<rparr>]\<rparr>"

theorem full_flush_writes_everything_witness:
  "\<exists>lg1. flush_full [(noon, Write_count buf_block_size), (noon, Write_count buf_block_size)] two_blocks
      = Some (Inr lg1) \<and> buf_list lg1 = [] \<and> concat (files lg1) = ''ab''"
proof -
  have "wf_logger two_blocks" "block_count two_blocks \<le> buf_block_num"
    by (simp_all add: two_blocks_def wf_logger_def new_logger_def reset_file_fd_def block_count_def
        buf_block_num_def buf_block_size_def)
  from full_flush_writes_everything [OF this,
      of "[(noon, Write_count buf_block_size), (noon, Write_count buf_block_size)]"]
  show ?thesis
    by (simp add: full_write_def) (simp add: two_blocks_def pending_text_def new_logger_def reset_file_fd_def)
qed

text \<open>
  The limit on the number of blocks keeps the oldest blocks instead of dropping them. When
  a flush finds \<open>n > 256\<close> blocks waiting, it cuts the list to its first \<open>n - 256\<close> entries, so
  the newest 256 blocks, a gigabyte of the most recent log, are gone, however small the excess
  is.
\<close>

theorem overfull_flush_drops_newest:
  assumes "wf_logger lg" and "buf_block_num < length (buf_list lg)" and "full_write io"
  shows "\<exists>lg1. flush_once ti io lg = Inr lg1 \<and> wf_logger lg1
    \<and> concat (files lg1) @ pending_text lg1 = concat (files lg)
        @ concat (map content (take (length (buf_list lg) - buf_block_num) (buf_list lg)))"
proof -
  note roll = roll_spec [OF assms(1), of ti]
  let ?lg = "trim (roll ti lg)"
  have t: "buf_list ?lg = take (length (buf_list lg) - buf_block_num) (buf_list lg)"
    "files ?lg = files (roll ti lg)" "set (empty_buf_list ?lg) \<subseteq> set (empty_buf_list lg)"
    using assms(2) by (auto simp: trim_def Let_def roll dest: in_set_takeD)
  have wf: "wf_logger ?lg"
    using roll(1) t unfolding wf_logger_def by (auto simp: roll dest!: in_set_takeD)
  from flush_first_spec [OF wf assms(3)] show ?thesis
    by (auto simp: flush_once_def log_stream_def pending_text_def t roll)
qed

definition crowded :: logger where
  "crowded = new_logger 1\<lparr>buf_list := replicate 257 \<lparr>capacity = buf_block_size, content = ''a''\<rparr>\<rparr>"

theorem overfull_flush_drops_newest_witness:
  "\<exists>lg1. flush_once noon (Write_count buf_block_size) crowded = Inr lg1 \<and> wf_logger lg1
    \<and> concat (files lg1) @ pending_text lg1 = ''a''"
proof -
  have c: "wf_logger crowded" "length (buf_list crowded) = 257" "concat (files crowded) = []"
    "take (Suc 0) (buf_list crowded) = [\<lparr>capacity = buf_block_size, content = ''a''\<rparr>]"
    by (simp_all add: crowded_def wf_logger_def new_logger_def reset_file_fd_def buf_block_size_def
        take_replicate min_def)
  from overfull_flush_drops_newest [OF c(1), of "Write_count buf_block_size" noon] show ?thesis
    by (simp add: c buf_block_num_def full_write_def)
qed

text \<open>
  The daily roll happens only by accident. With the roll time at midnight, as every logger
  starts and as every roll leaves it, a flush changes the file only if it falls into the first
  second of a day with another number; a flush at any other time of any later day does not.
\<close>

theorem roll_only_at_midnight:
  assumes "clock_time ti" and "hour (roll_time lg) = 0" and "minute (roll_time lg) = 0"
    and "sec (roll_time lg) = 0"
  shows "(files (roll ti lg) \<noteq> files lg
      \<longleftrightarrow> day ti \<noteq> day (roll_time lg) \<and> hour ti = 0 \<and> minute ti = 0 \<and> sec ti = 0)
    \<and> hour (roll_time (roll ti lg)) = 0 \<and> minute (roll_time (roll ti lg)) = 0 \<and> sec (roll_time (roll ti lg)) = 0"
  using assms by (auto simp: roll_def is_after_def reset_file_fd_def clock_time_def)

theorem roll_only_at_midnight_witness:
  "files (roll \<lparr>day = 2, hour = 0, minute = 0, sec = 1\<rparr> (new_logger 1)) = files (new_logger 1)"
  using roll_only_at_midnight [of "\<lparr>day = 2, hour = 0, minute = 0, sec = 1\<rparr>" "new_logger 1"]
  by (simp add: clock_time_def new_logger_def reset_file_fd_def)

text \<open>
  A log message is stored whole or kills the process. When prefix, message and suffix have
  together fewer than 2048 bytes the text passed on is exactly their concatenation, and it
  fits a block; any longer message fails one of the assertions.
\<close>

theorem long_message_aborts:
  "if length pre + length msg + length suf < 2048
   then format_log pre msg suf = Inr (pre @ msg @ suf) \<and> fits_block (pre @ msg @ suf)
   else format_log pre msg suf = Inl Assert_abort"
  by (auto simp: format_log_def max_log_size_def fits_block_def buf_block_size_def c_assert_def)

end
