(* ===== verification/LogLines.thy ===== *)
theory LogLines
  imports AsyncLogger HttpWriter
begin

text \<open>
  The text of a line of the log: \<open>LevelString\<close>, \<open>DateTime\<close> (src/src/logger/Logger.hpp) and what
  \<open>append_log\<close> puts around a message (src/src/logger/Logger.cpp). The clock and the number of
  the thread are given; years have four digits, as \<open>%Y\<close> prints them from 1000 on.
\<close>

section \<open>The formats\<close>

fun level_string :: "level \<Rightarrow> string" where
  "level_string TRACE = ''TRACE''"
| "level_string DEBUG = ''DEBUG''"
| "level_string INFO = ''INFO ''"
| "level_string WARN = ''WARN ''"
| "level_string ERROR = ''ERROR''"
| "level_string FATAL = ''FATAL''"

record date_time =
  tm_year :: nat
  tm_mon :: nat
  tm_mday :: nat
  tm_hour :: nat
  tm_min :: nat
  tm_sec :: nat
  tv_usec :: nat

definition two_digits :: "nat \<Rightarrow> string" where
  "two_digits n = (if n < 10 then ''0'' @ nat_digits n else nat_digits n)"

definition get_date_str :: "date_time \<Rightarrow> string" where
  "get_date_str d = nat_digits (tm_year d) @ ''-'' @ two_digits (tm_mon d) @ ''-'' @ two_digits (tm_mday d)"

definition usec_str :: "nat \<Rightarrow> string" where
  "usec_str us = (if us < 100000 then ''0'' else []) @ nat_digits us"

definition get_time_str :: "bool \<Rightarrow> date_time \<Rightarrow> string" where
  "get_time_str with_us d =
     two_digits (tm_hour d) @ '':'' @ two_digits (tm_min d) @ '':'' @ two_digits (tm_sec d)
       @ (if with_us then ''.'' @ usec_str (tv_usec d) else [])"

text \<open>\<open>%10lu\<close>, and the name of the file behind its first slash.\<close>

definition pad_left :: "nat \<Rightarrow> string \<Rightarrow> string" where
  "pad_left n s = replicate (n - length s) CHR '' '' @ s"

definition real_file :: "string \<Rightarrow> string" where
  "real_file file = (case dropWhile (\<lambda>c. c \<noteq> CHR ''/'') file of [] \<Rightarrow> file | _ # rest \<Rightarrow> rest)"

definition log_prefix :: "level \<Rightarrow> date_time \<Rightarrow> nat \<Rightarrow> string" where
  "log_prefix lv d tid = get_date_str d @ '' '' @ get_time_str True d @ '' '' @ pad_left 10 (nat_digits tid)
     @ '' '' @ level_string lv @ '' | ''"

definition log_suffix :: "string \<Rightarrow> nat \<Rightarrow> string" where
  "log_suffix file line = '' | '' @ real_file file @ '':'' @ nat_digits line @ [CHR 0x0A]"

definition append_line ::
  "level \<Rightarrow> (day_time \<times> write_res) list \<Rightarrow> date_time \<Rightarrow> nat \<Rightarrow> string \<Rightarrow> nat \<Rightarrow> string \<Rightarrow> logger \<Rightarrow> log_result res" where
  "append_line lv env d tid file line msg lg =
     append_log lv env (log_prefix lv d tid) msg (log_suffix file line) lg"

section \<open>Their lengths\<close>

lemma length_nat_digits: "10 ^ k \<le> n \<Longrightarrow> n < 10 ^ (k + 1) \<Longrightarrow> length (nat_digits n) = k + 1"
proof (induction k arbitrary: n)
  case 0
  then show ?case by (subst nat_digits.simps) simp
next
  case (Suc k)
  have "(1 :: nat) \<le> 10 ^ k" by simp
  then have "\<not> n < 10" using Suc.prems(1) unfolding power_Suc by linarith
  moreover have "10 ^ k \<le> n div 10" "n div 10 < 10 ^ (k + 1)"
    using Suc.prems by (simp_all add: less_eq_div_iff_mult_less_eq div_less_iff_less_mult mult.commute)
  ultimately have "10 ^ k \<le> n div 10" "n div 10 < 10 ^ (k + 1)" "\<not> n < 10" by blast+
  then show ?case using Suc.IH [of "n div 10"] by (subst nat_digits.simps) simp
qed

lemma length_nat_digits_le: "n < 10 ^ k \<Longrightarrow> 0 < k \<Longrightarrow> length (nat_digits n) \<le> k"
proof (induction k arbitrary: n)
  case (Suc k)
  show ?case
  proof (cases "n < 10")
    case True
    then show ?thesis by (subst nat_digits.simps) simp
  next
    case False
    then have "0 < k" using Suc.prems(1) by (cases k) simp_all
    moreover have "n div 10 < 10 ^ k" using Suc.prems(1) by (simp add: div_less_iff_less_mult mult.commute)
    ultimately show ?thesis using Suc.IH [of "n div 10"] False by (subst nat_digits.simps) simp
  qed
qed simp

lemma length_two_digits: "n < 100 \<Longrightarrow> length (two_digits n) = 2"
  using length_nat_digits [of 0 n] length_nat_digits [of 1 n]
  by (cases "n < 10"; cases "n = 0") (simp_all add: two_digits_def nat_digits.simps [of 0])

lemma digits_val_zero: "digits_val (''0'' @ ds) = digits_val ds"
  by (simp add: digits_val_def digit_val_def)

text \<open>
  The microseconds of a log line: at most one zero is put in front of them, so the digits
  behind the point, as the fraction of a second they are read as, are right only for 0 and from
  10000 on: a line written 5 microseconds after the second carries the time .05.
\<close>

theorem usec_fraction:
  assumes "us < 1000000"
  shows "digits_val (usec_str us) = int us \<and> length (usec_str us) \<le> 6
    \<and> (digits_val (usec_str us) * 10 ^ 6 = int us * 10 ^ length (usec_str us) \<longleftrightarrow> us = 0 \<or> 10000 \<le> us)"
proof -
  have val: "digits_val (usec_str us) = int us"
    by (simp add: usec_str_def digits_val_nat_digits digits_val_zero [simplified])
  consider "100000 \<le> us" | "10000 \<le> us" "us < 100000" | "us < 10000" by linarith
  then show ?thesis
  proof cases
    case 1
    then have "length (usec_str us) = 6" using length_nat_digits [of 5 us] assms by (simp add: usec_str_def)
    then show ?thesis using 1 val by simp
  next
    case 2
    then have "length (usec_str us) = 6" using length_nat_digits [of 4 us] by (simp add: usec_str_def)
    then show ?thesis using 2 val by simp
  next
    case 3
    then have len: "length (usec_str us) \<le> 5" using length_nat_digits_le [of us 4] by (simp add: usec_str_def)
    then have "(10 :: int) ^ length (usec_str us) \<noteq> 10 ^ 6" by (simp add: power_inject_exp del: power_numeral)
    then show ?thesis using 3 val len by auto
  qed
qed

lemma usec_fraction_witness:
  "digits_val (usec_str 5) * 10 ^ 6 \<noteq> 5 * 10 ^ length (usec_str 5) \<and> usec_str 5 = ''05''"
  using usec_fraction [of 5] by (simp add: usec_str_def nat_digits.simps digit_char_def char_of_def bit_Suc_0_iff)

text \<open>Around a message the line takes at most 71 characters and the name of the file.\<close>

definition date_ok :: "date_time \<Rightarrow> bool" where
  "date_ok d \<longleftrightarrow> tm_year d < 10000 \<and> tm_mon d < 100 \<and> tm_mday d < 100 \<and> tm_hour d < 100
     \<and> tm_min d < 100 \<and> tm_sec d < 100 \<and> tv_usec d < 1000000"

lemma log_prefix_length:
  assumes "date_ok d" and "tid < 2 ^ 64"
  shows "length (log_prefix lv d tid) \<le> 56"
proof -
  have "length (nat_digits (tm_year d)) \<le> 4" using assms(1) by (intro length_nat_digits_le) (simp_all add: date_ok_def)
  moreover have "length (nat_digits tid) \<le> 20" using assms(2) by (intro length_nat_digits_le) simp_all
  moreover have "length (level_string lv) = 5" by (cases lv) simp_all
  moreover have "length (usec_str (tv_usec d)) \<le> 6" using usec_fraction [of "tv_usec d"] assms(1) by (simp add: date_ok_def)
  ultimately show ?thesis
    using assms(1) by (simp add: log_prefix_def get_date_str_def get_time_str_def pad_left_def date_ok_def length_two_digits)
qed

lemma log_suffix_length:
  assumes "line < 2 ^ 31"
  shows "length (log_suffix file line) \<le> length (real_file file) + 15"
proof -
  have "length (nat_digits line) \<le> 10" using assms by (intro length_nat_digits_le) simp_all
  then show ?thesis by (simp add: log_suffix_def)
qed

theorem line_fits:
  assumes "date_ok d" and "tid < 2 ^ 64" and "line < 2 ^ 31" and "length msg + length (real_file file) \<le> 1976"
  shows "format_log (log_prefix lv d tid) msg (log_suffix file line)
      = Inr (log_prefix lv d tid @ msg @ log_suffix file line)
    \<and> fits_block (log_prefix lv d tid @ msg @ log_suffix file line)"
proof -
  let ?pre = "log_prefix lv d tid" and ?suf = "log_suffix file line"
  have "length ?pre \<le> 56" "length ?suf \<le> length (real_file file) + 15"
    using log_prefix_length [OF assms(1,2)] log_suffix_length [OF assms(3)] by blast+
  then have "length ?pre + 1 \<le> max_log_size" "length msg + 1 \<le> max_log_size - length ?pre"
      "length ?suf + 1 \<le> max_log_size - length (?pre @ msg)" "fits_block (?pre @ msg @ ?suf)"
    using assms(4) by (simp_all add: max_log_size_def fits_block_def buf_block_size_def)
  then show ?thesis by (simp only: format_log_def c_assert_simps bind_res_simps)
qed

end
