(* ===== verification/LoggerThread.thy ===== *)
theory LoggerThread
  imports LogLines
begin

text \<open>
  The life of the logger (src/src/logger/Logger.cpp): the flush thread, the threads that log and
  the destructor, interleaved. The mutex is held by the flush thread except while it waits on
  the condition variable, and by a logging thread during \<open>write_buf\<close>; a step here is what a
  thread does while it holds the mutex. The store is that of \<open>AsyncLogger\<close>.
\<close>

section \<open>The flush thread\<close>

text \<open>
  Where the thread of \<open>flush_loop_in_thread\<close> is: before its first lock, at the head of its loop
  with the mutex, in \<open>wait_for\<close> without it, or over.
\<close>

datatype flusher = Starting | At_head | In_wait | Ended

text \<open>\<open>texts\<close> only records what was logged.\<close>

record log_system =
  log_store :: logger
  flusher :: flusher
  is_thread_run :: bool
  texts :: "string list"

definition start_logger :: "int \<Rightarrow> log_system" where
  "start_logger today = \<lparr>log_store = new_logger today, flusher = Starting, is_thread_run = True, texts = []\<rparr>"

definition need_buf_flush :: "logger \<Rightarrow> bool" where
  "need_buf_flush lg \<longleftrightarrow> 1 < length (buf_list lg)"

definition flush_then_head :: "day_time \<times> write_res \<Rightarrow> log_system \<Rightarrow> log_system res" where
  "flush_then_head e s =
     bind_res (flush_thread e (log_store s)) (\<lambda>lg. Inr (s\<lparr>log_store := lg, flusher := At_head\<rparr>))"

text \<open>
  A move of the thread; \<open>e\<close> is for the flush it may do. \<open>wait_for\<close> returns after its time-out, or
  earlier when it is notified and a flush is needed.
\<close>

definition flusher_next :: "day_time \<times> write_res \<Rightarrow> log_system \<Rightarrow> log_system res" where
  "flusher_next e s =
     (case flusher s of
        Starting \<Rightarrow> Inr (s\<lparr>flusher := At_head\<rparr>)
      | At_head \<Rightarrow>
          if \<not> is_thread_run s then Inr (s\<lparr>flusher := Ended\<rparr>)
          else if need_buf_flush (log_store s) then flush_then_head e s
          else Inr (s\<lparr>flusher := In_wait\<rparr>)
      | In_wait \<Rightarrow> flush_then_head e s
      | Ended \<Rightarrow> Inr s)"

fun flusher_moves :: "(day_time \<times> write_res) list \<Rightarrow> log_system \<Rightarrow> log_system res" where
  "flusher_moves [] s = Inr s"
| "flusher_moves (e # es) s = bind_res (flusher_next e s) (flusher_moves es)"

text \<open>The destructor: its first statement, and what it does after the thread was joined.\<close>

definition quit_logger :: "log_system \<Rightarrow> log_system" where
  "quit_logger s = s\<lparr>is_thread_run := False\<rparr>"

definition destroy_logger :: "(day_time \<times> write_res) list \<Rightarrow> log_system \<Rightarrow> logger res option" where
  "destroy_logger env s = (if flusher s = Ended then flush_full env (log_store s) else None)"

text \<open>Runs in which the texts fit a block and the flushes find the store calm.\<close>

inductive log_step :: "log_system \<Rightarrow> log_system \<Rightarrow> bool" where
  moves: "calm_flush e (log_store s) \<Longrightarrow> flusher_next e s = Inr s' \<Longrightarrow> log_step s s'"
| logs: "flusher s \<noteq> At_head \<Longrightarrow> fits_block x \<Longrightarrow> write_buf x (log_store s) = Some lg \<Longrightarrow>
    log_step s (s\<lparr>log_store := lg, texts := texts s @ [x]\<rparr>)"
| quits: "log_step s (quit_logger s)"

inductive log_reach :: "log_system \<Rightarrow> bool" where
  started: "log_reach (start_logger today)"
| step: "log_reach s \<Longrightarrow> log_step s s' \<Longrightarrow> log_reach s'"

inductive_cases log_stepE: "log_step s s'"

section \<open>Its invariant\<close>

definition log_inv :: "log_system \<Rightarrow> bool" where
  "log_inv s \<longleftrightarrow> wf_logger (log_store s) \<and> subseq (concat (texts s)) (log_stream (log_store s))
     \<and> (flusher s = Ended \<longrightarrow> \<not> is_thread_run s)"

lemma flusher_next_ok:
  assumes "wf_logger (log_store s)" and "calm_flush e (log_store s)"
  shows "\<exists>s'. flusher_next e s = Inr s' \<and> wf_logger (log_store s')
    \<and> log_stream (log_store s') = log_stream (log_store s)
    \<and> block_count (log_store s') = block_count (log_store s)
    \<and> texts s' = texts s \<and> is_thread_run s' = is_thread_run s
    \<and> flusher s' = (case flusher s of
         Starting \<Rightarrow> At_head
       | At_head \<Rightarrow> if \<not> is_thread_run s then Ended else if need_buf_flush (log_store s) then At_head else In_wait
       | In_wait \<Rightarrow> At_head
       | Ended \<Rightarrow> Ended)"
proof -
  obtain lg where lg: "flush_thread e (log_store s) = Inr lg" "wf_logger lg" "log_stream lg = log_stream (log_store s)"
      "block_count lg = block_count (log_store s)"
    using flush_once_spec [of "log_store s" "snd e" "fst e"] assms by (auto simp: flush_thread_def calm_flush_def)
  then show ?thesis using assms(1)
    by (auto simp: flusher_next_def flush_then_head_def split: flusher.split)
qed

lemma log_step_inv: "log_step s s' \<Longrightarrow> log_inv s \<Longrightarrow> log_inv s'"
proof (erule log_stepE)
  fix e assume inv: "log_inv s" and calm: "calm_flush e (log_store s)" and s': "flusher_next e s = Inr s'"
  then show "log_inv s'"
    using flusher_next_ok [of s e] by (auto simp: log_inv_def split: flusher.splits if_splits)
next
  fix x lg assume inv: "log_inv s" and x: "fits_block x" "write_buf x (log_store s) = Some lg"
    and s': "s' = s\<lparr>log_store := lg, texts := texts s @ [x]\<rparr>"
  obtain again where lg: "wf_logger lg" "log_stream lg = log_stream (log_store s) @ again @ x"
    using lgs.store_stream [of "log_store s" x] inv x by (auto simp: log_inv_def)
  have "subseq (concat (texts s) @ x) (log_stream (log_store s) @ again @ x)"
    using inv by (intro list_emb_append_mono list_emb_append2) (simp_all add: log_inv_def)
  then show "log_inv s'" using lg inv s' by (simp add: log_inv_def)
qed (simp add: log_inv_def quit_logger_def)

lemma log_reach_inv: "log_reach s \<Longrightarrow> log_inv s"
proof (induction rule: log_reach.induct)
  case (started today)
  then show ?case using wf_new_logger(1) by (simp add: log_inv_def start_logger_def)
qed (rule log_step_inv)

section \<open>The end of the logger\<close>

lemma flusher_next_store:
  assumes "flusher_next e s = Inr s'" and "wf_logger (log_store s)" and "calm_flush e (log_store s)"
  shows "calm_flush e' (log_store s') = calm_flush e' (log_store s)"
  using flusher_next_ok [OF assms(2,3)] assms(1) by (auto simp: calm_flush_def)

text \<open>Once told to end, the thread needs at most two moves; one of them may be a last flush.\<close>

lemma flusher_ends:
  assumes "wf_logger (log_store s)" and "\<not> is_thread_run s"
    and "calm_flush e1 (log_store s)" and "calm_flush e2 (log_store s)"
  shows "\<exists>s'. flusher_moves [e1, e2] s = Inr s' \<and> flusher s' = Ended \<and> wf_logger (log_store s')
    \<and> log_stream (log_store s') = log_stream (log_store s)
    \<and> block_count (log_store s') = block_count (log_store s) \<and> texts s' = texts s"
proof -
  obtain s1 where s1: "flusher_next e1 s = Inr s1" "wf_logger (log_store s1)"
      "log_stream (log_store s1) = log_stream (log_store s)" "block_count (log_store s1) = block_count (log_store s)"
      "texts s1 = texts s" "\<not> is_thread_run s1" "flusher s1 = At_head \<or> flusher s1 = Ended"
    using flusher_next_ok [OF assms(1,3)] assms(2) by (cases "flusher s") auto
  have "calm_flush e2 (log_store s1)" using flusher_next_store [OF s1(1) assms(1,3)] assms(4) by blast
  from flusher_next_ok [OF s1(2) this] obtain s2 where "flusher_next e2 s1 = Inr s2" "wf_logger (log_store s2)"
      "log_stream (log_store s2) = log_stream (log_store s1)" "block_count (log_store s2) = block_count (log_store s1)"
      "texts s2 = texts s1" "flusher s2 = Ended"
    using s1(6,7) by auto
  then show ?thesis using s1 by (intro exI [of _ s2]) simp
qed

text \<open>
  C25: Nothing that was logged is lost when the program ends, if every text fits a block, every
  write takes its whole block and at most 256 blocks are in use. From any such state of the
  logger and its threads, told to end, the flush thread is over after two moves at most, so the join in the
  destructor returns (if the thread waits, when its time-out has passed); the destructor then
  empties every block, and the files hold all logged texts in their order.
\<close>

theorem log_survives_exit:
  assumes "log_reach s" and "block_count (log_store s) \<le> buf_block_num"
    and "full_write w1" and "full_write w2"
    and "block_count (log_store s) < length env" and "list_all (\<lambda>e. full_write (snd e)) env"
  shows "\<exists>s' lg. flusher_moves [(t1, w1), (t2, w2)] (quit_logger s) = Inr s' \<and> flusher s' = Ended
    \<and> destroy_logger env s' = Some (Inr lg) \<and> buf_list lg = [] \<and> subseq (concat (texts s)) (concat (files lg))"
proof -
  let ?q = "quit_logger s"
  have inv: "wf_logger (log_store s)" "subseq (concat (texts s)) (log_stream (log_store s))"
    using log_reach_inv [OF assms(1)] by (simp_all add: log_inv_def)
  obtain s' where s': "flusher_moves [(t1, w1), (t2, w2)] ?q = Inr s'" "flusher s' = Ended" "wf_logger (log_store s')"
      "log_stream (log_store s') = log_stream (log_store s)" "block_count (log_store s') = block_count (log_store s)"
    using flusher_ends [of ?q "(t1, w1)" "(t2, w2)"] inv(1) assms(2-4)
    by (auto simp: quit_logger_def calm_flush_def)
  have "length (buf_list (log_store s')) \<le> length env" "env \<noteq> []"
    using assms(5) s'(5) by (auto simp: block_count_def)
  then obtain lg where lg: "flush_full env (log_store s') = Some (Inr lg)" "buf_list lg = []"
      "log_stream lg = log_stream (log_store s')"
    using flush_full_spec [of "log_store s'" env] s'(3,5) assms(2,6) by auto
  have "log_stream lg = concat (files lg)" using lg(2) by (simp add: log_stream_def pending_text_def)
  then show ?thesis using s' lg inv(2) by (auto simp: destroy_logger_def)
qed

theorem log_survives_exit_witness:
  "\<exists>lg s s' lg'. write_buf ''bye'' (new_logger 1) = Some lg
    \<and> s = (start_logger 1)\<lparr>log_store := lg, texts := [''bye'']\<rparr>
    \<and> flusher_moves (replicate 2 (noon, Write_count buf_block_size)) (quit_logger s) = Inr s'
    \<and> destroy_logger (replicate 2 (noon, Write_count buf_block_size)) s' = Some (Inr lg')
    \<and> subseq ''bye'' (concat (files lg'))"
proof -
  have stored: "write_buf ''bye'' (new_logger 1)
      = Some (new_logger 1\<lparr>buf_list := [\<lparr>capacity = buf_block_size, content = ''bye''\<rparr>]\<rparr>)"
    by (simp add: write_buf_def write_loop.simps provide_block_def write_last_def block_write_def
        new_logger_def reset_file_fd_def buf_block_size_def Let_def)
  let ?lg = "new_logger 1\<lparr>buf_list := [\<lparr>capacity = buf_block_size, content = ''bye''\<rparr>]\<rparr>"
  let ?s = "(start_logger 1)\<lparr>log_store := ?lg, texts := [''bye'']\<rparr>"
  have "log_step (start_logger 1) ?s"
    using log_step.logs [of "start_logger 1" "''bye''" ?lg] stored
    by (simp add: start_logger_def fits_block_def buf_block_size_def)
  then have reach: "log_reach ?s" by (rule log_reach.step [OF log_reach.started])
  have "block_count (log_store ?s) = 1" by (simp add: block_count_def new_logger_def reset_file_fd_def)
  then show ?thesis
    using log_survives_exit [OF reach, of "Write_count buf_block_size" "Write_count buf_block_size"
        "replicate 2 (noon, Write_count buf_block_size)" noon noon] stored
    by (auto simp: buf_block_num_def full_write_def numeral_2_eq_2)
qed

end
