(* ===== verification/LoopTimers.thy ===== *)
theory LoopTimers
  imports TimerWheel
begin

text \<open>
  Timers of the event loop: \<open>EventLoop::add_timer\<close> and its other operations under the loop's mutex
  (src/src/reactor/EventLoop.cpp), and the timer descriptor that drives the wheel
  (src/src/reactor/TimerSchedulerAdapter.cpp). A callback is a program over the operations of
  the loop, run by the loop's own thread; the mutex is not recursive, so a thread that locks
  it twice waits for ever.
\<close>

section \<open>Programs over the loop\<close>

text \<open>
  A program ends, posts a callback, adds a timer and goes on with its id, removes one, or
  updates or removes a channel (whose effect is in \<open>Channels\<close>; here only its lock counts).
\<close>

datatype task =
    Finish
  | Post_task task task
  | Add_timer u64 task "timer_id \<Rightarrow> task"
  | Remove_timer timer_id task
  | Use_channel task

record looper =
  mu_held :: bool
  task_list :: "task list"
  eventfd :: nat
  ti_sche :: "task wheel"
  clock_reads :: nat

definition lock :: "looper \<Rightarrow> looper res" where
  "lock lp = (if mu_held lp then Inl Self_deadlock else Inr (lp\<lparr>mu_held := True\<rparr>))"

definition unlock :: "looper \<Rightarrow> looper" where
  "unlock lp = lp\<lparr>mu_held := False\<rparr>"

definition post_locked :: "task \<Rightarrow> looper \<Rightarrow> looper" where
  "post_locked b lp = lp\<lparr>task_list := task_list lp @ [b], eventfd := eventfd lp + 1\<rparr>"

text \<open>
  The wheel's \<open>add_timer\<close> with the readings of the clock; a callback it calls is the last thing
  it does, so it is returned here and executed by the caller, before the lock is released.
\<close>

definition wheel_add :: "(nat \<Rightarrow> u64) \<Rightarrow> u64 \<Rightarrow> task \<Rightarrow> looper \<Rightarrow> (timer_id \<times> task option \<times> looper) res" where
  "wheel_add clk ms b lp =
     (let n = clock_reads lp
      in bind_res (add_timer quiet (clk n) (clk (n + 1)) (clk (n + 2)) \<lparr>trigger_after_ms = ms, timer_cb = b\<rparr> (ti_sche lp))
           (\<lambda>(i, w, fired). Inr (i, (case fired of [] \<Rightarrow> None | cb # _ \<Rightarrow> Some cb),
                                lp\<lparr>ti_sche := w, clock_reads := n + 3\<rparr>)))"

primrec exec_task :: "(nat \<Rightarrow> u64) \<Rightarrow> task \<Rightarrow> looper \<Rightarrow> looper res" where
  "exec_task clk Finish lp = Inr lp"
| "exec_task clk (Post_task b k) lp =
     bind_res (lock lp) (\<lambda>l. exec_task clk k (unlock (post_locked b l)))"
| "exec_task clk (Add_timer ms b k) lp =
     bind_res (lock lp) (\<lambda>l.
     bind_res (wheel_add clk ms b l) (\<lambda>(i, fired, l1).
     bind_res (if fired = None then Inr l1 else exec_task clk b l1) (\<lambda>l2.
     exec_task clk (k i) (unlock l2))))"
| "exec_task clk (Remove_timer i k) lp =
     bind_res (lock lp) (\<lambda>l.
     bind_res (remove_timer i (ti_sche l)) (\<lambda>w. exec_task clk k (unlock (l\<lparr>ti_sche := w\<rparr>))))"
| "exec_task clk (Use_channel k) lp = bind_res (lock lp) (\<lambda>l. exec_task clk k (unlock l))"

section \<open>The timer descriptor\<close>

text \<open>What \<open>reset_timefd\<close> hands to \<open>timerfd_settime\<close>, in the arithmetic of \<open>uint64_t\<close>.\<close>

record itimerspec =
  tv_sec :: u64
  tv_nsec :: u64

definition reset_timefd :: "u64 \<Rightarrow> itimerspec" where
  "reset_timefd after = \<lparr>tv_sec = after div 1000, tv_nsec = (after mod 1000) * 1000000\<rparr>"

text \<open>The kernel's rules: nanoseconds below one second, and zero disarms the timer.\<close>

definition settime_ok :: "itimerspec \<Rightarrow> bool" where
  "settime_ok ts \<longleftrightarrow> unat (tv_sec ts) < 2 ^ 63 \<and> unat (tv_nsec ts) \<le> 999999999"

definition armed :: "itimerspec \<Rightarrow> bool" where
  "armed ts \<longleftrightarrow> tv_sec ts \<noteq> 0 \<or> tv_nsec ts \<noteq> 0"

definition read_timefd :: "int \<Rightarrow> unit res" where
  "read_timefd n = assertm (n = 8)"

text \<open>
  The read callback of the descriptor: \<open>n\<close> is what \<open>read\<close> returned; the wheel is triggered, and
  the descriptor is set to the time the wheel asks for.
\<close>

definition timefd_event :: "'cb run \<Rightarrow> int \<Rightarrow> u64 \<Rightarrow> u64 \<Rightarrow> 'cb wheel \<Rightarrow> ('cb wheel \<times> 'cb list \<times> itimerspec) res option" where
  "timefd_event run n now1 now w =
     bind_ro (Some (read_timefd n)) (\<lambda>_.
     bind_ro (trigger_timer run now1 now w) (\<lambda>(w', fired, after).
     bind_ro (Some (assertm (settime_ok (reset_timefd after)))) (\<lambda>_.
     Some (Inr (w', fired, reset_timefd after)))))"

definition adapter_init :: "itimerspec" where
  "adapter_init = reset_timefd 1"

section \<open>The mutex\<close>

lemma lock_free [simp]: "\<not> mu_held lp \<Longrightarrow> lock lp = Inr (lp\<lparr>mu_held := True\<rparr>)"
  by (simp add: lock_def)

lemma lock_held [simp]: "mu_held lp \<Longrightarrow> lock lp = Inl Self_deadlock"
  by (simp add: lock_def)

lemma unlock_free [simp]: "\<not> mu_held (unlock lp)"
  by (simp add: unlock_def)

text \<open>Under the lock only the empty program ends.\<close>

lemma exec_locked: "mu_held lp \<Longrightarrow> exec_task clk t lp = (if t = Finish then Inr lp else Inl Self_deadlock)"
  by (cases t) simp_all

lemma wheel_add_held: "wheel_add clk ms b lp = Inr (i, fired, lp') \<Longrightarrow> mu_held lp' = mu_held lp"
  by (auto simp: wheel_add_def Let_def bind_res_Inr_iff)

lemma exec_unlocks: "exec_task clk t lp = Inr lp' \<Longrightarrow> \<not> mu_held lp \<Longrightarrow> \<not> mu_held lp'"
proof (induction t arbitrary: lp)
  case (Add_timer ms b k)
  then obtain i l where "exec_task clk (k i) (unlock l) = Inr lp'"
    by (auto simp: bind_res_Inr_iff split: if_splits prod.splits)
  then show ?case by (rule Add_timer.IH(2) [OF rangeI]) simp
next
  case (Remove_timer i k)
  then obtain l where "exec_task clk k (unlock l) = Inr lp'" by (auto simp: bind_res_Inr_iff)
  then show ?case by (rule Remove_timer.IH) simp
qed auto

lemma relock:
  assumes "\<not> mu_held lp"
  shows "unlock (lp\<lparr>mu_held := True, clock_reads := n\<rparr>) = lp\<lparr>clock_reads := n\<rparr>"
    and "unlock (lp\<lparr>mu_held := True, ti_sche := w, clock_reads := n\<rparr>) = lp\<lparr>ti_sche := w, clock_reads := n\<rparr>"
  using assms by (cases lp; simp add: unlock_def)+

section \<open>Properties\<close>


definition fresh_looper :: looper where
  "fresh_looper = \<lparr>mu_held = False, task_list = [], eventfd = 0, ti_sche = new_wheel 1000, clock_reads = 0\<rparr>"


text \<open>
  \<open>reset_timefd\<close> converts milliseconds without loss: the seconds and nanoseconds it hands to
  \<open>timerfd_settime\<close> are in the ranges the kernel accepts, for every 64-bit argument, they add up
  to the argument, and the descriptor is disarmed only by 0.
\<close>

theorem reset_timefd_exact:
  "settime_ok (reset_timefd after)
    \<and> unat (tv_sec (reset_timefd after)) * 1000 + unat (tv_nsec (reset_timefd after)) div 1000000 = unat after
    \<and> unat (tv_nsec (reset_timefd after)) mod 1000000 = 0
    \<and> (armed (reset_timefd after) \<longleftrightarrow> after \<noteq> 0)"
proof -
  let ?ms = "unat after mod 1000"
  have ns: "unat (tv_nsec (reset_timefd after)) = ?ms * 1000000"
  proof -
    have "?ms * 1000000 < 2 ^ 64" using mod_less_divisor [of 1000 "unat after"] by simp
    then show ?thesis
      by (simp add: reset_timefd_def unat_word_ariths unat_mod_distrib)
  qed
  have sec: "unat (tv_sec (reset_timefd after)) = unat after div 1000"
    by (simp add: reset_timefd_def unat_div_distrib)
  have bound: "unat after div 1000 < 2 ^ 63"
  proof -
    have "unat after < 2 ^ 64" using unsigned_less [of after] by simp
    then show ?thesis by simp
  qed
  have "?ms < 1000" by simp
  then have "?ms * 1000000 \<le> 999999999" by linarith
  then have ok: "settime_ok (reset_timefd after)" using ns sec bound by (simp add: settime_ok_def)
  have "armed (reset_timefd after) \<longleftrightarrow> \<not> (unat after div 1000 = 0 \<and> ?ms = 0)"
    using ns sec by (metis armed_def mult_is_0 unat_eq_zero zero_neq_numeral)
  also have "\<dots> \<longleftrightarrow> after \<noteq> 0"
    using div_mult_mod_eq [of "unat after" 1000] unat_eq_zero [of after] by auto
  finally show ?thesis using ok ns sec by simp
qed

text \<open>
  Every expiry of the timer descriptor runs the due timers and arms the descriptor again.
  When it fires with a well-formed wheel and callbacks that leave the wheel alone, the event
  calls exactly the timers due at the slot time of the clock, in order, and sets the
  descriptor to expire 10 ms later; the constructor arms it for the first time. A short or
  failed read of the descriptor throws instead.
\<close>

theorem timefd_event_rearms:
  assumes "wf_wheel w" and "now \<noteq> -1"
  shows "armed adapter_init
    \<and> (\<exists>w'. timefd_event quiet 8 now1 now w
        = Some (Inr (w', map (timer_cb \<circ> snd \<circ> snd) (filter (\<lambda>d. fst d \<le> slot_time now) (agenda w)),
                     \<lparr>tv_sec = 0, tv_nsec = 10000000\<rparr>))
      \<and> agenda w' = filter (\<lambda>d. slot_time now < fst d) (agenda w) \<and> wf_wheel w')
    \<and> armed \<lparr>tv_sec = 0, tv_nsec = 10000000\<rparr>
    \<and> (n \<noteq> 8 \<longrightarrow> timefd_event quiet n now1 now w = Some (Inl Runtime_error))"
proof -
  have ms: "reset_timefd every_ms = \<lparr>tv_sec = 0, tv_nsec = 10000000\<rparr>"
    by (simp add: reset_timefd_def every_ms_def)
  moreover have "settime_ok \<lparr>tv_sec = 0, tv_nsec = 10000000\<rparr>" by (simp add: settime_ok_def)
  ultimately show ?thesis
    using trigger_timer_quiet [OF assms, of now1]
    by (auto simp: timefd_event_def read_timefd_def adapter_init_def armed_def reset_timefd_def)
qed

theorem timefd_event_rearms_witness:
  "\<exists>w'. timefd_event quiet 8 0 1005 (new_wheel 1000 :: string wheel)
    = Some (Inr (w', [], \<lparr>tv_sec = 0, tv_nsec = 10000000\<rparr>))"
proof -
  have new: "wf_wheel (new_wheel 1000 :: string wheel) \<and> agenda (new_wheel 1000 :: string wheel) = []"
    by (rule wf_new_wheel) simp
  have "(1005 :: u64) \<noteq> -1" by simp
  from timefd_event_rearms [OF conjunct1 [OF new] this, of 0] new show ?thesis by auto
qed

end
