(* ===== verification/TcpConnection.thy ===== *)
theory TcpConnection
  imports BaseBuffer
begin

text \<open>
  \<open>TCPConnection\<close> (src/src/tcp/TCPConnection.hpp, TcpConnection.cpp) with the read and write
  events of its channel. The handlers run in the thread of the loop, so the checks of the
  thread hold and are left out; logging is left out.

  User code is a program over the public operations: it performs an operation, sees what it
  returned and goes on. What the connection does to the outside, in order, is its trace:
  messages accepted from the user, bytes the kernel took, shutdowns of the socket, and the
  request to be removed that it posts to the loop.
\<close>

section \<open>State\<close>

datatype conn_state = CONNECTING | HALF_CLOSE | FULL_CLOSE

datatype net_event =
    Accepted string
  | Sent string
  | Shut_wr
  | Shut_rdwr
  | Posted_remove

record conn =
  cstate :: conn_state
  read_enabled :: bool
  write_enabled :: bool
  read_buf :: buffer
  write_buf :: buffer
  trace :: "net_event list"

datatype api =
    Send_data string
  | Get_data
  | Pop_data
  | Pop_data_len int
  | Half_close
  | Full_close

text \<open>A program: the continuation of an operation receives the text \<open>get_data\<close> returned.\<close>

datatype prog = Done | Do api "string \<Rightarrow> prog"

record user_callback =
  open_cb :: "prog option"
  close_cb :: "prog option"
  message_cb :: "prog option"
  write_high :: "prog option"
  write_lower :: "prog option"

definition max_write_buf_size :: nat where
  "max_write_buf_size = 1024 * 1024"

definition emit_event :: "net_event \<Rightarrow> conn \<Rightarrow> conn" where
  "emit_event e c = c\<lparr>trace := trace c @ [e]\<rparr>"

section \<open>Operations\<close>

text \<open>
  The close callback runs in the state \<open>FULL_CLOSE\<close>, in which the first check of every
  operation fails.
\<close>

definition closed_error :: "api \<Rightarrow> cerror" where
  "closed_error op = (case op of Half_close \<Rightarrow> Assert_abort | _ \<Rightarrow> Runtime_error)"

definition run_close_cb :: "prog option \<Rightarrow> conn \<Rightarrow> conn res" where
  "run_close_cb cb c = (case cb of Some (Do op _) \<Rightarrow> Inl (closed_error op) | _ \<Rightarrow> Inr c)"

definition full_close :: "user_callback \<Rightarrow> conn \<Rightarrow> conn res" where
  "full_close uc c =
     bind_res (assertm (cstate c \<noteq> FULL_CLOSE)) (\<lambda>_.
     bind_res (run_close_cb (close_cb uc) (emit_event Shut_rdwr (c\<lparr>cstate := FULL_CLOSE\<rparr>))) (\<lambda>c1.
     Inr (emit_event Posted_remove c1)))"

definition half_close :: "conn \<Rightarrow> conn res" where
  "half_close c =
     bind_res (c_assert (cstate c = CONNECTING)) (\<lambda>_.
     let c1 = c\<lparr>cstate := HALF_CLOSE\<rparr>
     in Inr (if get_size (write_buf c1) = 0 \<and> \<not> write_enabled c1 then emit_event Shut_wr c1 else c1))"

definition send_data :: "user_callback \<Rightarrow> string \<Rightarrow> conn \<Rightarrow> conn res" where
  "send_data uc msg c =
     bind_res (assertm (cstate c = CONNECTING)) (\<lambda>_.
     if max_write_buf_size \<le> get_size (write_buf c) + length msg then full_close uc c
     else Inr (emit_event (Accepted msg) (c\<lparr>write_buf := push msg (write_buf c), write_enabled := True\<rparr>)))"

definition get_data :: "conn \<Rightarrow> string res" where
  "get_data c = bind_res (assertm (cstate c \<noteq> FULL_CLOSE)) (\<lambda>_. Inr (peek (read_buf c)))"

definition pop_data :: "conn \<Rightarrow> conn res" where
  "pop_data c =
     bind_res (assertm (cstate c \<noteq> FULL_CLOSE)) (\<lambda>_.
     bind_res (pop_all (read_buf c)) (\<lambda>b. Inr (c\<lparr>read_buf := b\<rparr>)))"

definition pop_data_len :: "int \<Rightarrow> conn \<Rightarrow> conn res" where
  "pop_data_len len c =
     bind_res (assertm (cstate c \<noteq> FULL_CLOSE)) (\<lambda>_.
     bind_res (pop_len len (read_buf c)) (\<lambda>b. Inr (c\<lparr>read_buf := b\<rparr>)))"

definition do_api :: "user_callback \<Rightarrow> api \<Rightarrow> conn \<Rightarrow> (string \<times> conn) res" where
  "do_api uc op c =
     (case op of
        Send_data msg \<Rightarrow> bind_res (send_data uc msg c) (\<lambda>c1. Inr ([], c1))
      | Get_data \<Rightarrow> bind_res (get_data c) (\<lambda>s. Inr (s, c))
      | Pop_data \<Rightarrow> bind_res (pop_data c) (\<lambda>c1. Inr ([], c1))
      | Pop_data_len n \<Rightarrow> bind_res (pop_data_len n c) (\<lambda>c1. Inr ([], c1))
      | Half_close \<Rightarrow> bind_res (half_close c) (\<lambda>c1. Inr ([], c1))
      | Full_close \<Rightarrow> bind_res (full_close uc c) (\<lambda>c1. Inr ([], c1)))"

primrec run_prog :: "user_callback \<Rightarrow> prog \<Rightarrow> conn \<Rightarrow> conn res" where
  "run_prog uc Done c = Inr c"
| "run_prog uc (Do op k) c = bind_res (do_api uc op c) (\<lambda>sc. run_prog uc (k (fst sc)) (snd sc))"

definition run_cb :: "user_callback \<Rightarrow> prog option \<Rightarrow> conn \<Rightarrow> conn res" where
  "run_cb uc cb c = (case cb of None \<Rightarrow> Inr c | Some p \<Rightarrow> run_prog uc p c)"

lemma do_api_closed: "cstate c = FULL_CLOSE \<Longrightarrow> do_api uc op c = Inl (closed_error op)"
  by (cases op) (simp_all add: do_api_def closed_error_def send_data_def get_data_def pop_data_def
      pop_data_len_def half_close_def full_close_def)

text \<open>The constructor: reading is enabled, writing is not, and the open callback runs.\<close>

definition init_conn :: conn where
  "init_conn = \<lparr>cstate = CONNECTING, read_enabled = True, write_enabled = False,
     read_buf = new_buffer, write_buf = new_buffer, trace = []\<rparr>"

definition new_conn :: "user_callback \<Rightarrow> conn res" where
  "new_conn uc = run_cb uc (open_cb uc) init_conn"

section \<open>Events\<close>

definition ignorable :: "errno \<Rightarrow> bool" where
  "ignorable e \<longleftrightarrow> e = EAGAIN \<or> e = EINTR"

definition handle_read :: "user_callback \<Rightarrow> read_res \<Rightarrow> conn \<Rightarrow> conn res" where
  "handle_read uc io c =
     (let (n, b) = push_from io (read_buf c); c1 = c\<lparr>read_buf := b\<rparr>
      in case n of
           Read_data bs \<Rightarrow>
             if bs \<noteq> [] then
               (case message_cb uc of
                  Some p \<Rightarrow> run_prog uc p c1
                | None \<Rightarrow> bind_res (pop_all b) (\<lambda>b1. Inr (c1\<lparr>read_buf := b1\<rparr>)))
             else full_close uc c1
         | Read_fail e \<Rightarrow> if ignorable e then Inr c1 else full_close uc c1)"

text \<open>\<open>assertm(-1)\<close> in the branch for 0 bytes converts -1 to true and does nothing.\<close>

definition handle_write :: "user_callback \<Rightarrow> write_res \<Rightarrow> conn \<Rightarrow> conn res" where
  "handle_write uc io c =
     bind_res (assertm (0 < get_size (write_buf c))) (\<lambda>_.
     let (n, bs, b) = pop_to io (write_buf c); c1 = c\<lparr>write_buf := b\<rparr>
     in case n of
          Write_count k \<Rightarrow>
            if 0 < k then
              (let c2 = emit_event (Sent bs) c1
               in if get_size (write_buf c2) = 0 then
                    bind_res (run_cb uc (write_lower uc) (c2\<lparr>write_enabled := False\<rparr>)) (\<lambda>c3.
                    Inr (if cstate c3 = HALF_CLOSE then emit_event Shut_wr c3 else c3))
                  else if max_write_buf_size \<le> get_size (write_buf c2) then run_cb uc (write_high uc) c2
                  else Inr c2)
            else bind_res (assertm True) (\<lambda>_. Inr c1)
        | Write_fail e \<Rightarrow> if ignorable e then Inr c1 else full_close uc c1)"

text \<open>
  \<open>Channel::handle_event\<close> for what one call of \<open>epoll_wait\<close> reports: the read callback, then
  the write callback, both as reported, whatever the first one did.
\<close>

definition handle_event :: "user_callback \<Rightarrow> read_res option \<Rightarrow> write_res option \<Rightarrow> conn \<Rightarrow> conn res" where
  "handle_event uc r w c =
     bind_res (case r of None \<Rightarrow> Inr c | Some io \<Rightarrow> handle_read uc io c) (\<lambda>c1.
     case w of None \<Rightarrow> Inr c1 | Some io \<Rightarrow> handle_write uc io c1)"

section \<open>Runs of a connection\<close>

text \<open>
  One step: the loop reports enabled events, or user code that runs in the loop performs an
  operation. Only steps that do not end in an exception are steps.
\<close>

inductive conn_step :: "user_callback \<Rightarrow> conn \<Rightarrow> conn \<Rightarrow> bool" for uc where
  event: "(r \<noteq> None \<longrightarrow> read_enabled c) \<Longrightarrow> (w \<noteq> None \<longrightarrow> write_enabled c)
     \<Longrightarrow> handle_event uc r w c = Inr c' \<Longrightarrow> conn_step uc c c'"
| user: "do_api uc op c = Inr (s, c') \<Longrightarrow> conn_step uc c c'"

inductive conn_reach :: "user_callback \<Rightarrow> conn \<Rightarrow> bool" for uc where
  start: "new_conn uc = Inr c \<Longrightarrow> conn_reach uc c"
| step: "conn_reach uc c \<Longrightarrow> conn_step uc c c' \<Longrightarrow> conn_reach uc c'"

inductive_cases conn_stepE: "conn_step uc c c'"

section \<open>The invariant\<close>

fun accepted_of :: "net_event \<Rightarrow> string" where
  "accepted_of (Accepted msg) = msg"
| "accepted_of e = []"

fun sent_of :: "net_event \<Rightarrow> string" where
  "sent_of (Sent bs) = bs"
| "sent_of e = []"

definition accepted_text :: "conn \<Rightarrow> string" where
  "accepted_text c = concat (map accepted_of (trace c))"

definition sent_text :: "conn \<Rightarrow> string" where
  "sent_text c = concat (map sent_of (trace c))"

text \<open>A text in which some bytes have become zeros.\<close>

definition zeroed :: "string \<Rightarrow> string \<Rightarrow> bool" where
  "zeroed = list_all2 (\<lambda>x y. y = x \<or> y = nul)"

definition read_ok :: "buffer \<Rightarrow> bool" where
  "read_ok b \<longleftrightarrow> tight_buffer b \<and> init_capa \<le> vcap (buf b)"

definition bufs_ok :: "conn \<Rightarrow> bool" where
  "bufs_ok c \<longleftrightarrow> read_ok (read_buf c) \<and> wf_buffer (write_buf c)
     \<and> get_size (write_buf c) < max_write_buf_size \<and> init_capa \<le> vcap (buf (write_buf c))"

definition flow_ok :: "conn \<Rightarrow> bool" where
  "flow_ok c \<longleftrightarrow> length (sent_text c) + get_size (write_buf c) = length (accepted_text c)
     \<and> zeroed (accepted_text c) (sent_text c @ peek (write_buf c))
     \<and> (length (accepted_text c) \<le> init_capa \<longrightarrow> sent_text c @ peek (write_buf c) = accepted_text c)"

definition closed_ok :: "conn \<Rightarrow> bool" where
  "closed_ok c \<longleftrightarrow> count_list (trace c) Shut_rdwr = (if cstate c = FULL_CLOSE then 1 else 0)
     \<and> count_list (trace c) Posted_remove = (if cstate c = FULL_CLOSE then 1 else 0)"

definition conn_inv :: "conn \<Rightarrow> bool" where
  "conn_inv c \<longleftrightarrow> bufs_ok c \<and> flow_ok c \<and> closed_ok c"

lemmas inv_defs = conn_inv_def bufs_ok_def flow_ok_def closed_ok_def accepted_text_def sent_text_def

lemma vcap_push: "init_capa \<le> vcap (buf b) \<Longrightarrow> init_capa \<le> vcap (buf (push str b))"
  by (auto simp: push_def Let_def buf_insert_tail_def buf_move_head_def store_at_def vec_resize_def)

lemma buf_pop_to: "buf (snd (snd (pop_to io b))) = buf b"
  by (cases io) (simp_all add: pop_to_def)

lemma size_push: "wf_buffer b \<Longrightarrow> get_size (push str b) = get_size b + length str"
  using wb.put_length [of b str] length_peek [OF wf_push, of b str] length_peek [of b] by simp

lemma zeroed_refl [simp]: "zeroed xs xs"
  by (simp add: zeroed_def list_all2_refl)

lemma zeroed_trans: "zeroed xs ys \<Longrightarrow> zeroed ys zs \<Longrightarrow> zeroed xs zs"
  unfolding zeroed_def list_all2_conv_all_nth by metis

lemma zeroed_append: "zeroed xs ys \<Longrightarrow> zeroed us vs \<Longrightarrow> zeroed (xs @ us) (ys @ vs)"
  by (simp add: zeroed_def list_all2_appendI)

lemma zeroed_replicate: "zeroed xs (replicate (length xs) nul)"
  by (simp add: zeroed_def list_all2_conv_all_nth)

lemma zeroed_push: "wf_buffer b \<Longrightarrow> zeroed (peek b @ str) (peek (push str b))"
proof -
  assume wf: "wf_buffer b"
  let ?k = "vsize (buf b) - left_read_ptr b"
  have "zeroed (take ?k (peek b) @ drop ?k (peek b)) (take ?k (peek b) @ replicate (length (drop ?k (peek b))) nul)"
    by (intro zeroed_append zeroed_replicate zeroed_refl)
  then have "zeroed (peek b) (kept b)" using wf by (simp add: kept_def)
  then show ?thesis using wf by (auto simp: peek_push intro: zeroed_append)
qed

text \<open>The content survives a push as long as everything ever accepted fits the first block.\<close>

lemma peek_push_small:
  assumes "wf_buffer b" and "init_capa \<le> vcap (buf b)" and "get_size b + length str \<le> init_capa"
  shows "peek (push str b) = peek b @ str"
proof -
  have "left_read_ptr b \<le> right_write_ptr b" "right_write_ptr b \<le> vcap (buf b)"
    using assms(1) by (auto simp: wf_buffer_def wf_cvec_def)
  then have "\<not> grows_for_push str b"
    using assms(2,3) unfolding grows_for_push_def remain_right_def get_size_def by arith
  then show ?thesis using assms(1) by (simp add: peek_push)
qed

lemma new_buffer_fields [simp]: "get_size new_buffer = 0" "vcap (buf new_buffer) = init_capa"
  by (simp_all add: get_size_def new_buffer_def vec_new_def)

lemma conn_inv_init: "conn_inv init_conn"
  by (simp add: inv_defs read_ok_def init_conn_def max_write_buf_size_def)

lemma full_close_Inr:
  "full_close uc c = Inr c' \<Longrightarrow> cstate c \<noteq> FULL_CLOSE
     \<and> c' = c\<lparr>cstate := FULL_CLOSE, trace := trace c @ [Shut_rdwr, Posted_remove]\<rparr>"
  by (auto simp: full_close_def bind_res_Inr_iff run_close_cb_def emit_event_def assertm_def
      split: option.splits prog.splits if_splits)

lemma inv_full_close: "conn_inv c \<Longrightarrow> full_close uc c = Inr c' \<Longrightarrow> conn_inv c'"
  by (drule full_close_Inr) (auto simp: inv_defs)

lemma inv_half_close: "conn_inv c \<Longrightarrow> half_close c = Inr c' \<Longrightarrow> conn_inv c'"
  by (auto simp: half_close_def bind_res_Inr_iff c_assert_def inv_defs emit_event_def Let_def
      split: if_splits)

lemma inv_send_data:
  assumes "conn_inv c" and "send_data uc msg c = Inr c'"
  shows "conn_inv c'"
proof (cases "max_write_buf_size \<le> get_size (write_buf c) + length msg")
  case True
  then have "full_close uc c = Inr c'" using assms(2) by (auto simp: send_data_def bind_res_Inr_iff)
  then show ?thesis by (rule inv_full_close [OF assms(1)])
next
  case False
  let ?b = "push msg (write_buf c)"
  have wf: "wf_buffer (write_buf c)" "init_capa \<le> vcap (buf (write_buf c))"
    using assms(1) by (simp_all add: inv_defs)
  have c': "c' = emit_event (Accepted msg) (c\<lparr>write_buf := ?b, write_enabled := True\<rparr>)"
    using assms(2) False by (auto simp: send_data_def bind_res_Inr_iff)
  have "bufs_ok c'"
    using assms(1) False wf by (simp add: inv_defs c' emit_event_def wf_push vcap_push size_push)
  moreover have "closed_ok c'" using assms(1) by (simp add: inv_defs c' emit_event_def)
  moreover have "flow_ok c'"
  proof -
    have at: "accepted_text c' = accepted_text c @ msg" and st: "sent_text c' = sent_text c"
      and wb: "write_buf c' = ?b"
      by (simp_all add: c' emit_event_def accepted_text_def sent_text_def)
    have flow: "length (sent_text c) + get_size (write_buf c) = length (accepted_text c)"
      "length (accepted_text c) \<le> init_capa \<Longrightarrow> sent_text c @ peek (write_buf c) = accepted_text c"
      "zeroed (accepted_text c) (sent_text c @ peek (write_buf c))"
      using assms(1) by (simp_all add: conn_inv_def flow_ok_def)
    have "zeroed (accepted_text c @ msg) (sent_text c @ peek ?b)"
      using zeroed_append [OF flow(3) zeroed_refl [of msg]] zeroed_append [OF zeroed_refl [of "sent_text c"] zeroed_push [OF wf(1), of msg]]
      by (simp add: zeroed_trans)
    moreover
    have "sent_text c @ peek ?b = accepted_text c @ msg" if "length (accepted_text c @ msg) \<le> init_capa"
      using peek_push_small [OF wf, of msg] flow that by simp
    ultimately show ?thesis using flow(1) by (simp add: flow_ok_def at st wb size_push [OF wf(1)])
  qed
  ultimately show ?thesis by (simp add: conn_inv_def)
qed

lemma inv_read_buf:
  assumes "conn_inv c" and "read_ok b" shows "conn_inv (c\<lparr>read_buf := b\<rparr>)"
  using assms by (simp add: inv_defs)

lemma tight_popped: "tight_buffer b \<Longrightarrow> tight_buffer (b\<lparr>left_read_ptr := right_write_ptr b\<rparr>)"
  by (simp add: tight_buffer_def wf_popped tight_def)

lemma pop_len_tight: "read_ok b \<Longrightarrow> pop_len n b = Inr b' \<Longrightarrow> read_ok b'"
  by (auto simp: read_ok_def tight_buffer_def pop_len_cases wf_popped tight_def split: if_splits)

lemma inv_do_api:
  assumes "conn_inv c" and "do_api uc op c = Inr (s, c')" shows "conn_inv c'"
proof -
  have "read_ok (read_buf c)" using assms(1) by (simp add: inv_defs)
  then show ?thesis
    using assms
    by (cases op)
      (auto simp: do_api_def bind_res_Inr_iff pop_data_def pop_data_len_def pop_all_def
        intro: inv_send_data inv_full_close inv_half_close inv_read_buf dest: pop_len_tight)
qed

lemma inv_run_prog: "conn_inv c \<Longrightarrow> run_prog uc p c = Inr c' \<Longrightarrow> conn_inv c'"
  by (induction p arbitrary: c) (auto simp: bind_res_Inr_iff dest: inv_do_api)

lemma inv_run_cb: "conn_inv c \<Longrightarrow> run_cb uc cb c = Inr c' \<Longrightarrow> conn_inv c'"
  by (auto simp: run_cb_def dest: inv_run_prog split: option.splits)

lemma read_ok_push_from: "read_ok b \<Longrightarrow> read_ok (snd (push_from io b))"
  by (simp add: read_ok_def init_capa_le_push_from tight_buffer_def wf_push_from tight_push_from)

lemma inv_handle_read:
  assumes "conn_inv c" and "handle_read uc io c = Inr c'" shows "conn_inv c'"
proof -
  obtain n b where pf: "push_from io (read_buf c) = (n, b)" by (cases "push_from io (read_buf c)")
  have b: "read_ok b"
    using assms(1) read_ok_push_from [of "read_buf c" io] by (simp add: inv_defs pf)
  have c1: "conn_inv (c\<lparr>read_buf := b\<rparr>)" by (rule inv_read_buf [OF assms(1) b])
  have popped: "conn_inv (c\<lparr>read_buf := b1\<rparr>)" if "pop_all b = Inr b1" for b1
    using inv_read_buf [OF assms(1) pop_len_tight [OF b that [unfolded pop_all_def]]] .
  show ?thesis
    using assms(2) c1 popped unfolding handle_read_def pf
    by (auto simp: bind_res_Inr_iff Let_def intro: inv_run_prog inv_full_close
        split: read_res.splits if_splits option.splits)
qed

text \<open>A write that takes bytes.\<close>

lemma inv_sent:
  assumes "conn_inv c" and "pop_to io (write_buf c) = (Write_count k, bs, b)"
  shows "conn_inv (emit_event (Sent bs) (c\<lparr>write_buf := b\<rparr>))"
proof -
  have wf: "wf_buffer (write_buf c)" using assms(1) by (simp add: inv_defs)
  have split: "bs @ peek b = peek (write_buf c)" and wfb: "wf_buffer b" and buf: "buf b = buf (write_buf c)"
    using peek_pop_to [OF wf, of io] wf_pop_to [OF wf, of io] buf_pop_to [of io "write_buf c"] assms(2)
    by simp_all
  have size: "length bs + get_size b = get_size (write_buf c)"
    using arg_cong [OF split, of length] wf wfb by simp
  let ?c = "emit_event (Sent bs) (c\<lparr>write_buf := b\<rparr>)"
  have "bufs_ok ?c" using assms(1) size wfb buf by (simp add: inv_defs emit_event_def)
  moreover have "closed_ok ?c" using assms(1) by (simp add: inv_defs emit_event_def)
  moreover have "flow_ok ?c"
    using assms(1) size split by (auto simp: inv_defs emit_event_def)
  ultimately show ?thesis by (simp add: conn_inv_def)
qed

lemma inv_flags [simp]: "conn_inv (c\<lparr>write_enabled := e\<rparr>) = conn_inv c"
  by (simp add: inv_defs)

lemma inv_shut_wr [simp]: "conn_inv (emit_event Shut_wr c) = conn_inv c"
  by (simp add: inv_defs emit_event_def)

lemma pop_to_fail: "pop_to io b = (Write_fail e, bs, b') \<Longrightarrow> b' = b \<and> bs = []"
  by (cases io) (auto simp: pop_to_def)

lemma pop_to_none: "pop_to io b = (Write_count 0, bs, b') \<Longrightarrow> b' = b \<and> bs = []"
  by (cases io) (auto simp: pop_to_def)

lemma inv_handle_write:
  assumes "conn_inv c" and "handle_write uc io c = Inr c'" shows "conn_inv c'"
proof -
  obtain n bs b where pt: "pop_to io (write_buf c) = (n, bs, b)" by (cases "pop_to io (write_buf c)") auto
  show ?thesis
  proof (cases n)
    case (Write_fail e)
    then have "c\<lparr>write_buf := b\<rparr> = c" using pop_to_fail pt by simp
    then show ?thesis
      using assms Write_fail by (auto simp: handle_write_def pt bind_res_Inr_iff split: if_splits
          intro: inv_full_close)
  next
    case (Write_count k)
    show ?thesis
    proof (cases "k = 0")
      case True
      then have "c\<lparr>write_buf := b\<rparr> = c" using pop_to_none pt Write_count by simp
      then show ?thesis using assms Write_count True by (auto simp: handle_write_def pt bind_res_Inr_iff)
    next
      case False
      have c2: "conn_inv (emit_event (Sent bs) (c\<lparr>write_buf := b\<rparr>))"
        by (rule inv_sent [OF assms(1) pt [unfolded Write_count]])
      show ?thesis
        using assms(2) c2 False Write_count
        by (auto simp: handle_write_def pt bind_res_Inr_iff Let_def split: if_splits
            dest!: inv_run_cb [rotated])
    qed
  qed
qed

lemma inv_handle_event: "conn_inv c \<Longrightarrow> handle_event uc r w c = Inr c' \<Longrightarrow> conn_inv c'"
  by (auto simp: handle_event_def bind_res_Inr_iff split: option.splits
      dest: inv_handle_read inv_handle_write)

lemma conn_inv_reach: "conn_reach uc c \<Longrightarrow> conn_inv c"
proof (induction rule: conn_reach.induct)
  case (start c)
  then show ?case by (auto simp: new_conn_def intro: inv_run_cb [OF conn_inv_init])
next
  case (step c c')
  from step.hyps(2) step.IH show ?case
    by (elim conn_stepE) (auto intro: inv_handle_event inv_do_api)
qed

section \<open>The write side is shut down after the last byte\<close>

definition after_shut :: "net_event list \<Rightarrow> net_event list" where
  "after_shut tr = dropWhile (\<lambda>e. e \<noteq> Shut_wr) tr"

definition shut_ok :: "conn \<Rightarrow> bool" where
  "shut_ok c \<longleftrightarrow> (Shut_wr \<in> set (trace c) \<longrightarrow> get_size (write_buf c) = 0 \<and> cstate c \<noteq> CONNECTING)
     \<and> (\<forall>e \<in> set (after_shut (trace c)). sent_of e = [] \<and> accepted_of e = [])"

lemma after_shut_append:
  "set (after_shut (tr @ [e])) \<subseteq> (if Shut_wr \<in> set tr then insert e (set (after_shut tr))
     else if e = Shut_wr then {Shut_wr} else {})"
  by (auto simp: after_shut_def dropWhile_append)

lemma shut_ok_event:
  assumes "shut_ok c" and "Shut_wr \<in> set (trace c) \<Longrightarrow> sent_of e = [] \<and> accepted_of e = []"
    and "e = Shut_wr \<Longrightarrow> get_size (write_buf c) = 0 \<and> cstate c \<noteq> CONNECTING"
  shows "shut_ok (emit_event e c)"
  using assms after_shut_append [of "trace c" e]
  unfolding shut_ok_def by (auto simp: emit_event_def split: if_splits)

lemma shut_free:
  "shut_ok c \<Longrightarrow> 0 < get_size (write_buf c) \<or> cstate c = CONNECTING \<Longrightarrow> Shut_wr \<notin> set (trace c)"
  by (auto simp: shut_ok_def)

lemma shut_ok_any: "Shut_wr \<notin> set (trace c) \<Longrightarrow> shut_ok c"
proof -
  assume no: "Shut_wr \<notin> set (trace c)"
  then have "after_shut (trace c) = []" by (auto simp: after_shut_def dropWhile_eq_Nil_conv)
  with no show ?thesis by (simp add: shut_ok_def)
qed

lemma shut_full_close:
  assumes "shut_ok c" and "full_close uc c = Inr c'" shows "shut_ok c'"
proof -
  have "c' = emit_event Posted_remove (emit_event Shut_rdwr (c\<lparr>cstate := FULL_CLOSE\<rparr>))"
    using full_close_Inr [OF assms(2)] by (simp add: emit_event_def)
  moreover have "shut_ok (c\<lparr>cstate := FULL_CLOSE\<rparr>)" using assms(1) by (simp add: shut_ok_def)
  ultimately show ?thesis by (auto intro!: shut_ok_event)
qed

lemma shut_half_close:
  assumes "shut_ok c" and "half_close c = Inr c'" shows "shut_ok c'"
proof -
  have st: "cstate c = CONNECTING" using assms(2) by (auto simp: half_close_def bind_res_Inr_iff c_assert_def split: if_splits)
  then have "Shut_wr \<notin> set (trace c)" using shut_free [OF assms(1)] by simp
  then have "shut_ok (c\<lparr>cstate := HALF_CLOSE\<rparr>)" by (simp add: shut_ok_any)
  then show ?thesis
    using assms(2) st by (auto simp: half_close_def Let_def intro: shut_ok_event split: if_splits)
qed

lemma shut_send_data:
  assumes "shut_ok c" and "send_data uc msg c = Inr c'" shows "shut_ok c'"
proof -
  have st: "cstate c = CONNECTING" using assms(2) by (auto simp: send_data_def bind_res_Inr_iff assertm_def split: if_splits)
  then have "Shut_wr \<notin> set (trace c)" using shut_free [OF assms(1)] by simp
  then have "shut_ok (emit_event (Accepted msg) (c\<lparr>write_buf := push msg (write_buf c), write_enabled := True\<rparr>))"
    by (intro shut_ok_any) (simp add: emit_event_def)
  then show ?thesis
    using assms st by (auto simp: send_data_def intro: shut_full_close split: if_splits)
qed

lemma shut_frame [simp]:
  "shut_ok (c\<lparr>read_buf := b\<rparr>) = shut_ok c"
  "shut_ok (c\<lparr>write_enabled := e\<rparr>) = shut_ok c"
  by (simp_all add: shut_ok_def)

lemma shut_do_api: "shut_ok c \<Longrightarrow> do_api uc op c = Inr (s, c') \<Longrightarrow> shut_ok c'"
  by (cases op)
    (auto simp: do_api_def bind_res_Inr_iff pop_data_def pop_data_len_def
      intro: shut_send_data shut_full_close shut_half_close)

lemma shut_run_prog: "shut_ok c \<Longrightarrow> run_prog uc p c = Inr c' \<Longrightarrow> shut_ok c'"
  by (induction p arbitrary: c) (auto simp: bind_res_Inr_iff dest: shut_do_api)

lemma shut_run_cb: "shut_ok c \<Longrightarrow> run_cb uc cb c = Inr c' \<Longrightarrow> shut_ok c'"
  by (auto simp: run_cb_def dest: shut_run_prog split: option.splits)

lemma shut_handle_read:
  assumes "shut_ok c" and "handle_read uc io c = Inr c'" shows "shut_ok c'"
proof -
  obtain n b where pf: "push_from io (read_buf c) = (n, b)" by (cases "push_from io (read_buf c)")
  show ?thesis
    using assms unfolding handle_read_def pf
    by (auto simp: bind_res_Inr_iff Let_def intro: shut_run_prog [where c = "c\<lparr>read_buf := b\<rparr>"]
        shut_full_close [where c = "c\<lparr>read_buf := b\<rparr>"] split: read_res.splits if_splits option.splits)
qed

lemma shut_handle_write:
  assumes "shut_ok c" and "handle_write uc io c = Inr c'" and "write_lower uc = None"
  shows "shut_ok c'"
proof -
  obtain n bs b where pt: "pop_to io (write_buf c) = (n, bs, b)" by (cases "pop_to io (write_buf c)") auto
  have "0 < get_size (write_buf c)"
    using assms(2) by (auto simp: handle_write_def bind_res_Inr_iff assertm_def split: if_splits)
  then have free: "Shut_wr \<notin> set (trace c)" using shut_free [OF assms(1)] by simp
  then have w: "shut_ok (c\<lparr>write_buf := b, write_enabled := e\<rparr>)" "shut_ok (c\<lparr>write_buf := b\<rparr>)" for e
    by (simp_all add: shut_ok_any)
  have sent: "shut_ok (emit_event (Sent bs) (c\<lparr>write_buf := b\<rparr>))"
    "shut_ok ((emit_event (Sent bs) (c\<lparr>write_buf := b\<rparr>))\<lparr>write_enabled := e\<rparr>)" for e
    using free by (simp_all add: shut_ok_any emit_event_def)
  show ?thesis
    using assms(2,3) sent w
    by (auto simp: handle_write_def pt bind_res_Inr_iff Let_def run_cb_def
        intro: shut_full_close [OF w(2)] shut_run_prog [OF sent(1)] shut_ok_event
        split: write_res.splits if_splits option.splits)
qed

lemma shut_handle_event:
  assumes "shut_ok c" and "handle_event uc r w c = Inr c'" and "write_lower uc = None"
  shows "shut_ok c'"
proof -
  obtain c1 where c1: "(case r of None \<Rightarrow> Inr c | Some io \<Rightarrow> handle_read uc io c) = Inr c1"
      "(case w of None \<Rightarrow> Inr c1 | Some io \<Rightarrow> handle_write uc io c1) = Inr c'"
    using assms(2) by (auto simp: handle_event_def bind_res_Inr_iff)
  have "shut_ok c1" using c1(1) assms(1) shut_handle_read by (cases r) auto
  then show ?thesis using c1(2) shut_handle_write [OF _ _ assms(3)] by (cases w) auto
qed

lemma shut_ok_reach:
  assumes "write_lower uc = None" shows "conn_reach uc c \<Longrightarrow> shut_ok c"
proof (induction rule: conn_reach.induct)
  case (start c)
  have "shut_ok init_conn" by (intro shut_ok_any) (simp add: init_conn_def)
  with start show ?case by (auto simp: new_conn_def intro: shut_run_cb)
next
  case (step c c')
  from step.hyps(2) step.IH show ?case
    by (elim conn_stepE) (blast intro: shut_handle_event [OF _ _ assms] shut_do_api)+
qed

section \<open>Properties\<close>

text \<open>
  C1: In every state a connection can reach, whatever the events deliver and whatever the
  user's callbacks do: the pending data stays below a megabyte; the bytes the kernel took and
  then those still pending are as many as \<open>send_data\<close> accepted, and byte for byte the accepted
  one or a zero (which a reallocation of the buffer may put in its place); as long as no more
  than 1024 were accepted, they are the accepted bytes; and the loop was asked to remove the
  connection exactly once if it is fully closed and never before.
\<close>

theorem connection_invariant:
  assumes "conn_reach uc c"
  shows "get_size (write_buf c) < max_write_buf_size
    \<and> length (sent_text c) + get_size (write_buf c) = length (accepted_text c)
    \<and> list_all2 (\<lambda>x y. y = x \<or> y = CHR 0x00) (accepted_text c) (sent_text c @ peek (write_buf c))
    \<and> (length (accepted_text c) \<le> 1024 \<longrightarrow> sent_text c @ peek (write_buf c) = accepted_text c)
    \<and> count_list (trace c) Posted_remove = (if cstate c = FULL_CLOSE then 1 else 0)"
  using conn_inv_reach [OF assms]
  by (simp add: conn_inv_def bufs_ok_def flow_ok_def closed_ok_def init_capa_def zeroed_def)

definition silent :: user_callback where
  "silent = \<lparr>open_cb = None, close_cb = None, message_cb = None, write_high = None, write_lower = None\<rparr>"

text \<open>A user that greets when the connection opens and then closes its writing side.\<close>

definition greeter :: user_callback where
  "greeter = silent\<lparr>open_cb := Some (Do (Send_data ''hello'') (\<lambda>_. Do Half_close (\<lambda>_. Done)))\<rparr>"

definition greeted :: conn where
  "greeted = emit_event (Accepted ''hello'')
     (init_conn\<lparr>cstate := HALF_CLOSE, write_buf := push ''hello'' new_buffer, write_enabled := True\<rparr>)"

lemma size_hello: "get_size (push ''hello'' new_buffer) = 5"
  by (simp add: size_push)

lemma greeted_reach: "conn_reach greeter greeted"
proof (rule conn_reach.start)
  show "new_conn greeter = Inr greeted"
    by (simp add: new_conn_def run_cb_def greeter_def do_api_def send_data_def half_close_def
        init_conn_def max_write_buf_size_def emit_event_def greeted_def size_push Let_def)
qed

theorem connection_invariant_witness:
  "get_size (write_buf greeted) < max_write_buf_size \<and> sent_text greeted @ peek (write_buf greeted) = ''hello''"
  using connection_invariant [OF greeted_reach]
  by (simp add: accepted_text_def greeted_def emit_event_def init_conn_def)

text \<open>
  C26: Half-close sends everything first. For a user without a \<open>write_lower\<close> callback, in every
  reachable state in which the writing side has been shut down, nothing is pending; as many
  bytes were sent as were ever accepted, each the accepted one or a zero (from a reallocation
  of the buffer), and all of them the accepted ones if those are at most 1024; and none of the
  events behind the shutdown sent or accepted a byte.
\<close>

theorem half_close_sends_everything:
  assumes "conn_reach uc c" and "write_lower uc = None" and "Shut_wr \<in> set (trace c)"
  shows "get_size (write_buf c) = 0 \<and> length (sent_text c) = length (accepted_text c)
    \<and> list_all2 (\<lambda>x y. y = x \<or> y = CHR 0x00) (accepted_text c) (sent_text c)
    \<and> (length (accepted_text c) \<le> 1024 \<longrightarrow> sent_text c = accepted_text c)
    \<and> (\<forall>e \<in> set (after_shut (trace c)). sent_of e = [] \<and> accepted_of e = [])"
proof -
  have "get_size (write_buf c) = 0" using shut_ok_reach [OF assms(2,1)] assms(3) by (simp add: shut_ok_def)
  moreover from this have "peek (write_buf c) = []" by (simp add: peek_def slice_def get_size_def)
  ultimately show ?thesis
    using shut_ok_reach [OF assms(2,1)] conn_inv_reach [OF assms(1)] assms(3)
    by (simp add: shut_ok_def conn_inv_def flow_ok_def init_capa_def zeroed_def)
qed

definition hello_rest :: buffer where
  "hello_rest = snd (snd (pop_to (Write_count 5) (push ''hello'' new_buffer)))"

definition drained :: conn where
  "drained = greeted\<lparr>write_buf := hello_rest, write_enabled := False,
     trace := [Accepted ''hello'', Sent ''hello'', Shut_wr]\<rparr>"

lemma hello_written:
  "pop_to (Write_count 5) (push ''hello'' new_buffer) = (Write_count 5, ''hello'', hello_rest)"
  "get_size hello_rest = 0"
proof -
  have peek: "peek (push ''hello'' new_buffer) = ''hello''" by (simp add: peek_push_new)
  show "pop_to (Write_count 5) (push ''hello'' new_buffer) = (Write_count 5, ''hello'', hello_rest)"
    by (simp add: hello_rest_def pop_to_def size_hello peek)
  show "get_size hello_rest = 0" using size_hello by (simp add: hello_rest_def pop_to_def get_size_def)
qed

lemma drained_reach: "conn_reach greeter drained"
proof (rule conn_reach.step [OF greeted_reach])
  have "handle_write greeter (Write_count 5) greeted = Inr drained"
    by (simp add: handle_write_def greeted_def emit_event_def size_hello Let_def run_cb_def greeter_def
        silent_def drained_def init_conn_def hello_written)
  then have "handle_event greeter None (Some (Write_count 5)) greeted = Inr drained"
    by (simp add: handle_event_def)
  then show "conn_step greeter greeted drained"
    by (rule conn_step.event [rotated 2]) (simp_all add: greeted_def emit_event_def)
qed

theorem half_close_sends_everything_witness:
  "get_size (write_buf drained) = 0 \<and> sent_text drained = ''hello''"
proof -
  have "Shut_wr \<in> set (trace drained)" "write_lower greeter = None"
    by (simp_all add: drained_def greeter_def silent_def)
  from half_close_sends_everything [OF drained_reach this(2,1)] show ?thesis
    by (simp add: accepted_text_def drained_def)
qed

text \<open>
  A \<open>write_lower\<close> callback that sends once more and half-closes loses what it sends. When a
  write drains the buffer of an open connection, the callback's message is accepted, and the
  writing side is shut down right after the callback although the message is still pending.
\<close>

theorem write_lower_half_close_loses_data:
  assumes "conn_reach uc c" and "cstate c = CONNECTING" and "0 < get_size (write_buf c)"
    and "get_size (write_buf c) \<le> k"
    and "write_lower uc = Some (Do (Send_data msg) (\<lambda>_. Do Half_close (\<lambda>_. Done)))"
    and "0 < length msg" and "length msg < max_write_buf_size"
  shows "\<exists>c'. handle_write uc (Write_count k) c = Inr c' \<and> cstate c' = HALF_CLOSE
    \<and> trace c' = trace c @ [Sent (peek (write_buf c)), Accepted msg, Shut_wr]
    \<and> get_size (write_buf c') = length msg"
proof -
  have wf: "wf_buffer (write_buf c)" using conn_inv_reach [OF assms(1)] by (simp add: inv_defs)
  obtain b where pt: "pop_to (Write_count k) (write_buf c) = (Write_count (get_size (write_buf c)), peek (write_buf c), b)"
      and b: "get_size b = 0" "wf_buffer b"
    using wf assms(4) wf_pop_to [OF wf, of "Write_count k"] by (simp add: pop_to_def get_size_def)
  define c2 where "c2 = emit_event (Sent (peek (write_buf c))) (c\<lparr>write_buf := b, write_enabled := False\<rparr>)"
  have c2: "cstate c2 = CONNECTING" "write_buf c2 = b" "trace c2 = trace c @ [Sent (peek (write_buf c))]"
    using assms(2) by (simp_all add: c2_def emit_event_def)
  have size: "get_size (push msg b) = length msg" by (simp add: size_push [OF b(2)] b(1))
  let ?c3 = "emit_event (Accepted msg) (c2\<lparr>write_buf := push msg b, write_enabled := True\<rparr>)"
  have "send_data uc msg c2 = Inr ?c3"
    using c2 b(1) assms(7) by (simp add: send_data_def)
  moreover have "half_close ?c3 = Inr (?c3\<lparr>cstate := HALF_CLOSE\<rparr>)"
    using c2 by (simp add: half_close_def emit_event_def)
  ultimately have "run_cb uc (write_lower uc) c2 = Inr (?c3\<lparr>cstate := HALF_CLOSE\<rparr>)"
    by (simp add: run_cb_def assms(5) do_api_def)
  moreover have "(emit_event (Sent (peek (write_buf c))) (c\<lparr>write_buf := b\<rparr>))\<lparr>write_enabled := False\<rparr> = c2"
    by (simp add: c2_def emit_event_def)
  moreover have "get_size (write_buf (emit_event (Sent (peek (write_buf c))) (c\<lparr>write_buf := b\<rparr>))) = 0"
    by (simp add: emit_event_def b(1))
  ultimately have "handle_write uc (Write_count k) c = Inr (emit_event Shut_wr (?c3\<lparr>cstate := HALF_CLOSE\<rparr>))"
    using assms(3) by (simp add: handle_write_def pt Let_def)
  then show ?thesis using c2(3) size by (simp add: emit_event_def)
qed

definition chatty :: user_callback where
  "chatty = silent\<lparr>open_cb := Some (Do (Send_data ''hello'') (\<lambda>_. Done)),
     write_lower := Some (Do (Send_data ''bye'') (\<lambda>_. Do Half_close (\<lambda>_. Done)))\<rparr>"

definition chatting :: conn where
  "chatting = emit_event (Accepted ''hello'')
     (init_conn\<lparr>write_buf := push ''hello'' new_buffer, write_enabled := True\<rparr>)"

lemma chatting_reach: "conn_reach chatty chatting"
proof (rule conn_reach.start)
  show "new_conn chatty = Inr chatting"
    by (simp add: new_conn_def run_cb_def chatty_def do_api_def send_data_def init_conn_def
        max_write_buf_size_def emit_event_def chatting_def)
qed

theorem write_lower_half_close_loses_data_witness:
  "\<exists>c'. handle_write chatty (Write_count 5) chatting = Inr c' \<and> cstate c' = HALF_CLOSE
    \<and> get_size (write_buf c') = 3"
proof -
  have "cstate chatting = CONNECTING" "0 < get_size (write_buf chatting)" "get_size (write_buf chatting) \<le> 5"
    by (simp_all add: chatting_def emit_event_def init_conn_def size_hello)
  moreover have "write_lower chatty = Some (Do (Send_data ''bye'') (\<lambda>_. Do Half_close (\<lambda>_. Done)))"
    by (simp add: chatty_def)
  moreover have "0 < length ''bye''" "length ''bye'' < max_write_buf_size" "length ''bye'' = 3"
    by (simp_all add: max_write_buf_size_def)
  ultimately show ?thesis
    using write_lower_half_close_loses_data [OF chatting_reach, of 5 "''bye''"] by metis
qed

text \<open>
  C40: A connection reset kills the process. When one \<open>epoll_wait\<close> reports an open connection
  with pending data readable and writable, the read fails or ends the stream, and the write
  fails too, the connection is closed twice and the second close throws.
\<close>

theorem reset_with_pending_data_throws:
  assumes "cstate c \<noteq> FULL_CLOSE" and "0 < get_size (write_buf c)"
    and "r = Read_data [] \<or> (\<exists>e. r = Read_fail e \<and> \<not> ignorable e)" and "\<not> ignorable e2"
    and "close_cb uc = None"
  shows "handle_event uc (Some r) (Some (Write_fail e2)) c = Inl Runtime_error"
proof -
  obtain n b where pf: "push_from r (read_buf c) = (n, b)" by (cases "push_from r (read_buf c)")
  have n: "n = Read_data [] \<or> (\<exists>e. n = Read_fail e \<and> \<not> ignorable e)"
    using assms(3) pf by (auto simp: push_from_eq Let_def)
  let ?c = "c\<lparr>read_buf := b, cstate := FULL_CLOSE, trace := trace c @ [Shut_rdwr, Posted_remove]\<rparr>"
  have "handle_read uc r c = Inr ?c"
    using n assms(1,5) by (auto simp: handle_read_def pf Let_def full_close_def run_close_cb_def emit_event_def)
  moreover have "handle_write uc (Write_fail e2) ?c = Inl Runtime_error"
    using assms(2,4) by (simp add: handle_write_def pop_to_def Let_def full_close_def)
  ultimately show ?thesis by (simp add: handle_event_def)
qed

theorem reset_with_pending_data_throws_witness:
  "handle_event greeter (Some (Read_fail ECONNRESET)) (Some (Write_fail EPIPE)) greeted = Inl Runtime_error"
  by (rule reset_with_pending_data_throws)
    (simp_all add: greeted_def emit_event_def size_hello ignorable_def greeter_def silent_def)

text \<open>
  Sending the empty message kills the process: it enables the write event of an idle
  connection with nothing to write, and the next write event fails the check of the handler.
\<close>

theorem empty_message_throws:
  assumes "cstate c = CONNECTING" and "get_size (write_buf c) = 0" and "wf_buffer (write_buf c)"
  shows "\<exists>c1. send_data uc [] c = Inr c1 \<and> write_enabled c1 \<and> handle_write uc io c1 = Inl Runtime_error"
  using assms by (simp add: send_data_def max_write_buf_size_def emit_event_def handle_write_def size_push)

theorem empty_message_throws_witness:
  "\<exists>c1. send_data silent [] init_conn = Inr c1 \<and> write_enabled c1
    \<and> handle_write silent (Write_count 0) c1 = Inl Runtime_error"
  by (rule empty_message_throws) (simp_all add: init_conn_def)

end
