(* ===== verification/TcpServer.thy ===== *)
theory TcpServer
  imports TcpConnection
begin

text \<open>
  \<open>TCPServer\<close> (src/src/tcp/TCPServer.hpp, TcpServer.cpp) with its acceptor (TCPAcceptor.cpp): the
  table of connections, from the accepted descriptor to its removal. Everything here runs in
  the thread of one loop: the pool hands out the same loop for the acceptor and for every
  connection (\<open>LoopPools\<close>), so \<open>add_callback\<close> calls its argument at once, and only
  the removal of a connection, which it posts with \<open>add_callback_after\<close>, waits in the list of
  the loop. The connections are those of \<open>TcpConnection\<close>. Addresses and logging are left out.
\<close>

section \<open>State and operations\<close>

text \<open>
  \<open>open_fds\<close> are the accepted descriptors the process holds; \<open>removals\<close> the \<open>remove_conn\<close>
  callbacks in the list of the loop.
\<close>

record server =
  conn_map :: "int \<Rightarrow> conn option"
  open_fds :: "int set"
  removals :: "int list"

definition new_server :: server where
  "new_server = \<lparr>conn_map = (\<lambda>_. None), open_fds = {}, removals = []\<rparr>"

definition max_conn_num :: nat where
  "max_conn_num = 20000"

definition n_removals :: "conn \<Rightarrow> nat" where
  "n_removals c = count_list (trace c) Posted_remove"

text \<open>The connection of a descriptor is now \<open>c\<close>; what it has posted since goes to the loop.\<close>

definition set_conn :: "int \<Rightarrow> nat \<Rightarrow> conn \<Rightarrow> server \<Rightarrow> server" where
  "set_conn fd before c sv = sv\<lparr>conn_map := (conn_map sv)(fd \<mapsto> c),
     removals := removals sv @ replicate (n_removals c - before) fd\<rparr>"

definition close_fd :: "int \<Rightarrow> server \<Rightarrow> server" where
  "close_fd fd sv = sv\<lparr>open_fds := open_fds sv - {fd}\<rparr>"

definition create_conn :: "user_callback \<Rightarrow> int \<Rightarrow> server \<Rightarrow> server res" where
  "create_conn uc fd sv =
     bind_res (assertm (conn_map sv fd = None)) (\<lambda>_.
     if max_conn_num \<le> card (dom (conn_map sv)) then Inr (close_fd fd sv)
     else bind_res (new_conn uc) (\<lambda>c. Inr (set_conn fd 0 c sv)))"

text \<open>The acceptor's callback: \<open>peer_fd\<close> is what \<open>accept\<close> returned, a new descriptor or -1.\<close>

definition acceptor_read :: "user_callback \<Rightarrow> int \<Rightarrow> server \<Rightarrow> server res" where
  "acceptor_read uc peer_fd sv =
     bind_res (assertm (0 \<le> peer_fd)) (\<lambda>_.
     create_conn uc peer_fd (sv\<lparr>open_fds := insert peer_fd (open_fds sv)\<rparr>))"

text \<open>
  \<open>remove_conn\<close>: erasing the connection destroys its channel, which closes the descriptor. The
  code uses the iterator without a check.
\<close>

definition remove_conn :: "int \<Rightarrow> server \<Rightarrow> server res" where
  "remove_conn fd sv =
     (case conn_map sv fd of
        None \<Rightarrow> Inl Dead_object
      | Some c \<Rightarrow> Inr (close_fd fd (sv\<lparr>conn_map := (conn_map sv)(fd := None)\<rparr>)))"

section \<open>Runs of a server\<close>

inductive server_step :: "user_callback \<Rightarrow> server \<Rightarrow> server \<Rightarrow> bool" for uc where
  accepted: "peer_fd \<notin> open_fds sv \<Longrightarrow> acceptor_read uc peer_fd sv = Inr sv' \<Longrightarrow> server_step uc sv sv'"
| event: "conn_map sv fd = Some c \<Longrightarrow> conn_step uc c c' \<Longrightarrow> server_step uc sv (set_conn fd (n_removals c) c' sv)"
| removal: "removals sv = fd # fds \<Longrightarrow> remove_conn fd (sv\<lparr>removals := fds\<rparr>) = Inr sv' \<Longrightarrow> server_step uc sv sv'"

inductive server_reach :: "user_callback \<Rightarrow> server \<Rightarrow> bool" for uc where
  start: "server_reach uc new_server"
| step: "server_reach uc sv \<Longrightarrow> server_step uc sv sv' \<Longrightarrow> server_reach uc sv'"

inductive_cases server_stepE: "server_step uc sv sv'"

section \<open>The invariant\<close>

definition closed_fds :: "server \<Rightarrow> int set" where
  "closed_fds sv = {fd. \<exists>c. conn_map sv fd = Some c \<and> cstate c = FULL_CLOSE}"

definition server_inv :: "user_callback \<Rightarrow> server \<Rightarrow> bool" where
  "server_inv uc sv \<longleftrightarrow> open_fds sv = dom (conn_map sv) \<and> finite (open_fds sv)
     \<and> card (open_fds sv) \<le> max_conn_num
     \<and> (\<forall>fd c. conn_map sv fd = Some c \<longrightarrow> conn_reach uc c)
     \<and> distinct (removals sv) \<and> set (removals sv) = closed_fds sv"

lemma removals_once: "conn_reach uc c \<Longrightarrow> n_removals c = (if cstate c = FULL_CLOSE then 1 else 0)"
  using conn_inv_reach [of uc c] by (simp add: conn_inv_def closed_ok_def n_removals_def)

text \<open>Nothing gets a connection out of the state \<open>FULL_CLOSE\<close>.\<close>

lemma closed_run_prog: "cstate c = FULL_CLOSE \<Longrightarrow> run_prog uc p c = Inr c' \<Longrightarrow> c' = c"
  by (cases p) (simp_all add: do_api_closed)

lemma closed_run_cb: "cstate c = FULL_CLOSE \<Longrightarrow> run_cb uc cb c = Inr c' \<Longrightarrow> c' = c"
  by (auto simp: run_cb_def dest: closed_run_prog split: option.splits)

lemma closed_handle_read:
  assumes "cstate c = FULL_CLOSE" and "handle_read uc io c = Inr c'"
  shows "cstate c' = FULL_CLOSE"
proof -
  obtain n b where io: "push_from io (read_buf c) = (n, b)" by fastforce
  let ?c = "c\<lparr>read_buf := b\<rparr>"
  have "cstate ?c = FULL_CLOSE" using assms(1) by simp
  then have "run_prog uc p ?c = Inr c' \<Longrightarrow> cstate c' = FULL_CLOSE" "full_close uc ?c \<noteq> Inr c'" for p
    using closed_run_prog full_close_Inr by blast+
  then show ?thesis
    using assms io by (auto simp: handle_read_def bind_res_Inr_iff Let_def split: read_res.splits option.splits if_splits)
qed

lemma closed_handle_write:
  assumes "cstate c = FULL_CLOSE" and "handle_write uc io c = Inr c'"
  shows "cstate c' = FULL_CLOSE"
proof -
  obtain n bs b where io: "pop_to io (write_buf c) = (n, bs, b)" by (metis prod_cases3)
  have cb: "run_cb uc cb d = Inr d' \<Longrightarrow> cstate d = FULL_CLOSE \<Longrightarrow> cstate d' = FULL_CLOSE" for cb d d'
    using closed_run_cb by blast
  have "full_close uc (c\<lparr>write_buf := b\<rparr>) \<noteq> Inr c'" using assms(1) full_close_Inr by fastforce
  then show ?thesis
    using assms io
    by (auto simp: handle_write_def bind_res_Inr_iff Let_def emit_event_def
        split: write_res.splits if_splits dest!: cb)
qed

lemma closed_step: "conn_step uc c c' \<Longrightarrow> cstate c = FULL_CLOSE \<Longrightarrow> cstate c' = FULL_CLOSE"
proof (erule conn_stepE)
  fix r w assume closed: "cstate c = FULL_CLOSE" and ev: "handle_event uc r w c = Inr c'"
  then obtain c1 where c1: "(case r of None \<Rightarrow> Inr c | Some io \<Rightarrow> handle_read uc io c) = Inr c1"
      "(case w of None \<Rightarrow> Inr c1 | Some io \<Rightarrow> handle_write uc io c1) = Inr c'"
    by (auto simp: handle_event_def bind_res_Inr_iff)
  then have "cstate c1 = FULL_CLOSE" using closed closed_handle_read by (cases r) auto
  then show "cstate c' = FULL_CLOSE" using c1(2) closed_handle_write by (cases w) auto
next
  fix op s assume "cstate c = FULL_CLOSE" "do_api uc op c = Inr (s, c')"
  then show "cstate c' = FULL_CLOSE" by (simp add: do_api_closed)
qed

text \<open>What a change of one connection does to the table.\<close>

lemma closed_fds_upd:
  "closed_fds (sv\<lparr>conn_map := (conn_map sv)(fd \<mapsto> c), removals := rs\<rparr>) =
     (if cstate c = FULL_CLOSE then insert fd (closed_fds sv) else closed_fds sv - {fd})"
  by (auto simp: closed_fds_def)

lemma server_inv_new: "server_inv uc new_server"
  by (simp add: server_inv_def new_server_def closed_fds_def)

lemma inv_set_conn:
  assumes inv: "server_inv uc sv" and conn: "conn_reach uc c'" and opened: "fd \<in> open_fds sv'"
    and sv': "open_fds sv' = insert fd (open_fds sv)" "card (open_fds sv') \<le> max_conn_num"
      "conn_map sv' = conn_map sv" "removals sv' = removals sv"
    and old: "fd \<in> closed_fds sv \<Longrightarrow> before = 1 \<and> cstate c' = FULL_CLOSE"
    and young: "fd \<notin> closed_fds sv \<Longrightarrow> before = 0"
  shows "server_inv uc (set_conn fd before c' sv')"
proof -
  let ?sv = "set_conn fd before c' sv'"
  have rem: "removals ?sv = removals sv @ (if fd \<notin> closed_fds sv \<and> cstate c' = FULL_CLOSE then [fd] else [])"
    using removals_once [OF conn] old young sv'(4) by (auto simp: set_conn_def)
  have cl: "closed_fds ?sv = (if cstate c' = FULL_CLOSE then insert fd (closed_fds sv) else closed_fds sv)"
    using old sv'(3) by (auto simp: closed_fds_def set_conn_def split: if_splits)
  have old_inv: "distinct (removals sv)" "set (removals sv) = closed_fds sv" "finite (open_fds sv)"
    "open_fds sv = dom (conn_map sv)" "\<And>fd c. conn_map sv fd = Some c \<Longrightarrow> conn_reach uc c"
    using inv by (auto simp: server_inv_def)
  have "distinct (removals ?sv) \<and> set (removals ?sv) = closed_fds ?sv"
    unfolding rem cl using old_inv(1,2) by auto
  then show ?thesis
    using old_inv conn sv' unfolding server_inv_def by (auto simp: set_conn_def)
qed

lemma create_fresh:
  assumes inv: "server_inv uc sv" and fresh: "fd \<notin> open_fds sv" and made: "acceptor_read uc fd sv = Inr sv'"
  shows "server_inv uc sv'"
proof -
  let ?sv = "sv\<lparr>open_fds := insert fd (open_fds sv)\<rparr>"
  have dom: "open_fds sv = dom (conn_map sv)" "finite (open_fds sv)" using inv by (auto simp: server_inv_def)
  have made': "create_conn uc fd ?sv = Inr sv'" using made by (auto simp: acceptor_read_def bind_res_Inr_iff)
  show ?thesis
  proof (cases "max_conn_num \<le> card (dom (conn_map sv))")
    case True
    then have "sv' = close_fd fd ?sv" using made' by (auto simp: create_conn_def bind_res_Inr_iff)
    then have "sv' = sv" using fresh by (simp add: close_fd_def)
    then show ?thesis using inv by simp
  next
    case False
    then obtain c where c: "new_conn uc = Inr c" "sv' = set_conn fd 0 c ?sv"
      using made' by (auto simp: create_conn_def bind_res_Inr_iff)
    have "fd \<notin> closed_fds sv" using fresh dom(1) by (auto simp: closed_fds_def)
    moreover have "card (insert fd (open_fds sv)) \<le> max_conn_num" using False dom fresh by simp
    ultimately show ?thesis unfolding c(2)
      by (intro inv_set_conn [OF inv conn_reach.start [OF c(1)]]) simp_all
  qed
qed

lemma removal_ok:
  assumes inv: "server_inv uc sv" and rem: "removals sv = fd # fds"
  shows "\<exists>sv'. remove_conn fd (sv\<lparr>removals := fds\<rparr>) = Inr sv' \<and> server_inv uc sv'
    \<and> conn_map sv' = (conn_map sv)(fd := None) \<and> open_fds sv' = open_fds sv - {fd} \<and> removals sv' = fds"
proof -
  have sets: "open_fds sv = dom (conn_map sv)" "finite (open_fds sv)" "card (open_fds sv) \<le> max_conn_num"
      "distinct (fd # fds)" "set (fd # fds) = closed_fds sv" and conns: "\<And>fd c. conn_map sv fd = Some c \<Longrightarrow> conn_reach uc c"
    using inv rem by (auto simp: server_inv_def)
  then have "fd \<in> closed_fds sv" by (metis list.set_intros(1))
  then obtain c where "conn_map sv fd = Some c" by (auto simp: closed_fds_def)
  let ?sv = "sv\<lparr>conn_map := (conn_map sv)(fd := None), open_fds := open_fds sv - {fd}, removals := fds\<rparr>"
  have "closed_fds ?sv = closed_fds sv - {fd}" by (auto simp: closed_fds_def)
  then have "set fds = closed_fds ?sv" using sets(4,5) by auto
  moreover have "card (open_fds sv - {fd}) \<le> max_conn_num"
    using sets(3) card_Diff1_le [of "open_fds sv" fd] by linarith
  ultimately have "server_inv uc ?sv"
    using sets conns unfolding server_inv_def by (auto split: if_splits)
  moreover have "remove_conn fd (sv\<lparr>removals := fds\<rparr>) = Inr ?sv"
    using \<open>conn_map sv fd = Some c\<close> by (simp add: remove_conn_def close_fd_def)
  ultimately show ?thesis by simp
qed

lemma server_step_inv: "server_step uc sv sv' \<Longrightarrow> server_inv uc sv \<Longrightarrow> server_inv uc sv'"
proof (erule server_stepE)
  fix fd assume "server_inv uc sv" "fd \<notin> open_fds sv" "acceptor_read uc fd sv = Inr sv'"
  then show "server_inv uc sv'" by (rule create_fresh)
next
  fix fd c c' assume inv: "server_inv uc sv" and c: "conn_map sv fd = Some c" and st: "conn_step uc c c'"
    and sv': "sv' = set_conn fd (n_removals c) c' sv"
  have reach: "conn_reach uc c" and opened: "fd \<in> open_fds sv" and card: "card (open_fds sv) \<le> max_conn_num"
    using inv c by (auto simp: server_inv_def)
  have before: "n_removals c = (if cstate c = FULL_CLOSE then 1 else 0)" by (rule removals_once [OF reach])
  have ins: "insert fd (open_fds sv) = open_fds sv" using opened by auto
  show "server_inv uc sv'" unfolding sv'
  proof (rule inv_set_conn [OF inv conn_reach.step [OF reach st] opened])
    show "fd \<in> closed_fds sv \<Longrightarrow> n_removals c = 1 \<and> cstate c' = FULL_CLOSE"
      using c before closed_step [OF st] by (simp add: closed_fds_def)
    show "fd \<notin> closed_fds sv \<Longrightarrow> n_removals c = 0" using c before by (simp add: closed_fds_def)
  qed (use ins card in simp_all)
next
  fix fd fds assume "server_inv uc sv" "removals sv = fd # fds" "remove_conn fd (sv\<lparr>removals := fds\<rparr>) = Inr sv'"
  then show "server_inv uc sv'" using removal_ok by fastforce
qed

lemma server_reach_inv: "server_reach uc sv \<Longrightarrow> server_inv uc sv"
  by (induction rule: server_reach.induct) (auto intro: server_inv_new server_step_inv)

section \<open>Properties\<close>

text \<open>
  C12: The table of connections. Whatever the clients, the events and the user's callbacks do,
  as long as no exception ends the server: the accepted descriptors that are open are exactly
  those in the table, so none leaks, and there are at most 20000; the kernel never hands out
  a descriptor that is in the table, so the check of \<open>create_conn\<close> holds; the list of the loop
  holds one \<open>remove_conn\<close> for every connection that is fully closed and none else; and so
  every \<open>remove_conn\<close> the loop runs finds its connection, takes it out of the table and
  closes its descriptor.
\<close>

theorem server_table:
  assumes "server_reach uc sv"
  shows "open_fds sv = dom (conn_map sv) \<and> card (open_fds sv) \<le> max_conn_num
    \<and> (\<forall>fd. fd \<notin> open_fds sv \<longrightarrow> conn_map sv fd = None)
    \<and> distinct (removals sv) \<and> set (removals sv) = {fd. \<exists>c. conn_map sv fd = Some c \<and> cstate c = FULL_CLOSE}
    \<and> (\<forall>fd fds. removals sv = fd # fds \<longrightarrow>
        (\<exists>sv'. remove_conn fd (sv\<lparr>removals := fds\<rparr>) = Inr sv' \<and> server_reach uc sv'
           \<and> conn_map sv' = (conn_map sv)(fd := None) \<and> open_fds sv' = open_fds sv - {fd}))"
proof -
  have inv: "server_inv uc sv" by (rule server_reach_inv [OF assms])
  have "\<exists>sv'. remove_conn fd (sv\<lparr>removals := fds\<rparr>) = Inr sv' \<and> server_reach uc sv'
      \<and> conn_map sv' = (conn_map sv)(fd := None) \<and> open_fds sv' = open_fds sv - {fd}"
    if rem: "removals sv = fd # fds" for fd fds
    using removal_ok [OF inv rem] server_reach.step [OF assms server_step.removal [OF rem]] by blast
  then show ?thesis using inv unfolding server_inv_def closed_fds_def by auto
qed

definition quiet_user :: user_callback where
  "quiet_user = \<lparr>open_cb = None, close_cb = None, message_cb = None, write_high = None, write_lower = None\<rparr>"

text \<open>One client, accepted as descriptor 7, has closed its side.\<close>

definition closed_conn :: conn where
  "closed_conn = init_conn\<lparr>read_buf := snd (push_from (Read_data []) new_buffer), cstate := FULL_CLOSE,
     trace := [Shut_rdwr, Posted_remove]\<rparr>"

definition closing_server :: server where
  "closing_server = \<lparr>conn_map = [7 \<mapsto> closed_conn], open_fds = {7}, removals = [7]\<rparr>"

lemma closing_reach: "server_reach quiet_user closing_server"
proof -
  let ?sv = "set_conn 7 0 init_conn (new_server\<lparr>open_fds := {7}\<rparr>)"
  have "new_conn quiet_user = Inr init_conn" by (simp add: new_conn_def run_cb_def quiet_user_def)
  then have "acceptor_read quiet_user 7 new_server = Inr ?sv"
    by (simp add: acceptor_read_def create_conn_def new_server_def max_conn_num_def)
  then have reach: "server_reach quiet_user ?sv"
    by (intro server_reach.step [OF server_reach.start] server_step.accepted) (simp add: new_server_def)
  have "handle_read quiet_user (Read_data []) init_conn = Inr closed_conn"
    by (simp add: handle_read_def push_from_def Let_def full_close_def run_close_cb_def emit_event_def
        quiet_user_def init_conn_def closed_conn_def)
  then have "conn_step quiet_user init_conn closed_conn"
    by (intro conn_step.event [of "Some (Read_data [])" _ None]) (simp_all add: handle_event_def init_conn_def)
  from server_step.event [OF _ this, of ?sv 7] have "server_step quiet_user ?sv (set_conn 7 (n_removals init_conn) closed_conn ?sv)"
    by (simp add: set_conn_def new_server_def)
  moreover have "set_conn 7 (n_removals init_conn) closed_conn ?sv = closing_server"
    by (simp add: set_conn_def n_removals_def closed_conn_def init_conn_def new_server_def closing_server_def)
  ultimately show ?thesis using server_reach.step [OF reach] by simp
qed

theorem server_table_witness:
  "removals closing_server = [7] \<and> (\<exists>sv'. remove_conn 7 (closing_server\<lparr>removals := []\<rparr>) = Inr sv'
    \<and> open_fds sv' = {} \<and> server_reach quiet_user sv')"
proof -
  have rem: "removals closing_server = [7]" "open_fds closing_server = {7}"
    by (simp_all add: closing_server_def)
  then have "\<exists>sv'. remove_conn 7 (closing_server\<lparr>removals := []\<rparr>) = Inr sv' \<and> server_reach quiet_user sv'
      \<and> conn_map sv' = (conn_map closing_server)(7 := None) \<and> open_fds sv' = open_fds closing_server - {7}"
    using server_table [OF closing_reach] by blast
  then show ?thesis using rem by auto
qed

end
