(* ===== verification/EventLoop.thy ===== *)
theory EventLoop
  imports Channels
begin

text \<open>
  The event loop (\<open>EventLoop\<close> of src/src/reactor/Eventloop.hpp and EventLoop.cpp), its
  activater (Activater.cpp) and the arming of the timer descriptor
  (TimerSchedulerAdapter.cpp). The first part is about threads: the thread of the loop goes
  through the phases of a round while other threads post callbacks and stop the loop at any
  point between two of its statements. The second part is about the mutex: callbacks are
  programs over the operations of the loop, executed by its own thread.
\<close>

section \<open>The callback list and the activater\<close>

text \<open>
  Where the thread of \<open>run\<close> is: not in it; in \<open>epoll_wait\<close>; behind it, with the activater
  reported or not; calling the callbacks it has taken.
\<close>

datatype 'cb phase = Idle | Waiting | Woken bool | Running "'cb list"

text \<open>
  \<open>wake\<close> is the counter of the eventfd. \<open>halting\<close> counts the threads inside \<open>stop\<close>, between its
  two statements. \<open>posted\<close> and \<open>served\<close> only record: the callbacks ever appended to the list, and
  those the loop has called from it.
\<close>

record 'cb loop =
  is_loop :: bool
  cb_list :: "'cb list"
  wake :: nat
  phase :: "'cb phase"
  halting :: nat
  posted :: "'cb list"
  served :: "'cb list"

definition new_loop :: "'cb loop" where
  "new_loop = \<lparr>is_loop = False, cb_list = [], wake = 0, phase = Idle, halting = 0, posted = [], served = []\<rparr>"

text \<open>The eventfd: a write adds 1; a read takes everything and fails when there is nothing.\<close>

definition activate :: "'cb loop \<Rightarrow> 'cb loop" where
  "activate lp = lp\<lparr>wake := wake lp + 1\<rparr>"

definition activater_read :: "'cb loop \<Rightarrow> 'cb loop res" where
  "activater_read lp = bind_res (assertm (0 < wake lp)) (\<lambda>_. Inr (lp\<lparr>wake := 0\<rparr>))"

definition add_callback_after :: "'cb \<Rightarrow> 'cb loop \<Rightarrow> 'cb loop" where
  "add_callback_after cb lp = activate (lp\<lparr>cb_list := cb_list lp @ [cb], posted := posted lp @ [cb]\<rparr>)"

text \<open>
  \<open>add_callback\<close> for a thread that is or is not the loop's: the result it returns, what it calls
  at once, and the loop.
\<close>

definition add_callback :: "bool \<Rightarrow> 'cb \<Rightarrow> 'cb loop \<Rightarrow> bool \<times> 'cb list \<times> 'cb loop" where
  "add_callback same_thread cb lp =
     (if is_loop lp \<and> same_thread then (True, [cb], lp) else (False, [], add_callback_after cb lp))"

text \<open>\<open>stop\<close>: its first statement, then its second.\<close>

definition stop_flag :: "'cb loop \<Rightarrow> 'cb loop" where
  "stop_flag lp = lp\<lparr>is_loop := False, halting := halting lp + 1\<rparr>"

definition stop_wake :: "'cb loop \<Rightarrow> 'cb loop" where
  "stop_wake lp = activate (lp\<lparr>halting := halting lp - 1\<rparr>)"

definition run_begin :: "'cb loop \<Rightarrow> 'cb loop res" where
  "run_begin lp = bind_res (assertm (\<not> is_loop lp)) (\<lambda>_. Inr (lp\<lparr>is_loop := True, phase := Waiting\<rparr>))"

definition take_callbacks :: "'cb loop \<Rightarrow> 'cb loop" where
  "take_callbacks lp = lp\<lparr>phase := Running (cb_list lp), cb_list := []\<rparr>"

text \<open>
  One move of the loop's thread. \<open>epoll_wait\<close> returns at once when the eventfd is readable, and
  else for another descriptor or the time-out.
\<close>

definition loop_next :: "'cb loop \<Rightarrow> 'cb loop res" where
  "loop_next lp =
     (case phase lp of
        Idle \<Rightarrow> Inr lp
      | Waiting \<Rightarrow> Inr (lp\<lparr>phase := Woken (0 < wake lp)\<rparr>)
      | Woken reported \<Rightarrow>
          if reported then bind_res (activater_read lp) (\<lambda>l. Inr (l\<lparr>phase := Woken False\<rparr>))
          else Inr (take_callbacks lp)
      | Running cbs \<Rightarrow>
          (case cbs of
             [] \<Rightarrow> Inr (lp\<lparr>phase := (if is_loop lp then Waiting else Idle)\<rparr>)
           | cb # rest \<Rightarrow> Inr (lp\<lparr>served := served lp @ [cb], phase := Running rest\<rparr>)))"

primrec loop_moves :: "nat \<Rightarrow> 'cb loop \<Rightarrow> 'cb loop res" where
  "loop_moves 0 lp = Inr lp"
| "loop_moves (Suc n) lp = bind_res (loop_next lp) (loop_moves n)"

inductive loop_step :: "'cb loop \<Rightarrow> 'cb loop \<Rightarrow> bool" where
  enter: "phase lp = Idle \<Longrightarrow> run_begin lp = Inr lp' \<Longrightarrow> loop_step lp lp'"
| move: "phase lp \<noteq> Idle \<Longrightarrow> loop_next lp = Inr lp' \<Longrightarrow> loop_step lp lp'"
| post: "loop_step lp (add_callback_after cb lp)"
| flag: "loop_step lp (stop_flag lp)"
| wakeup: "0 < halting lp \<Longrightarrow> loop_step lp (stop_wake lp)"

inductive loop_reach :: "'cb loop \<Rightarrow> bool" where
  fresh: "loop_reach new_loop"
| step: "loop_reach lp \<Longrightarrow> loop_step lp lp' \<Longrightarrow> loop_reach lp'"

inductive_cases loop_stepE: "loop_step lp lp'"

section \<open>The invariant of the threads\<close>

fun in_hand :: "'cb phase \<Rightarrow> 'cb list" where
  "in_hand (Running cbs) = cbs"
| "in_hand ph = []"

definition loop_inv :: "'cb loop \<Rightarrow> bool" where
  "loop_inv lp \<longleftrightarrow> served lp @ in_hand (phase lp) @ cb_list lp = posted lp
     \<and> (phase lp = Woken True \<longrightarrow> 0 < wake lp)
     \<and> (cb_list lp \<noteq> [] \<longrightarrow> 0 < wake lp \<or> phase lp = Woken False)
     \<and> (phase lp = Waiting \<and> \<not> is_loop lp \<longrightarrow> 0 < wake lp + halting lp)"

lemma inv_new_loop: "loop_inv new_loop"
  by (simp add: loop_inv_def new_loop_def)

lemma loop_next_inv:
  assumes "loop_inv lp"
  shows "\<exists>lp'. loop_next lp = Inr lp' \<and> loop_inv lp'"
proof (cases "phase lp")
  case (Running cbs)
  then show ?thesis using assms by (cases cbs) (simp_all add: loop_next_def loop_inv_def)
qed (use assms in \<open>auto simp: loop_next_def loop_inv_def activater_read_def take_callbacks_def\<close>)

lemma loop_step_inv: "loop_step lp lp' \<Longrightarrow> loop_inv lp \<Longrightarrow> loop_inv lp'"
proof (erule loop_stepE)
  assume "loop_inv lp" "phase lp = Idle" "run_begin lp = Inr lp'"
  then show ?thesis by (auto simp: run_begin_def bind_res_Inr_iff loop_inv_def)
next
  assume "loop_inv lp" "loop_next lp = Inr lp'"
  then show ?thesis using loop_next_inv by fastforce
qed (auto simp: loop_inv_def add_callback_after_def activate_def stop_flag_def stop_wake_def)

lemma loop_reach_inv: "loop_reach lp \<Longrightarrow> loop_inv lp"
  by (induction rule: loop_reach.induct) (auto intro: inv_new_loop loop_step_inv)

section \<open>A round of the loop\<close>

lemma loop_moves_add: "loop_moves (m + n) lp = bind_res (loop_moves m lp) (loop_moves n)"
proof (induction m arbitrary: lp)
  case (Suc m)
  show ?case by (cases "loop_next lp") (simp_all add: Suc)
qed simp

lemma moves_then: "loop_moves m lp = Inr lp1 \<Longrightarrow> loop_moves n lp1 = r \<Longrightarrow> loop_moves (m + n) lp = r"
  by (simp add: loop_moves_add)

text \<open>What is left at the end of a round that took the whole list.\<close>

definition round_end :: "nat \<Rightarrow> 'cb loop \<Rightarrow> 'cb loop" where
  "round_end w lp = lp\<lparr>wake := w, cb_list := [], served := served lp @ cb_list lp,
     phase := (if is_loop lp then Waiting else Idle)\<rparr>"

lemma round_end_simps [simp]:
  "cb_list (round_end w lp) = []" "served (round_end w lp) = served lp @ cb_list lp"
  "phase (round_end w lp) = (if is_loop lp then Waiting else Idle)"
  by (simp_all add: round_end_def)

lemma moves_running:
  "phase lp = Running cbs \<Longrightarrow>
     loop_moves (length cbs + 1) lp =
       Inr (lp\<lparr>served := served lp @ cbs, phase := (if is_loop lp then Waiting else Idle)\<rparr>)"
  by (induction cbs arbitrary: lp) (simp_all add: loop_next_def)

lemma moves_woken:
  assumes "phase lp = Woken b" and "b \<longrightarrow> 0 < wake lp"
  obtains n w where "n \<le> length (cb_list lp) + 3" and "loop_moves n lp = Inr (round_end w lp)"
proof (cases b)
  case True
  let ?lp = "lp\<lparr>wake := 0, phase := Running (cb_list lp), cb_list := []\<rparr>"
  have "loop_moves 2 lp = Inr ?lp"
    using assms True by (simp add: loop_next_def activater_read_def take_callbacks_def numeral_2_eq_2)
  moreover have "loop_moves (length (cb_list lp) + 1) ?lp = Inr (round_end 0 lp)"
    using moves_running [of ?lp "cb_list lp"] by (simp add: round_end_def)
  ultimately have "loop_moves (2 + (length (cb_list lp) + 1)) lp = Inr (round_end 0 lp)"
    by (rule moves_then)
  then show ?thesis by (rule that [rotated]) simp
next
  case False
  let ?lp = "lp\<lparr>phase := Running (cb_list lp), cb_list := []\<rparr>"
  have "loop_moves 1 lp = Inr ?lp" using assms False by (simp add: loop_next_def take_callbacks_def)
  moreover have "loop_moves (length (cb_list lp) + 1) ?lp = Inr (round_end (wake lp) lp)"
    using moves_running [of ?lp "cb_list lp"] by (simp add: round_end_def)
  ultimately have "loop_moves (1 + (length (cb_list lp) + 1)) lp = Inr (round_end (wake lp) lp)"
    by (rule moves_then)
  then show ?thesis by (rule that [rotated]) simp
qed

lemma moves_waiting:
  assumes "phase lp = Waiting"
  obtains n w where "n \<le> length (cb_list lp) + 4" and "loop_moves n lp = Inr (round_end w lp)"
proof -
  let ?lp = "lp\<lparr>phase := Woken (0 < wake lp)\<rparr>"
  have first: "loop_moves 1 lp = Inr ?lp" using assms by (simp add: loop_next_def)
  obtain n w where n: "n \<le> length (cb_list ?lp) + 3" "loop_moves n ?lp = Inr (round_end w ?lp)"
    by (rule moves_woken [of ?lp "0 < wake lp"]) simp_all
  have "loop_moves (1 + n) lp = Inr (round_end w ?lp)" by (rule moves_then [OF first n(2)])
  moreover have "round_end w ?lp = round_end w lp" by (simp add: round_end_def)
  ultimately show ?thesis using n(1) by (intro that [of "1 + n" w]) simp_all
qed

text \<open>
  Whatever the phase, the thread gets back to waiting with its list empty, or out of \<open>run\<close>
  when the loop was stopped; then callbacks may be left in the list.
\<close>

lemma moves_round:
  assumes inv: "loop_inv lp" and "phase lp \<noteq> Idle"
  obtains n lp' where "n \<le> length (in_hand (phase lp)) + length (cb_list lp) + 5"
    and "loop_moves n lp = Inr lp'" and "served lp' @ cb_list lp' = posted lp"
    and "phase lp' = (if is_loop lp then Waiting else Idle)" and "is_loop lp \<longrightarrow> cb_list lp' = []"
proof -
  have order: "served lp @ in_hand (phase lp) @ cb_list lp = posted lp"
    and rep: "phase lp = Woken True \<longrightarrow> 0 < wake lp"
    using inv by (simp_all add: loop_inv_def)
  show ?thesis
  proof (cases "phase lp")
    case Idle
    then show ?thesis using assms(2) by simp
  next
    case Waiting
    then obtain n w where "n \<le> length (cb_list lp) + 4" "loop_moves n lp = Inr (round_end w lp)"
      by (rule moves_waiting)
    then show ?thesis using order Waiting by (intro that [of n "round_end w lp"]) simp_all
  next
    case (Woken b)
    moreover have "b \<longrightarrow> 0 < wake lp" using rep Woken by simp
    ultimately obtain n w where "n \<le> length (cb_list lp) + 3" "loop_moves n lp = Inr (round_end w lp)"
      by (rule moves_woken)
    then show ?thesis using order Woken by (intro that [of n "round_end w lp"]) simp_all
  next
    case (Running cbs)
    let ?lp = "lp\<lparr>served := served lp @ cbs, phase := (if is_loop lp then Waiting else Idle)\<rparr>"
    have first: "loop_moves (length cbs + 1) lp = Inr ?lp" by (rule moves_running [OF Running])
    show ?thesis
    proof (cases "is_loop lp")
      case True
      then obtain n w where n: "n \<le> length (cb_list ?lp) + 4" "loop_moves n ?lp = Inr (round_end w ?lp)"
        using moves_waiting [of ?lp] by auto
      have "loop_moves (length cbs + 1 + n) lp = Inr (round_end w ?lp)" by (rule moves_then [OF first n(2)])
      then show ?thesis using n(1) order Running True
        by (intro that [of "length cbs + 1 + n" "round_end w ?lp"]) simp_all
    next
      case False
      then show ?thesis using first order Running
        by (intro that [of "length cbs + 1" ?lp]) simp_all
    qed
  qed
qed

lemma moves_stay:
  "is_loop lp \<Longrightarrow> phase lp \<noteq> Idle \<Longrightarrow> loop_moves n lp = Inr lp' \<Longrightarrow> is_loop lp' \<and> phase lp' \<noteq> Idle"
proof (induction n arbitrary: lp)
  case (Suc n)
  then obtain lp1 where lp1: "loop_next lp = Inr lp1" "loop_moves n lp1 = Inr lp'"
    by (auto simp: bind_res_Inr_iff)
  then have "is_loop lp1 \<and> phase lp1 \<noteq> Idle" using Suc.prems(1,2)
    by (auto simp: loop_next_def activater_read_def take_callbacks_def bind_res_Inr_iff
        split: phase.splits list.splits if_splits)
  then show ?case using Suc.IH lp1(2) by blast
qed simp

section \<open>Properties of the threads\<close>

text \<open>
  C4: In any interleaving of the loop's thread with threads that post callbacks and stop the
  loop, every posted callback is called at most once and in the order of posting: those
  called, those in the hands of the loop and those in the list are, in this order, those
  posted. And no wake-up is lost: when the loop is at \<open>epoll_wait\<close> with a callback in the list,
  or after \<open>stop\<close> has returned, the activater is readable, so it does not sleep; and when the
  activater was reported, reading it succeeds.
\<close>

theorem callbacks_once_in_order:
  assumes "loop_reach lp"
  shows "served lp @ in_hand (phase lp) @ cb_list lp = posted lp
    \<and> (phase lp = Waiting \<and> (cb_list lp \<noteq> [] \<or> \<not> is_loop lp \<and> halting lp = 0) \<longrightarrow> 0 < wake lp)
    \<and> (\<exists>lp'. loop_next lp = Inr lp')"
proof (intro conjI impI)
  note inv = loop_reach_inv [OF assms]
  show "served lp @ in_hand (phase lp) @ cb_list lp = posted lp" using inv by (simp add: loop_inv_def)
  show "\<exists>lp'. loop_next lp = Inr lp'" using loop_next_inv [OF inv] by blast
  assume "phase lp = Waiting \<and> (cb_list lp \<noteq> [] \<or> \<not> is_loop lp \<and> halting lp = 0)"
  then show "0 < wake lp" using inv by (cases "cb_list lp = []") (simp_all add: loop_inv_def)
qed

definition busy_loop :: "string loop" where
  "busy_loop = \<lparr>is_loop = True, cb_list = [''b''], wake = 2, phase = Waiting, halting = 0,
     posted = [''b''], served = []\<rparr>"

lemma busy_loop_reach: "loop_reach busy_loop"
proof -
  have "loop_reach (add_callback_after ''b'' new_loop)"
    by (rule loop_reach.step [OF loop_reach.fresh loop_step.post])
  then have "loop_reach (stop_flag (add_callback_after ''b'' new_loop))"
    by (rule loop_reach.step [OF _ loop_step.flag])
  then have "loop_reach (stop_wake (stop_flag (add_callback_after ''b'' new_loop)))"
    by (rule loop_reach.step [OF _ loop_step.wakeup]) (simp add: stop_flag_def)
  moreover have "loop_step (stop_wake (stop_flag (add_callback_after ''b'' new_loop))) busy_loop"
    by (rule loop_step.enter) (simp_all add: run_begin_def stop_wake_def stop_flag_def activate_def
        add_callback_after_def new_loop_def busy_loop_def)
  ultimately show ?thesis by (rule loop_reach.step)
qed

theorem callbacks_once_in_order_witness:
  "served busy_loop = [] \<and> cb_list busy_loop = [''b''] \<and> posted busy_loop = [''b''] \<and> 0 < wake busy_loop
    \<and> (\<exists>lp'. loop_next busy_loop = Inr lp')"
proof -
  note c = callbacks_once_in_order [OF busy_loop_reach]
  have "phase busy_loop = Waiting" "posted busy_loop = [''b'']" "cb_list busy_loop = [''b'']" by (simp_all add: busy_loop_def)
  then show ?thesis using c by simp
qed

text \<open>
  C17: The loop serves what was posted and ends when it is stopped. From any point of \<open>run\<close>,
  left alone, the thread needs at most five moves more than there are callbacks to call: then
  every callback posted so far has been called and the loop waits again; or, if the loop was
  stopped, \<open>run\<close> has returned, with the callbacks it had not taken yet left in the list.
\<close>

theorem posted_callbacks_served:
  assumes "loop_reach lp" and "phase lp \<noteq> Idle"
  shows "\<exists>n lp'. n \<le> length (in_hand (phase lp)) + length (cb_list lp) + 5 \<and> loop_moves n lp = Inr lp'
    \<and> served lp' @ cb_list lp' = posted lp
    \<and> (if is_loop lp then phase lp' = Waiting \<and> cb_list lp' = [] else phase lp' = Idle)"
  using moves_round [OF loop_reach_inv [OF assms(1)] assms(2)] by metis

theorem posted_callbacks_served_witness:
  "\<exists>n lp'. n \<le> 6 \<and> loop_moves n busy_loop = Inr lp' \<and> served lp' = [''b''] \<and> phase lp' = Waiting"
proof -
  have "phase busy_loop \<noteq> Idle" by (simp add: busy_loop_def)
  from posted_callbacks_served [OF busy_loop_reach this] show ?thesis
    by (auto simp: busy_loop_def)
qed

text \<open>
  A \<open>stop\<close> that comes before \<open>run\<close> is lost: \<open>run\<close> sets the flag again, and the loop then never
  leaves \<open>run\<close> by itself. This is the order in which a pool that is stopped right after its
  threads were started may execute.
\<close>

theorem stop_before_run_lost:
  assumes "phase lp = Idle" and "\<not> is_loop lp"
  shows "\<exists>lp'. run_begin (stop_wake (stop_flag lp)) = Inr lp'
    \<and> (\<forall>n lp''. loop_moves n lp' = Inr lp'' \<longrightarrow> is_loop lp'' \<and> phase lp'' \<noteq> Idle)"
proof -
  let ?lp = "(stop_wake (stop_flag lp))\<lparr>is_loop := True, phase := Waiting\<rparr>"
  have "run_begin (stop_wake (stop_flag lp)) = Inr ?lp"
    by (simp add: run_begin_def stop_wake_def stop_flag_def activate_def)
  moreover have "is_loop ?lp" "phase ?lp \<noteq> Idle" by simp_all
  ultimately show ?thesis using moves_stay by blast
qed

theorem stop_before_run_lost_witness:
  "\<exists>lp'. run_begin (stop_wake (stop_flag (new_loop :: string loop))) = Inr lp'
    \<and> (\<forall>n lp''. loop_moves n lp' = Inr lp'' \<longrightarrow> is_loop lp'' \<and> phase lp'' \<noteq> Idle)"
  by (rule stop_before_run_lost) (simp_all add: new_loop_def)

end
