(* ===== verification/TcpClient.thy ===== *)
theory TcpClient
  imports Channels EventLoop
begin

text \<open>
  \<open>TCPClient\<close> (src/src/tcp/TCPClient.hpp, TcpClient.cpp) as the owner of its objects: the
  connector and the connection each have a channel on the one descriptor, in the poller of the
  client's loop. What is sent and received is in \<open>TcpConnection\<close>, the attempts to connect
  in \<open>LoopPools\<close>. Callbacks of channels are names here.
\<close>

datatype client_cb = Connect_peer | Conn_read | Conn_write

text \<open>\<open>closes\<close> records the calls of \<open>close\<close> that the destructors of the channels make.\<close>

record client = "client_cb reactor" +
  connector_ch :: "nat option"
  conn_ch :: "nat option"
  closes :: "int list"
  main_loop :: "client_cb loop"

definition new_client :: client where
  "new_client = \<lparr>fd_set = {}, event_count = 0, epoll = (\<lambda>_. None), chans = (\<lambda>_. None), next_addr = 0,
     connector_ch = None, conn_ch = None, closes = [], main_loop = new_loop\<rparr>"

text \<open>
  \<open>run\<close> up to the loop: the constructor of the connector takes the new socket, makes a channel on
  it and posts the first attempt.
\<close>

definition new_connector :: "int \<Rightarrow> client \<Rightarrow> client res" where
  "new_connector fd cl =
     bind_res (get_channel fd cl) (\<lambda>(a, cl1).
     Inr (cl1\<lparr>connector_ch := Some a,
              main_loop := snd (snd (add_callback True Connect_peer (main_loop cl1)))\<rparr>))"

definition client_run :: "int \<Rightarrow> client \<Rightarrow> client res" where
  "client_run fd cl =
     bind_res (new_connector fd cl) (\<lambda>cl1.
     bind_res (run_begin (main_loop cl1)) (\<lambda>lp. Inr (cl1\<lparr>main_loop := lp\<rparr>)))"

text \<open>
  \<open>create_conn\<close>: the connection makes a channel of its own on the descriptor, sets both callbacks
  and leaves reading enabled.
\<close>

definition client_create_conn :: "int \<Rightarrow> client \<Rightarrow> client res" where
  "client_create_conn fd cl =
     bind_res (get_channel fd cl) (\<lambda>(a, cl1).
     bind_res (enable_event a READ (Some Conn_read) cl1) (\<lambda>cl2.
     bind_res (enable_event a WRITE (Some Conn_write) cl2) (\<lambda>cl3.
     bind_res (disable_event a WRITE cl3) (\<lambda>cl4. Inr (cl4\<lparr>conn_ch := Some a\<rparr>)))))"

definition client_remove_conn :: "client \<Rightarrow> client" where
  "client_remove_conn cl = cl\<lparr>main_loop := stop_wake (stop_flag (main_loop cl))\<rparr>"

definition drop_channel :: "nat option \<Rightarrow> client \<Rightarrow> client res" where
  "drop_channel x cl =
     (case x of
        None \<Rightarrow> Inr cl
      | Some a \<Rightarrow> with_channel a cl (\<lambda>ch.
          bind_res (destroy_channel a cl) (\<lambda>cl1. Inr (cl1\<lparr>closes := closes cl1 @ [ch_fd ch]\<rparr>))))"

definition client_stop :: "client \<Rightarrow> client" where
  "client_stop cl = cl\<lparr>main_loop := stop_wake (stop_flag (main_loop cl))\<rparr>"

text \<open>The members are destroyed in the reverse order of their declaration; the loop never is.\<close>

definition destroy_client :: "client \<Rightarrow> client res" where
  "destroy_client cl =
     bind_res (drop_channel (conn_ch cl) cl) (\<lambda>cl1.
     bind_res (drop_channel (connector_ch cl1) cl1) (\<lambda>cl2.
     Inr (cl2\<lparr>conn_ch := None, connector_ch := None\<rparr>)))"

text \<open>
  A client that connected closes its descriptor twice when it is destroyed, once by the
  channel of the connection and once by the one of the connector; by the second time the
  number may be that of a file another thread has opened. A client that never connected
  closes it once. The poller does not mind: it forgets the descriptor the first time.
\<close>

theorem client_closes_twice:
  assumes "0 \<le> fd"
  shows "\<exists>cl1 cl2 cl3 cl0. client_run fd new_client = Inr cl1 \<and> client_create_conn fd cl1 = Inr cl2
    \<and> destroy_client (client_remove_conn cl2) = Inr cl3 \<and> closes cl3 = [fd, fd] \<and> fd_set cl3 = {}
    \<and> destroy_client cl1 = Inr cl0 \<and> closes cl0 = [fd]"
  using assms
  by (simp add: client_run_def new_connector_def add_callback_def add_callback_after_def activate_def client_create_conn_def destroy_client_def drop_channel_def client_remove_conn_def
      op_defs new_client_def run_begin_def new_loop_def Let_def)

text \<open>
  The other order would be worse: the channel of the connector takes the registration of the
  connection out of the poller and closes its descriptor under it.
\<close>

lemma connector_first_breaks_conn:
  assumes "0 \<le> fd"
  shows "\<exists>cl1 cl2 cl3. client_run fd new_client = Inr cl1 \<and> client_create_conn fd cl1 = Inr cl2
    \<and> drop_channel (connector_ch cl2) cl2 = Inr cl3 \<and> closes cl3 = [fd] \<and> epoll cl3 fd = None
    \<and> (\<exists>a ch. conn_ch cl3 = Some a \<and> chans cl3 a = Some ch \<and> enable_arr ch READ)"
  using assms
  by (simp add: client_run_def new_connector_def add_callback_def add_callback_after_def activate_def client_create_conn_def drop_channel_def
      op_defs new_client_def run_begin_def new_loop_def Let_def)

end
