(* ===== verification/LoopObject.thy ===== *)
theory LoopObject
  imports EventLoop LoopTimers
begin

text \<open>
  The \<open>EventLoop\<close> object put together (src/src/reactor/EventLoop.cpp, Activater.cpp,
  TimerSchedulerAdapter.cpp, Poller.cpp): the poller and the channels of \<open>Channels\<close>, two of them
  its own, for the eventfd and for the timer descriptor; the flag and the list of \<open>EventLoop\<close>; the
  wheel and the descriptor of \<open>LoopTimers\<close>. A turn is one execution of the body of the loop in
  \<open>run\<close>. Here it is one step: what other threads do within a turn is in \<open>EventLoop\<close>, which the
  object is shown to refine.
\<close>

section \<open>The object\<close>

text \<open>The callbacks of channels: the two private ones, and those of the users of the loop.\<close>

datatype 'u loop_cb = Activater_read | Timefd_read | User_cb 'u

text \<open>\<open>called\<close> only records the users' callbacks that were called, in order.\<close>

record 'u loop_rest =
  core :: "'u loop"
  ti_wheel :: "'u wheel"
  timefd :: itimerspec
  called :: "'u list"

type_synonym 'u event_loop = "('u loop_cb, 'u loop_rest) reactor_scheme"

abbreviation rest :: "'u event_loop \<Rightarrow> 'u loop_rest" where
  "rest st \<equiv> reactor.more st"

definition set_rest :: "'u loop_rest \<Rightarrow> 'u event_loop \<Rightarrow> 'u event_loop" where
  "set_rest m st = reactor.more_update (\<lambda>_. m) st"

section \<open>Construction and destruction\<close>

text \<open>\<open>assertm\<close> of the descriptor: the \<open>-1\<close> of a failing \<open>epoll_create1\<close> is true and passes.\<close>

definition new_poller :: "int \<Rightarrow> 'cb reactor res" where
  "new_poller epfd = bind_res (assertm (epfd \<noteq> 0)) (\<lambda>_. Inr new_reactor)"

definition new_activater :: "int \<Rightarrow> 'u event_loop \<Rightarrow> 'u event_loop res" where
  "new_activater efd st =
     bind_res (get_channel efd st) (\<lambda>(a, st1). enable_event a READ (Some Activater_read) st1)"

text \<open>\<open>now\<close> is the reading of the clock by which the wheel starts.\<close>

definition new_timer_adapter :: "int \<Rightarrow> u64 \<Rightarrow> 'u event_loop \<Rightarrow> 'u event_loop res" where
  "new_timer_adapter tfd now st =
     bind_res (get_channel tfd (set_rest ((rest st)\<lparr>ti_wheel := new_wheel now\<rparr>) st)) (\<lambda>(a, st1).
     bind_res (assertm (settime_ok adapter_init)) (\<lambda>_.
     enable_event a READ (Some Timefd_read) (set_rest ((rest st1)\<lparr>timefd := adapter_init\<rparr>) st1)))"

definition bare_rest :: "u64 \<Rightarrow> 'u loop_rest" where
  "bare_rest now = \<lparr>core = new_loop, ti_wheel = new_wheel now, timefd = \<lparr>tv_sec = 0, tv_nsec = 0\<rparr>, called = []\<rparr>"

definition new_event_loop :: "int \<Rightarrow> int \<Rightarrow> int \<Rightarrow> u64 \<Rightarrow> 'u event_loop res" where
  "new_event_loop epfd efd tfd now =
     bind_res (new_poller epfd) (\<lambda>r.
     bind_res (new_activater efd (reactor.extend r (bare_rest now))) (new_timer_adapter tfd now))"

text \<open>
  The destructor calls \<open>stop\<close>; then the members go, in the reverse order of their declaration:
  the adapter with the channel of the timer descriptor, the activater with its own.
\<close>

definition delete_event_loop :: "'u event_loop \<Rightarrow> 'u event_loop res" where
  "delete_event_loop st =
     bind_res (destroy_channel 1 (set_rest ((rest st)\<lparr>core := stop_wake (stop_flag (core (rest st)))\<rparr>) st))
       (destroy_channel 0)"

section \<open>A turn of the loop\<close>

text \<open>
  A user's callback is a function on the loop's flag, list and eventfd; it does not touch the
  channels or the wheel here. So it does not matter that the due timers of one expiry, which
  the code calls from within \<open>trigger_timer\<close>, are called after it.
\<close>

type_synonym 'u user = "'u \<Rightarrow> 'u loop \<Rightarrow> 'u loop res"

definition call_user :: "'u user \<Rightarrow> 'u \<Rightarrow> 'u loop_rest \<Rightarrow> 'u loop_rest res" where
  "call_user user u m = bind_res (user u (core m)) (\<lambda>l. Inr (m\<lparr>core := l, called := called m @ [u]\<rparr>))"

definition activater_callback :: "'u loop_rest \<Rightarrow> 'u loop_rest res" where
  "activater_callback m = bind_res (activater_read (core m)) (\<lambda>l. Inr (m\<lparr>core := l\<lparr>phase := Woken False\<rparr>\<rparr>))"

text \<open>\<open>n\<close>: what the read of the timer descriptor returns; \<open>now1\<close>, \<open>now\<close>: readings of the clock.\<close>

definition timefd_callback :: "'u user \<Rightarrow> int \<Rightarrow> u64 \<Rightarrow> u64 \<Rightarrow> 'u loop_rest \<Rightarrow> 'u loop_rest res" where
  "timefd_callback user n now1 now m =
     (case timefd_event quiet n now1 now (ti_wheel m) of
        None \<Rightarrow> Inl Never_returns
      | Some r \<Rightarrow> bind_res r (\<lambda>(w, fired, ts).
          run_calls (call_user user) fired (m\<lparr>ti_wheel := w, timefd := ts\<rparr>)))"

definition loop_call :: "'u user \<Rightarrow> int \<Rightarrow> u64 \<Rightarrow> u64 \<Rightarrow> 'u loop_cb \<Rightarrow> 'u loop_rest \<Rightarrow> 'u loop_rest res" where
  "loop_call user n now1 now cb m =
     (case cb of
        Activater_read \<Rightarrow> activater_callback m
      | Timefd_read \<Rightarrow> timefd_callback user n now1 now m
      | User_cb u \<Rightarrow> call_user user u m)"

text \<open>The callbacks taken from the list, one after the other; then the condition of the loop.\<close>

primrec call_taken :: "'u user \<Rightarrow> 'u list \<Rightarrow> 'u loop_rest \<Rightarrow> 'u loop_rest res" where
  "call_taken user [] m = Inr (m\<lparr>core := (core m)\<lparr>phase := (if is_loop (core m) then Waiting else Idle)\<rparr>\<rparr>)"
| "call_taken user (u # us) m =
     bind_res (call_user user u (m\<lparr>core := (core m)\<lparr>served := served (core m) @ [u], phase := Running us\<rparr>\<rparr>))
       (call_taken user us)"

definition loop_turn :: "'u user \<Rightarrow> int \<Rightarrow> u64 \<Rightarrow> u64 \<Rightarrow> readiness list \<Rightarrow> 'u event_loop \<Rightarrow> 'u event_loop res" where
  "loop_turn user n now1 now ready st =
     (let m = rest st; woken = m\<lparr>core := (core m)\<lparr>phase := Woken (0 < wake (core m))\<rparr>\<rparr>
      in bind_res (poll (inside (loop_call user n now1 now)) ready (set_rest woken st)) (\<lambda>st1.
         let m1 = rest st1
         in bind_res (call_taken user (cb_list (core m1)) (m1\<lparr>core := take_callbacks (core m1)\<rparr>)) (\<lambda>m2.
            Inr (set_rest m2 st1))))"

section \<open>Runs of the object\<close>

text \<open>
  What a user's callback, or another thread between two turns, does to the loop: it posts a
  callback or stops the loop. A callback is a list of these.
\<close>

datatype 'u act = Post 'u | Halt

primrec do_act :: "'u act \<Rightarrow> 'u loop \<Rightarrow> 'u loop" where
  "do_act (Post u) lp = add_callback_after u lp"
| "do_act Halt lp = stop_wake (stop_flag lp)"

definition scripted :: "('u \<Rightarrow> 'u act list) \<Rightarrow> 'u user" where
  "scripted acts u lp = Inr (fold do_act (acts u) lp)"

text \<open>The operations on channels of the users: their own channels (the loop's are 0 and 1) and callbacks.\<close>

definition user_op :: "'u loop_cb channel_op \<Rightarrow> bool" where
  "user_op op =
     (case op of
        Op_get fd once \<Rightarrow> True
      | Op_enable a et cb \<Rightarrow> 1 < a \<and> (case cb of None \<Rightarrow> True | Some (User_cb u) \<Rightarrow> True | _ \<Rightarrow> False)
      | Op_disable a et \<Rightarrow> 1 < a
      | Op_destroy a \<Rightarrow> 1 < a)"

definition eventfd_agrees :: "int \<Rightarrow> readiness list \<Rightarrow> 'u loop \<Rightarrow> bool" where
  "eventfd_agrees efd ready lp \<longleftrightarrow> (\<exists>w. (efd, True, w) \<in> set ready) = (0 < wake lp)"

inductive object_reach :: "('u \<Rightarrow> 'u act list) \<Rightarrow> int \<Rightarrow> int \<Rightarrow> 'u event_loop \<Rightarrow> bool" for acts efd tfd where
  built: "efd \<noteq> tfd \<Longrightarrow> now \<noteq> -1 \<Longrightarrow> new_event_loop epfd efd tfd now = Inr st \<Longrightarrow> object_reach acts efd tfd st"
| channel: "object_reach acts efd tfd st \<Longrightarrow> user_op op \<Longrightarrow> op_ok st op \<Longrightarrow> do_op op st = Inr st'
    \<Longrightarrow> object_reach acts efd tfd st'"
| entered: "object_reach acts efd tfd st \<Longrightarrow> phase (core (rest st)) = Idle \<Longrightarrow> run_begin (core (rest st)) = Inr lp
    \<Longrightarrow> object_reach acts efd tfd (set_rest ((rest st)\<lparr>core := lp\<rparr>) st)"
| acted: "object_reach acts efd tfd st
    \<Longrightarrow> object_reach acts efd tfd (set_rest ((rest st)\<lparr>core := do_act a (core (rest st))\<rparr>) st)"
| added: "object_reach acts efd tfd st \<Longrightarrow> calm now (trigger_after_ms ti)
    \<Longrightarrow> add_timer quiet now now1 now2 ti (ti_wheel (rest st)) = Inr (i, w, [])
    \<Longrightarrow> object_reach acts efd tfd (set_rest ((rest st)\<lparr>ti_wheel := w\<rparr>) st)"
| removed: "object_reach acts efd tfd st \<Longrightarrow> remove_timer i (ti_wheel (rest st)) = Inr w
    \<Longrightarrow> object_reach acts efd tfd (set_rest ((rest st)\<lparr>ti_wheel := w\<rparr>) st)"
| turned: "object_reach acts efd tfd st \<Longrightarrow> phase (core (rest st)) = Waiting \<Longrightarrow> distinct (map fst ready)
    \<Longrightarrow> eventfd_agrees efd ready (core (rest st)) \<Longrightarrow> now \<noteq> -1
    \<Longrightarrow> loop_turn (scripted acts) 8 now1 now ready st = Inr st' \<Longrightarrow> object_reach acts efd tfd st'"

section \<open>What callbacks do to the loop\<close>

lemma set_rest_simps [simp]:
  "rest (set_rest m st) = m" "chans (set_rest m st) = chans st" "epoll (set_rest m st) = epoll st"
  "fd_set (set_rest m st) = fd_set st" "event_count (set_rest m st) = event_count st"
  "next_addr (set_rest m st) = next_addr st" "set_rest m (set_rest m' st) = set_rest m st"
  "reactor.truncate (set_rest m st) = reactor.truncate st"
  by (simp_all add: set_rest_def reactor.truncate_def)

text \<open>Steps of the threads that leave the loop in its phase, with what was served and listed.\<close>

definition pokes :: "'u loop \<Rightarrow> 'u loop \<Rightarrow> bool" where
  "pokes lp lp' \<longleftrightarrow> loop_step\<^sup>*\<^sup>* lp lp' \<and> phase lp' = phase lp \<and> served lp' = served lp
     \<and> wake lp \<le> wake lp' \<and> (\<exists>us. cb_list lp' = cb_list lp @ us)"

lemma pokes_refl [simp]: "pokes lp lp"
  by (simp add: pokes_def)

lemma pokes_trans: "pokes lp lp' \<Longrightarrow> pokes lp' lp'' \<Longrightarrow> pokes lp lp''"
  unfolding pokes_def by (metis append.assoc order.trans rtranclp_trans)

lemma pokes_act: "pokes lp (do_act a lp)"
proof (cases a)
  case (Post u)
  have "loop_step\<^sup>*\<^sup>* lp (add_callback_after u lp)" by (rule r_into_rtranclp) (rule loop_step.post)
  moreover have "phase (add_callback_after u lp) = phase lp" "served (add_callback_after u lp) = served lp"
      "wake lp \<le> wake (add_callback_after u lp)" "cb_list (add_callback_after u lp) = cb_list lp @ [u]"
    by (simp_all add: add_callback_after_def activate_def)
  ultimately show ?thesis unfolding pokes_def Post do_act.simps by blast
next
  case Halt
  have "loop_step (stop_flag lp) (stop_wake (stop_flag lp))"
    by (rule loop_step.wakeup) (simp add: stop_flag_def)
  then have "loop_step\<^sup>*\<^sup>* lp (stop_wake (stop_flag lp))"
    by (rule rtranclp.rtrancl_into_rtrancl [OF r_into_rtranclp [where r = loop_step, OF loop_step.flag]])
  moreover have "phase (stop_wake (stop_flag lp)) = phase lp" "served (stop_wake (stop_flag lp)) = served lp"
      "wake lp \<le> wake (stop_wake (stop_flag lp))" "cb_list (stop_wake (stop_flag lp)) = cb_list lp @ []"
    by (simp_all add: stop_wake_def stop_flag_def activate_def)
  ultimately show ?thesis unfolding pokes_def Halt do_act.simps by blast
qed

lemma pokes_acts: "pokes lp (fold do_act as lp)"
  by (induction as arbitrary: lp) (auto intro: pokes_trans [OF pokes_act])

lemma called_user:
  obtains lp where "call_user (scripted acts) u m = Inr (m\<lparr>core := lp, called := called m @ [u]\<rparr>)"
    and "pokes (core m) lp"
  by (rule that [OF _ pokes_acts [of _ "acts u"]]) (simp add: call_user_def scripted_def)

lemma called_users:
  "\<exists>lp. run_calls (call_user (scripted acts)) us m = Inr (m\<lparr>core := lp, called := called m @ us\<rparr>) \<and> pokes (core m) lp"
proof (induction us arbitrary: m)
  case Nil
  show ?case by (rule exI [of _ "core m"]) simp
next
  case (Cons u us)
  obtain lp where lp: "call_user (scripted acts) u m = Inr (m\<lparr>core := lp, called := called m @ [u]\<rparr>)" "pokes (core m) lp"
    by (rule called_user)
  then show ?case
    using Cons [of "m\<lparr>core := lp, called := called m @ [u]\<rparr>"] pokes_trans by fastforce
qed

text \<open>The list of callbacks that was taken.\<close>

lemma call_taken_steps:
  assumes "phase (core m) = Running us"
  shows "\<exists>lp. call_taken (scripted acts) us m = Inr (m\<lparr>core := lp, called := called m @ us\<rparr>)
    \<and> loop_step\<^sup>*\<^sup>* (core m) lp \<and> served lp = served (core m) @ us
    \<and> phase lp = (if is_loop lp then Waiting else Idle)"
  using assms
proof (induction us arbitrary: m)
  case Nil
  let ?lp = "(core m)\<lparr>phase := (if is_loop (core m) then Waiting else Idle)\<rparr>"
  have "loop_step\<^sup>*\<^sup>* (core m) ?lp"
    by (rule r_into_rtranclp, rule loop_step.move) (simp_all add: Nil loop_next_def)
  then show ?case by (intro exI [of _ ?lp]) simp
next
  case (Cons u us)
  let ?lp = "(core m)\<lparr>served := served (core m) @ [u], phase := Running us\<rparr>"
  have first: "loop_step (core m) ?lp" by (rule loop_step.move) (simp_all add: Cons.prems loop_next_def)
  obtain lp where lp: "call_user (scripted acts) u (m\<lparr>core := ?lp\<rparr>) = Inr (m\<lparr>core := lp, called := called m @ [u]\<rparr>)"
      "pokes ?lp lp" by (rule called_user [of acts u "m\<lparr>core := ?lp\<rparr>"]) simp
  let ?m = "m\<lparr>core := lp, called := called m @ [u]\<rparr>"
  have lp1: "phase lp = Running us" "served lp = served (core m) @ [u]" "loop_step\<^sup>*\<^sup>* ?lp lp"
    using lp(2) by (simp_all add: pokes_def)
  have reached: "loop_step\<^sup>*\<^sup>* (core m) lp" by (rule converse_rtranclp_into_rtranclp [where r = loop_step, OF first lp1(3)])
  obtain lp' where lp': "call_taken (scripted acts) us ?m = Inr (?m\<lparr>core := lp', called := called ?m @ us\<rparr>)"
      "loop_step\<^sup>*\<^sup>* lp lp'" "served lp' = served lp @ us" "phase lp' = (if is_loop lp' then Waiting else Idle)"
    using Cons.IH [of ?m] lp1(1) by (simp, blast)
  have "loop_step\<^sup>*\<^sup>* (core m) lp'" by (rule rtranclp_trans [OF reached lp'(2)])
  moreover have "call_taken (scripted acts) (u # us) m = Inr (m\<lparr>core := lp', called := called m @ u # us\<rparr>)"
    using lp(1) lp'(1) by simp
  ultimately show ?case using lp'(3,4) lp1(2) by (intro exI [of _ lp']) simp
qed

section \<open>The calls of one poll\<close>

definition due :: "u64 \<Rightarrow> 'u wheel \<Rightarrow> 'u list" where
  "due now w = map (timer_cb \<circ> snd \<circ> snd) (filter (\<lambda>d. fst d \<le> slot_time now) (agenda w))"

definition expiry :: itimerspec where
  "expiry = \<lparr>tv_sec = 0, tv_nsec = 10000000\<rparr>"

text \<open>The users' callbacks in a list of calls: those of an expiry are the due timers.\<close>

definition user_calls :: "'u list \<Rightarrow> 'u loop_cb list \<Rightarrow> 'u list" where
  "user_calls timers cbs =
     concat (map (\<lambda>cb. case cb of Activater_read \<Rightarrow> [] | Timefd_read \<Rightarrow> timers | User_cb u \<Rightarrow> [u]) cbs)"

lemma user_calls_simps [simp]:
  "user_calls ts [] = []" "user_calls ts (Activater_read # cbs) = user_calls ts cbs"
  "user_calls ts (Timefd_read # cbs) = ts @ user_calls ts cbs"
  "user_calls ts (User_cb u # cbs) = u # user_calls ts cbs"
  by (simp_all add: user_calls_def)

lemma user_calls_no_timer: "Timefd_read \<notin> set cbs \<Longrightarrow> user_calls ts cbs = user_calls ts' cbs"
  unfolding user_calls_def by (rule arg_cong [where f = concat]) (auto split: loop_cb.split)

lemma timefd_called:
  assumes "wf_wheel (ti_wheel m)" and "now \<noteq> -1"
  obtains w lp where "loop_call (scripted acts) 8 now1 now Timefd_read m
      = Inr (m\<lparr>ti_wheel := w, timefd := expiry, core := lp, called := called m @ due now (ti_wheel m)\<rparr>)"
    and "pokes (core m) lp" and "wf_wheel w" and "agenda w = filter (\<lambda>d. slot_time now < fst d) (agenda (ti_wheel m))"
proof -
  let ?w = "ti_wheel m"
  have "settime_ok (reset_timefd every_ms)" "reset_timefd every_ms = expiry"
    by (simp_all add: reset_timefd_def settime_ok_def every_ms_def expiry_def)
  then obtain w where w: "timefd_event quiet 8 now1 now ?w = Some (Inr (w, due now ?w, expiry))"
      "agenda w = filter (\<lambda>d. slot_time now < fst d) (agenda ?w)" "wf_wheel w"
    using trigger_timer_quiet [OF assms, of now1] by (auto simp: timefd_event_def read_timefd_def due_def)
  obtain lp where "run_calls (call_user (scripted acts)) (due now ?w) (m\<lparr>ti_wheel := w, timefd := expiry\<rparr>)
      = Inr (m\<lparr>ti_wheel := w, timefd := expiry, core := lp, called := called m @ due now ?w\<rparr>)" "pokes (core m) lp"
    using called_users [of acts "due now ?w" "m\<lparr>ti_wheel := w, timefd := expiry\<rparr>"] by auto
  then show ?thesis by (intro that [OF _ _ w(3,2)]) (simp_all add: loop_call_def timefd_callback_def w(1))
qed

lemma activater_called:
  assumes "phase (core m) = Woken True" and "0 < wake (core m)"
  obtains lp where "loop_call user n now1 now Activater_read m = Inr (m\<lparr>core := lp\<rparr>)"
    and "loop_step (core m) lp" and "phase lp = Woken False" and "served lp = served (core m)"
    and "cb_list lp = cb_list (core m)"
proof -
  let ?lp = "(core m)\<lparr>wake := 0, phase := Woken False\<rparr>"
  have "loop_step (core m) ?lp"
    by (rule loop_step.move) (simp_all add: assms loop_next_def activater_read_def)
  then show ?thesis by (intro that [of ?lp]) (simp_all add: loop_call_def activater_callback_def activater_read_def assms)
qed

text \<open>
  A sequence of calls in which the activater occurs when the eventfd was reported, once, and
  the timer descriptor at most once.
\<close>

definition after_calls :: "u64 \<Rightarrow> 'u loop_cb list \<Rightarrow> 'u loop_rest \<Rightarrow> 'u loop_rest \<Rightarrow> bool" where
  "after_calls now cbs m m' \<longleftrightarrow> loop_step\<^sup>*\<^sup>* (core m) (core m') \<and> phase (core m') = Woken False
     \<and> served (core m') = served (core m) \<and> (\<exists>us. cb_list (core m') = cb_list (core m) @ us)
     \<and> called m' = called m @ user_calls (due now (ti_wheel m)) cbs \<and> wf_wheel (ti_wheel m')
     \<and> agenda (ti_wheel m') = (if Timefd_read \<in> set cbs then filter (\<lambda>d. slot_time now < fst d) (agenda (ti_wheel m))
                               else agenda (ti_wheel m))
     \<and> timefd m' = (if Timefd_read \<in> set cbs then expiry else timefd m)"

lemma after_calls_step:
  assumes after: "after_calls now cbs m1 m'" and step: "loop_step\<^sup>*\<^sup>* (core m) (core m1)"
    and "served (core m1) = served (core m)" and "cb_list (core m1) = cb_list (core m) @ us"
    and "called m1 @ user_calls (due now (ti_wheel m1)) cbs = called m @ user_calls (due now (ti_wheel m)) (cb # cbs)"
    and "if cb = Timefd_read
      then agenda (ti_wheel m1) = filter (\<lambda>d. slot_time now < fst d) (agenda (ti_wheel m)) \<and> timefd m1 = expiry
      else ti_wheel m1 = ti_wheel m \<and> timefd m1 = timefd m"
  shows "after_calls now (cb # cbs) m m'"
proof -
  have "loop_step\<^sup>*\<^sup>* (core m) (core m')"
    using after step by (auto simp: after_calls_def)
  moreover have "\<exists>us'. cb_list (core m') = cb_list (core m) @ us'"
    using after assms(4) by (auto simp: after_calls_def)
  ultimately show ?thesis
    using after assms(3,5,6) unfolding after_calls_def by (simp split: if_splits)
qed

lemma pokesD:
  assumes "pokes lp lp'"
  obtains us where "loop_step\<^sup>*\<^sup>* lp lp'" and "phase lp' = phase lp" and "served lp' = served lp"
    and "wake lp \<le> wake lp'" and "cb_list lp' = cb_list lp @ us"
  using assms unfolding pokes_def by blast

lemma run_calls_steps:
  assumes "phase (core m) = Woken b" and "count_list cbs Activater_read = (if b then 1 else 0)"
    and "b \<longrightarrow> 0 < wake (core m)" and "count_list cbs Timefd_read \<le> 1" and "wf_wheel (ti_wheel m)" and "now \<noteq> -1"
  shows "\<exists>m'. run_calls (loop_call (scripted acts) 8 now1 now) cbs m = Inr m' \<and> after_calls now cbs m m'"
  using assms(1-5)
proof (induction cbs arbitrary: m b)
  case Nil
  then show ?case by (auto simp: after_calls_def split: if_splits)
next
  case (Cons cb cbs)
  let ?run = "run_calls (loop_call (scripted acts) 8 now1 now)" and ?call = "loop_call (scripted acts) 8 now1 now"
  note wf = Cons.prems(5)
  show ?case
  proof (cases cb)
    case Activater_read
    then have b: b "count_list cbs Activater_read = 0" using Cons.prems(2) by (simp_all split: if_splits)
    have woken: "phase (core m) = Woken True" "0 < wake (core m)" using b(1) Cons.prems(1,3) by simp_all
    obtain lp where lp: "?call cb m = Inr (m\<lparr>core := lp\<rparr>)" "loop_step (core m) lp"
        "phase lp = Woken False" "served lp = served (core m)" "cb_list lp = cb_list (core m)"
      unfolding Activater_read by (rule activater_called [OF woken])
    obtain m' where m': "?run cbs (m\<lparr>core := lp\<rparr>) = Inr m'" "after_calls now cbs (m\<lparr>core := lp\<rparr>) m'"
      using Cons.IH [of "m\<lparr>core := lp\<rparr>" False] lp(3) b(2) Cons.prems(4) wf Activater_read by auto
    have "after_calls now (cb # cbs) m m'"
      by (rule after_calls_step [OF m'(2), where us = "[]"]) (use lp in \<open>simp_all add: Activater_read\<close>)
    then show ?thesis using m'(1) lp(1) by auto
  next
    case Timefd_read
    then have none: "Timefd_read \<notin> set cbs" using Cons.prems(4) by (simp add: count_list_0_iff)
    obtain w lp where call: "?call cb m
        = Inr (m\<lparr>ti_wheel := w, timefd := expiry, core := lp, called := called m @ due now (ti_wheel m)\<rparr>)"
        "pokes (core m) lp" "wf_wheel w" "agenda w = filter (\<lambda>d. slot_time now < fst d) (agenda (ti_wheel m))"
      unfolding Timefd_read by (rule timefd_called [OF wf assms(6)])
    obtain us where us: "loop_step\<^sup>*\<^sup>* (core m) lp" "phase lp = phase (core m)" "served lp = served (core m)"
        "wake (core m) \<le> wake lp" "cb_list lp = cb_list (core m) @ us" by (rule pokesD [OF call(2)])
    let ?m = "m\<lparr>ti_wheel := w, timefd := expiry, core := lp, called := called m @ due now (ti_wheel m)\<rparr>"
    have "\<exists>m'. ?run cbs ?m = Inr m' \<and> after_calls now cbs ?m m'"
      by (rule Cons.IH [of ?m b]) (use us Cons.prems call(3) Timefd_read in auto)
    then obtain m' where m': "?run cbs ?m = Inr m'" "after_calls now cbs ?m m'" by blast
    have "after_calls now (cb # cbs) m m'"
      by (rule after_calls_step [OF m'(2), where us = us])
        (use us call(4) user_calls_no_timer [OF none, of "due now w" "due now (ti_wheel m)"] in \<open>simp_all add: Timefd_read\<close>)
    then show ?thesis using m'(1) call(1) by auto
  next
    case (User_cb u)
    obtain lp where lp: "call_user (scripted acts) u m = Inr (m\<lparr>core := lp, called := called m @ [u]\<rparr>)" "pokes (core m) lp"
      by (rule called_user)
    obtain us where us: "loop_step\<^sup>*\<^sup>* (core m) lp" "phase lp = phase (core m)" "served lp = served (core m)"
        "wake (core m) \<le> wake lp" "cb_list lp = cb_list (core m) @ us" by (rule pokesD [OF lp(2)])
    let ?m = "m\<lparr>core := lp, called := called m @ [u]\<rparr>"
    have "\<exists>m'. ?run cbs ?m = Inr m' \<and> after_calls now cbs ?m m'"
      by (rule Cons.IH [of ?m b]) (use us Cons.prems User_cb in auto)
    then obtain m' where m': "?run cbs ?m = Inr m'" "after_calls now cbs ?m m'" by blast
    have "after_calls now (cb # cbs) m m'"
      by (rule after_calls_step [OF m'(2), where us = us]) (use us in \<open>simp_all add: User_cb\<close>)
    moreover have "?call cb m = call_user (scripted acts) u m" by (simp add: loop_call_def User_cb)
    ultimately show ?thesis using m'(1) lp(1) by auto
  qed
qed

section \<open>The invariant of the object\<close>

definition own_channel :: "int \<Rightarrow> 'u loop_cb \<Rightarrow> 'u loop_cb channel" where
  "own_channel fd cb = \<lparr>ch_fd = fd, is_once = False, cb_arr = (\<lambda>_. None)(READ \<mapsto> cb),
     trigger_arr = (\<lambda>_. False), enable_arr = (\<lambda>_. False)(READ := True)\<rparr>"

text \<open>\<open>cb\<close> is the callback of one channel of the loop and of no other.\<close>

definition owns :: "nat \<Rightarrow> int \<Rightarrow> 'u loop_cb \<Rightarrow> 'u event_loop \<Rightarrow> bool" where
  "owns k fd cb st \<longleftrightarrow> chans st k = Some (own_channel fd cb)
     \<and> (\<forall>a ch et. chans st a = Some ch \<and> cb_arr ch et = Some cb \<longrightarrow> a = k)"

definition object_inv :: "int \<Rightarrow> int \<Rightarrow> 'u event_loop \<Rightarrow> bool" where
  "object_inv efd tfd st \<longleftrightarrow> reactor_inv st \<and> flags_clear st \<and> owns 0 efd Activater_read st \<and> owns 1 tfd Timefd_read st
     \<and> wf_wheel (ti_wheel (rest st)) \<and> loop_reach (core (rest st)) \<and> armed (timefd (rest st))"

lemma object_invD:
  assumes "object_inv efd tfd st"
  shows "reactor_inv st" and "flags_clear st" and "owns 0 efd Activater_read st" and "owns 1 tfd Timefd_read st"
    and "wf_wheel (ti_wheel (rest st))" and "loop_reach (core (rest st))" and "armed (timefd (rest st))"
  using assms by (simp_all add: object_inv_def)

lemma reactor_set_rest [simp]:
  "reactor_inv (set_rest m st) = reactor_inv st" "flags_clear (set_rest m st) = flags_clear st"
  by (metis set_rest_simps(8) truncate_inv, metis set_rest_simps(8) truncate_flags)

lemma owns_set_rest [simp]: "owns k fd cb (set_rest m st) = owns k fd cb st"
  by (simp add: owns_def)

lemma owns_epoll [simp]: "owns k fd cb (st\<lparr>epoll := ep\<rparr>) = owns k fd cb st"
  by (simp add: owns_def)

lemma object_inv_rest:
  assumes "object_inv efd tfd st" and "wf_wheel (ti_wheel m)" and "loop_reach (core m)" and "armed (timefd m)"
  shows "object_inv efd tfd (set_rest m st)"
  using assms by (simp add: object_inv_def)

subsection \<open>Users leave the loop's own channels alone\<close>

text \<open>The callbacks of the channel an operation leaves behind.\<close>

definition op_target :: "('cb, 'm) reactor_scheme \<Rightarrow> 'cb channel_op \<Rightarrow> nat" where
  "op_target st op = (case op of Op_get fd once \<Rightarrow> next_addr st | Op_enable a et cb \<Rightarrow> a | Op_disable a et \<Rightarrow> a | Op_destroy a \<Rightarrow> a)"

lemma do_op_chans:
  assumes "do_op op st = Inr st'"
  shows "b \<noteq> op_target st op \<Longrightarrow> chans st' b = chans st b" and "reactor.more st' = reactor.more st"
    and "chans st' (op_target st op) = Some ch' \<Longrightarrow> cb_arr ch' et' = Some f \<Longrightarrow>
      (\<exists>ch. chans st (op_target st op) = Some ch \<and> cb_arr ch et' = Some f) \<or> (\<exists>a et. op = Op_enable a et (Some f))"
proof -
  show "b \<noteq> op_target st op \<Longrightarrow> chans st' b = chans st b" "reactor.more st' = reactor.more st"
    using assms by (cases op; auto simp: op_defs op_target_def bind_res_Inr_iff Let_def split: option.splits if_splits)+
  show "chans st' (op_target st op) = Some ch' \<Longrightarrow> cb_arr ch' et' = Some f \<Longrightarrow>
      (\<exists>ch. chans st (op_target st op) = Some ch \<and> cb_arr ch et' = Some f) \<or> (\<exists>a et. op = Op_enable a et (Some f))"
    using assms by (cases op; auto simp: op_defs op_target_def bind_res_Inr_iff Let_def split: option.splits if_splits)
qed

lemma owns_user_op:
  assumes "owns k fd cb st" and "k \<le> 1" and "1 < next_addr st" and "user_op op" and "do_op op st = Inr st'"
    and "\<And>u. cb \<noteq> User_cb u"
  shows "owns k fd cb st'"
proof -
  let ?a = "op_target st op"
  note keep = do_op_chans [OF assms(5)]
  have far: "1 < ?a" using assms(3,4) by (cases op) (simp_all add: op_target_def user_op_def)
  then have "chans st' k = chans st k" using keep(1) [of k] assms(2) by simp
  moreover have "a = k" if a: "chans st' a = Some ch" "cb_arr ch et = Some cb" for a ch et
  proof (cases "a = ?a")
    case True
    then have "\<exists>ch. chans st ?a = Some ch \<and> cb_arr ch et = Some cb"
      using keep(3) [of ch et cb] a assms(4,6) by (cases cb) (auto simp: user_op_def)
    then show ?thesis using assms(1) True by (auto simp: owns_def)
  next
    case False
    then have "chans st a = Some ch" using keep(1) [OF False] a(1) by simp
    then show ?thesis using assms(1) a(2) unfolding owns_def by blast
  qed
  ultimately show ?thesis using assms(1) by (auto simp: owns_def)
qed

lemma addr_bound: "object_inv efd tfd st \<Longrightarrow> 1 < next_addr st"
  using inv_channel [of st 1] by (auto simp: object_inv_def owns_def channel_ok_def)

lemma object_inv_op:
  assumes "object_inv efd tfd st" and "user_op op" and "op_ok st op" and "do_op op st = Inr st'"
  shows "object_inv efd tfd st'"
proof -
  note inv = object_invD [OF assms(1)]
  have "reactor_inv st'" using do_op_inv [OF inv(1) assms(3)] assms(4) by auto
  moreover have "flags_clear st'" by (rule flags_do_op [OF inv(2) assms(4)])
  moreover have "owns 0 efd Activater_read st'" "owns 1 tfd Timefd_read st'"
    using owns_user_op [OF inv(3) _ addr_bound [OF assms(1)] assms(2,4)]
      owns_user_op [OF inv(4) _ addr_bound [OF assms(1)] assms(2,4)] by simp_all
  ultimately show ?thesis using inv(5-7) do_op_chans(2) [OF assms(4)] by (simp add: object_inv_def)
qed

subsection \<open>The loop's own callbacks in a poll\<close>

lemma calls_at_own:
  assumes inv: "reactor_inv st" and own: "owns k fd cb st"
  shows "count_list (calls_at st x) cb = (if fst x = fd \<and> fst (snd x) then 1 else 0)"
proof -
  obtain fd' r w where x: "x = (fd', r, w)" by (cases x)
  have k: "chans st k = Some (own_channel fd cb)" using own by (simp add: owns_def)
  show ?thesis
  proof (cases "fd' = fd")
    case True
    then show ?thesis using calls_enabled [OF inv k, of r w] by (simp add: x own_channel_def)
  next
    case False
    have "cb \<notin> set (calls_at st x)"
    proof (cases "report_of (epoll st) x")
      case None
      then show ?thesis by (simp add: calls_at_def)
    next
      case (Some e)
      obtain a r' w' where e: "e = (a, r', w')" by (cases e)
      then obtain ch where ch: "chans st a = Some ch" "ch_fd ch = fd'"
          "r' \<longrightarrow> cb_arr ch READ \<noteq> None" "w' \<longrightarrow> cb_arr ch WRITE \<noteq> None"
        using report_live [OF inv, of x a r' w'] Some by (auto simp: x)
      then have "a \<noteq> k" using k False by (auto simp: own_channel_def)
      then have "cb_arr ch et \<noteq> Some cb" for et using own ch(1) by (auto simp: owns_def)
      then show ?thesis using Some ch by (auto simp: calls_at_def calls_of_def e)
    qed
    then show ?thesis using False by (simp add: x count_list_0_iff)
  qed
qed

lemma ready_calls_own:
  assumes "reactor_inv st" and "owns k fd cb st" and "distinct (map fst ready)"
  shows "count_list (ready_calls st ready) cb = (if \<exists>w. (fd, True, w) \<in> set ready then 1 else 0)"
  using assms(3)
proof (induction ready)
  case (Cons x ready)
  have "ready_calls st (x # ready) = calls_at st x @ ready_calls st ready" by (simp add: ready_calls_def)
  then have "count_list (ready_calls st (x # ready)) cb
      = (if fst x = fd \<and> fst (snd x) then 1 else 0) + (if \<exists>w. (fd, True, w) \<in> set ready then 1 else 0)"
    using Cons calls_at_own [OF assms(1,2), of x] by simp
  moreover have "(fst x = fd \<and> fst (snd x)) = (\<exists>w. x = (fd, True, w))" by (cases x) auto
  moreover have "\<not> ((\<exists>w. x = (fd, True, w)) \<and> (\<exists>w. (fd, True, w) \<in> set ready))"
    using Cons.prems by force
  ultimately show ?case by auto
qed (simp add: ready_calls_def)

subsection \<open>Construction\<close>

lemma built_reactor:
  assumes "new_event_loop epfd efd tfd now = Inr st" and "efd \<noteq> tfd"
  shows "0 \<le> efd \<and> 0 \<le> tfd \<and> st = reactor.extend
      \<lparr>fd_set = {efd, tfd}, event_count = 2,
       epoll = [efd \<mapsto> wanted 0 (own_channel efd Activater_read), tfd \<mapsto> wanted 1 (own_channel tfd Timefd_read)],
       chans = [0 \<mapsto> own_channel efd Activater_read, 1 \<mapsto> own_channel tfd Timefd_read], next_addr = 2\<rparr>
      \<lparr>core = new_loop, ti_wheel = new_wheel now, timefd = adapter_init, called = []\<rparr>"
proof -
  have fds: "0 \<le> efd" "0 \<le> tfd" "epfd \<noteq> 0"
    using assms(1) unfolding new_event_loop_def new_poller_def new_activater_def new_timer_adapter_def get_channel_def new_channel_def
    by (auto simp: bind_res_Inr_iff assertm_def split: if_splits)
  have "settime_ok adapter_init" by (simp add: adapter_init_def settime_ok_def reset_timefd_def)
  then show ?thesis
    using assms fds by (simp add: new_event_loop_def new_poller_def new_activater_def new_timer_adapter_def
        op_defs set_rest_def own_channel_def new_reactor_def reactor.extend_def wanted_def bare_rest_def Let_def
        fun_upd_twist insert_commute numeral_2_eq_2 cong: if_cong)
qed

lemma built_inv:
  assumes "new_event_loop epfd efd tfd now = Inr st" and "efd \<noteq> tfd" and "now \<noteq> -1"
  shows "object_inv efd tfd st"
proof -
  note st = built_reactor [OF assms(1,2)]
  have "reactor_inv st"
    by (rule reactor_invI) (use st assms(2) in \<open>auto simp: reactor.extend_def live_fds_def channel_ok_def mirrors_def own_channel_def wanted_def split: if_splits\<close>)
  moreover have "flags_clear st" using st by (auto simp: flags_clear_def reactor.extend_def own_channel_def split: if_splits)
  moreover have "owns 0 efd Activater_read st" "owns 1 tfd Timefd_read st"
    using st by (auto simp: owns_def reactor.extend_def own_channel_def split: if_splits)
  moreover have "armed adapter_init" by (simp add: adapter_init_def armed_def reset_timefd_def)
  moreover have "wf_wheel (new_wheel now :: 'a wheel)" using wf_new_wheel [OF assms(3)] by blast
  moreover have "rest st = \<lparr>core = new_loop, ti_wheel = new_wheel now, timefd = adapter_init, called = []\<rparr>"
    by (subst st [THEN conjunct2, THEN conjunct2]) (simp add: reactor.extend_def)
  ultimately show ?thesis using loop_reach.fresh unfolding object_inv_def by simp
qed

section \<open>One turn\<close>

text \<open>What a turn leaves, seen from the object before it.\<close>

definition turn_done :: "int \<Rightarrow> u64 \<Rightarrow> readiness list \<Rightarrow> 'u event_loop \<Rightarrow> 'u event_loop \<Rightarrow> bool" where
  "turn_done tfd now ready st st' \<longleftrightarrow>
     (let m = rest st; m' = rest st'; expired = (\<exists>w. (tfd, True, w) \<in> set ready)
      in loop_step\<^sup>*\<^sup>* (core m) (core m') \<and> phase (core m') = (if is_loop (core m') then Waiting else Idle)
         \<and> (\<exists>us. served (core m') = served (core m) @ cb_list (core m) @ us
              \<and> called m' = called m @ user_calls (due now (ti_wheel m)) (ready_calls st ready) @ cb_list (core m) @ us)
         \<and> agenda (ti_wheel m') = (if expired then filter (\<lambda>d. slot_time now < fst d) (agenda (ti_wheel m)) else agenda (ti_wheel m))
         \<and> timefd m' = (if expired then expiry else timefd m) \<and> chans st' = chans st)"

lemma steps_reach: "loop_step\<^sup>*\<^sup>* lp lp' \<Longrightarrow> loop_reach lp \<Longrightarrow> loop_reach lp'"
  by (induction rule: rtranclp_induct) (auto intro: loop_reach.step)

lemma ready_calls_set_rest [simp]: "ready_calls (set_rest m st) ready = ready_calls st ready"
  by (simp add: ready_calls_def calls_at_def [abs_def] cong: option.case_cong)

lemma turn_effect:
  assumes obj: "object_inv efd tfd st" and wait: "phase (core (rest st)) = Waiting" and dist: "distinct (map fst ready)"
    and agrees: "eventfd_agrees efd ready (core (rest st))" and now: "now \<noteq> -1"
  shows "\<exists>st'. loop_turn (scripted acts) 8 now1 now ready st = Inr st' \<and> object_inv efd tfd st' \<and> turn_done tfd now ready st st'"
proof -
  note inv = object_invD [OF obj]
  let ?m = "rest st" and ?b = "0 < wake (core (rest st))" and ?cbs = "ready_calls st ready"
  let ?woken = "?m\<lparr>core := (core ?m)\<lparr>phase := Woken ?b\<rparr>\<rparr>" and ?call = "loop_call (scripted acts) 8 now1 now"
  let ?st = "set_rest ?woken st"
  let ?ep = "snd (epoll_wait (event_count ?st) ready (epoll ?st))"
  have expired: "Timefd_read \<in> set ?cbs \<longleftrightarrow> (\<exists>w. (tfd, True, w) \<in> set ready)" "count_list ?cbs Timefd_read \<le> 1"
    using ready_calls_own [OF inv(1,4) dist] count_list_0_iff [of ?cbs Timefd_read] by (auto split: if_splits)
  have woken: "loop_step (core ?m) (core ?woken)" by (rule loop_step.move) (simp_all add: wait loop_next_def)
  have "\<exists>m1. run_calls ?call ?cbs ?woken = Inr m1 \<and> after_calls now ?cbs ?woken m1"
    by (rule run_calls_steps [where b = ?b])
      (use ready_calls_own [OF inv(1,3) dist] agrees expired(2) inv(5) now in \<open>simp_all add: eventfd_agrees_def\<close>)
  then obtain m1 where m1: "run_calls ?call ?cbs ?woken = Inr m1" "after_calls now ?cbs ?woken m1" by blast
  then obtain us where us: "cb_list (core m1) = cb_list (core ?m) @ us" by (auto simp: after_calls_def)
  have "poll (inside ?call) ready ?st = Inr (set_rest m1 (?st\<lparr>epoll := ?ep\<rparr>))"
    using poll_inside [of ?st ready ?call, folded set_rest_def] inv(1,2) dist m1(1) by simp
  moreover let ?taken = "m1\<lparr>core := take_callbacks (core m1)\<rparr>"
  obtain lp where lp: "call_taken (scripted acts) (cb_list (core m1)) ?taken
        = Inr (?taken\<lparr>core := lp, called := called ?taken @ cb_list (core m1)\<rparr>)"
      "loop_step\<^sup>*\<^sup>* (take_callbacks (core m1)) lp" "served lp = served (core m1) @ cb_list (core m1)"
      "phase lp = (if is_loop lp then Waiting else Idle)"
    using call_taken_steps [of ?taken "cb_list (core m1)" acts] by (auto simp: take_callbacks_def)
  moreover let ?m2 = "m1\<lparr>core := lp, called := called m1 @ cb_list (core m1)\<rparr>"
  let ?st' = "set_rest ?m2 (?st\<lparr>epoll := ?ep\<rparr>)"
  have taken: "loop_step (core m1) (take_callbacks (core m1))"
    using m1(2) by (intro loop_step.move) (simp_all add: after_calls_def loop_next_def)
  ultimately have turn: "loop_turn (scripted acts) 8 now1 now ready st = Inr ?st'"
    by (simp add: loop_turn_def Let_def)
  have steps: "loop_step\<^sup>*\<^sup>* (core ?m) lp"
  proof -
    have "loop_step\<^sup>*\<^sup>* (core ?woken) (core m1)" using m1(2) by (simp add: after_calls_def)
    then have "loop_step\<^sup>*\<^sup>* (core ?m) (core m1)"
      by (rule converse_rtranclp_into_rtranclp [where r = loop_step, OF woken])
    moreover have "loop_step\<^sup>*\<^sup>* (core m1) lp"
      by (rule converse_rtranclp_into_rtranclp [where r = loop_step, OF taken lp(2)])
    ultimately show ?thesis by (rule rtranclp_trans)
  qed
  have "reactor_inv (?st\<lparr>epoll := ?ep\<rparr>)" using inv(1) by (intro inv_wait epoll_wait_disarms) simp
  moreover have "flags_clear (?st\<lparr>epoll := ?ep\<rparr>)" using inv(2) by (simp add: flags_clear_def)
  ultimately have "object_inv efd tfd ?st'"
    using inv(3,4,6,7) m1(2) steps_reach [OF steps]
    by (simp add: object_inv_def after_calls_def) (simp add: expiry_def armed_def)
  moreover have "turn_done tfd now ready st ?st'"
    using steps lp(3,4) us m1(2) by (simp add: turn_done_def Let_def after_calls_def expired(1))
  ultimately show ?thesis using turn by blast
qed

lemma object_reach_inv: "object_reach acts efd tfd st \<Longrightarrow> object_inv efd tfd st"
proof (induction rule: object_reach.induct)
  case (built now epfd st)
  then show ?case using built_inv by blast
next
  case (channel st op st')
  then show ?case using object_inv_op by blast
next
  case (entered st lp)
  then show ?case
    by (intro object_inv_rest [OF entered.IH]) (use object_invD [OF entered.IH] loop_reach.step loop_step.enter entered.hyps in auto)
next
  case (acted st a)
  have "loop_reach (do_act a (core (rest st)))"
    using steps_reach [of "core (rest st)" "do_act a (core (rest st))"] pokes_act [of "core (rest st)" a] object_invD(6) [OF acted.IH]
    by (simp add: pokes_def)
  then show ?case by (intro object_inv_rest [OF acted.IH]) (use object_invD [OF acted.IH] in simp_all)
next
  case (added st now ti now1 now2 i w)
  then have "wf_wheel w" using add_timer_wf [OF object_invD(5) [OF added.IH], of now ti now1 now2] by auto
  then show ?case by (intro object_inv_rest [OF added.IH]) (use object_invD [OF added.IH] in simp_all)
next
  case (removed st i w)
  then have "wf_wheel w" using remove_timer_wf object_invD(5) by blast
  then show ?case by (intro object_inv_rest [OF removed.IH]) (use object_invD [OF removed.IH] in simp_all)
next
  case (turned st ready now now1 st')
  then show ?case using turn_effect [of efd tfd st ready now acts now1] by auto
qed

section \<open>Properties\<close>

text \<open>
  C15: The event loop object refines the loop of the threads, and one turn of it does all its work,
  for callbacks of users that post callbacks and stop the loop, and otherwise leave it alone (they
  change no channel and no timer, and do not throw). Take an object built by its constructor, after any operations of users on their own
  channels, timers added and removed, callbacks posted, stops and turns. The flag, list and
  eventfd of the object are then a state the interleaving of \<open>EventLoop\<close> can reach. A turn
  in which epoll reports distinct descriptors, and the eventfd exactly when it is readable,
  never throws: it is a sequence of steps of that interleaving, which ends at \<open>epoll_wait\<close> again
  or, after a stop, outside \<open>run\<close>. It calls, in this order, the callbacks of the ready channels with
  those of the due timers at the place of the timer descriptor, then the callbacks that were in
  the list, then those posted to it while the channels were served; each once. If the timer
  descriptor expired, the due timers and no others leave the wheel and the descriptor is armed
  for 10 ms.
\<close>

theorem loop_object_turn:
  assumes "object_reach acts efd tfd st" and "phase (core (rest st)) = Waiting" and "distinct (map fst ready)"
    and "eventfd_agrees efd ready (core (rest st))" and "now \<noteq> -1"
  defines "m \<equiv> rest st" and "expired \<equiv> \<exists>w. (tfd, True, w) \<in> set ready"
  shows "loop_reach (core m) \<and> (\<exists>st' us. let m' = rest st' in
      loop_turn (scripted acts) 8 now1 now ready st = Inr st' \<and> object_reach acts efd tfd st'
    \<and> loop_step\<^sup>*\<^sup>* (core m) (core m') \<and> phase (core m') = (if is_loop (core m') then Waiting else Idle)
    \<and> served (core m') = served (core m) @ cb_list (core m) @ us
    \<and> called m' = called m @ user_calls (due now (ti_wheel m)) (ready_calls st ready) @ cb_list (core m) @ us
    \<and> agenda (ti_wheel m') = (if expired then filter (\<lambda>d. slot_time now < fst d) (agenda (ti_wheel m)) else agenda (ti_wheel m))
    \<and> timefd m' = (if expired then \<lparr>tv_sec = 0, tv_nsec = 10000000\<rparr> else timefd m) \<and> chans st' = chans st)"
proof
  note obj = object_reach_inv [OF assms(1)]
  show "loop_reach (core m)" unfolding m_def by (rule object_invD(6) [OF obj])
  obtain st' where turn: "loop_turn (scripted acts) 8 now1 now ready st = Inr st'" "turn_done tfd now ready st st'"
    using turn_effect [OF obj assms(2-5)] by blast
  moreover have "object_reach acts efd tfd st'" by (rule object_reach.turned [OF assms(1-5) turn(1)])
  ultimately show "\<exists>st' us. let m' = rest st' in
      loop_turn (scripted acts) 8 now1 now ready st = Inr st' \<and> object_reach acts efd tfd st'
    \<and> loop_step\<^sup>*\<^sup>* (core m) (core m') \<and> phase (core m') = (if is_loop (core m') then Waiting else Idle)
    \<and> served (core m') = served (core m) @ cb_list (core m) @ us
    \<and> called m' = called m @ user_calls (due now (ti_wheel m)) (ready_calls st ready) @ cb_list (core m) @ us
    \<and> agenda (ti_wheel m') = (if expired then filter (\<lambda>d. slot_time now < fst d) (agenda (ti_wheel m)) else agenda (ti_wheel m))
    \<and> timefd m' = (if expired then \<lparr>tv_sec = 0, tv_nsec = 10000000\<rparr> else timefd m) \<and> chans st' = chans st"
    unfolding turn_done_def Let_def m_def expired_def expiry_def by blast
qed

text \<open>A loop with the descriptors 4 and 5, one callback posted, in \<open>run\<close>.\<close>

definition posted_object :: "string event_loop res" where
  "posted_object =
     bind_res (new_event_loop 3 4 5 1000) (\<lambda>st.
     bind_res (run_begin (do_act (Post ''b'') (core (rest st)))) (\<lambda>lp. Inr (set_rest ((rest st)\<lparr>core := lp\<rparr>) st)))"

lemma posted_object_reach:
  "\<exists>st. posted_object = Inr st \<and> object_reach (\<lambda>_. []) 4 5 st
    \<and> core (rest st) = new_loop\<lparr>is_loop := True, cb_list := [''b''], wake := 1, phase := Waiting, posted := [''b'']\<rparr>"
proof -
  let ?lp = "new_loop\<lparr>is_loop := True, cb_list := [''b''], wake := 1, phase := Waiting, posted := [''b'']\<rparr>"
  obtain st :: "string event_loop" where st: "new_event_loop 3 4 5 1000 = Inr st"
    by (simp add: new_event_loop_def new_poller_def new_activater_def new_timer_adapter_def op_defs new_reactor_def
        reactor.extend_def set_rest_def adapter_init_def settime_ok_def reset_timefd_def bare_rest_def Let_def)
  have core: "core (rest st) = new_loop" by (subst built_reactor [OF st, THEN conjunct2, THEN conjunct2]) (simp_all add: reactor.extend_def)
  let ?st1 = "set_rest ((rest st)\<lparr>core := do_act (Post ''b'') (core (rest st))\<rparr>) st"
  have "object_reach (\<lambda>_. []) 4 5 st" by (rule object_reach.built [OF _ _ st]) simp_all
  then have posted: "object_reach (\<lambda>_. []) 4 5 ?st1" by (rule object_reach.acted)
  have idle: "phase (core (rest ?st1)) = Idle" and begin_run: "run_begin (core (rest ?st1)) = Inr ?lp"
    by (simp_all add: core run_begin_def add_callback_after_def activate_def new_loop_def)
  let ?st2 = "set_rest ((rest ?st1)\<lparr>core := ?lp\<rparr>) ?st1"
  have "object_reach (\<lambda>_. []) 4 5 ?st2" by (rule object_reach.entered [OF posted idle begin_run])
  moreover have "posted_object = Inr ?st2" using begin_run by (simp add: posted_object_def st)
  moreover have "core (rest ?st2) = ?lp" by simp
  ultimately show ?thesis by blast
qed

theorem loop_object_turn_witness:
  "\<exists>st st' us. posted_object = Inr st
    \<and> loop_turn (scripted (\<lambda>_. [])) 8 0 1005 [(4, True, False), (5, True, False)] st = Inr st'
    \<and> served (core (rest st')) = ''b'' # us \<and> timefd (rest st') = \<lparr>tv_sec = 0, tv_nsec = 10000000\<rparr>"
proof -
  let ?ready = "[(4 :: int, True, False), (5, True, False)]"
  obtain st where st: "posted_object = Inr st" "object_reach (\<lambda>_. []) 4 5 st"
      "core (rest st) = new_loop\<lparr>is_loop := True, cb_list := [''b''], wake := 1, phase := Waiting, posted := [''b'']\<rparr>"
    using posted_object_reach by blast
  have "phase (core (rest st)) = Waiting" "distinct (map fst ?ready)" "eventfd_agrees 4 ?ready (core (rest st))"
      "(1005 :: u64) \<noteq> -1" by (simp_all add: st(3) eventfd_agrees_def ex_bool_eq)
  from loop_object_turn [OF st(2) this, of 0] obtain st' us where
      "loop_turn (scripted (\<lambda>_. [])) 8 0 1005 ?ready st = Inr st'"
      "served (core (rest st')) = served (core (rest st)) @ cb_list (core (rest st)) @ us"
      "timefd (rest st') = \<lparr>tv_sec = 0, tv_nsec = 10000000\<rparr>"
    by (auto simp: Let_def ex_bool_eq)
  then show ?thesis using st(1,3) by (auto simp: new_loop_def)
qed

section \<open>Destruction\<close>

text \<open>
  The destructor of a loop stops it and takes its two descriptors out of the poller before the
  poller goes; it never throws, and it leaves the users' channels as they are.
\<close>

theorem loop_object_destroyed:
  assumes "object_reach acts efd tfd st"
  shows "\<exists>st'. delete_event_loop st = Inr st' \<and> \<not> is_loop (core (rest st')) \<and> chans st' = (chans st)(0 := None, 1 := None)
    \<and> epoll st' efd = None \<and> epoll st' tfd = None"
proof -
  note inv = object_invD [OF object_reach_inv [OF assms]]
  let ?st = "set_rest ((rest st)\<lparr>core := stop_wake (stop_flag (core (rest st)))\<rparr>) st"
  have own: "chans ?st 0 = Some (own_channel efd Activater_read)" "chans ?st 1 = Some (own_channel tfd Timefd_read)"
    using inv(3,4) by (simp_all add: owns_def)
  obtain st1 where st1: "destroy_channel 1 ?st = Inr st1" "reactor_inv st1"
    using destroy_live [of ?st 1] own(2) inv(1) by (auto simp: do_op_def)
  have chans1: "chans st1 = (chans st)(1 := None)" "rest st1 = rest ?st" "epoll st1 tfd = None"
    using st1(1) own(2) by (auto simp: op_defs bind_res_Inr_iff Let_def own_channel_def split: if_splits)
  then have own1: "chans st1 0 = Some (own_channel efd Activater_read)" using own(1) by simp
  obtain st2 where st2: "destroy_channel 0 st1 = Inr st2"
    using destroy_live [of st1 0] own1 st1(2) by (auto simp: do_op_def)
  have "chans st2 = (chans st1)(0 := None)" "rest st2 = rest st1" "epoll st2 efd = None" "epoll st2 tfd = None"
    using st2 own1 chans1(3) by (auto simp: op_defs bind_res_Inr_iff Let_def own_channel_def split: if_splits)
  then show ?thesis
    using st1(1) st2 chans1 by (simp add: delete_event_loop_def stop_wake_def stop_flag_def activate_def fun_upd_twist)
qed

end
