(* ===== verification/LoopPools.thy ===== *)
theory LoopPools
  imports EventLoop
begin

text \<open>
  What stands above one loop: the pool of loops and its threads (\<open>EventloopPool\<close>,
  src/src/reactor/EventLoopPool.cpp), and the attempts of the client to connect
  (\<open>TCPConnector\<close>, src/src/tcp/TCPConnector.cpp). A loop is that of \<open>EventLoop\<close>; a thread is its
  loop and how far it has come: \<open>start\<close> only makes the threads, each enters the \<open>run\<close> of its
  loop at a time of its own. Sockets and addresses are left out.
\<close>

section \<open>The pool of loops\<close>

text \<open>
  A thread of \<open>thread_list\<close>: not joinable (never started, or joined); made, and not yet in
  \<open>run\<close>; one that has entered \<open>run\<close>, and may have left it.
\<close>

datatype thread_state = No_thread | Starting | Entered

record 'cb loop_pool =
  n_thread :: nat
  next_i :: nat
  loop_list :: "'cb loop list"
  thread_list :: "thread_state list"

definition new_loop_pool :: "nat \<Rightarrow> 'cb loop_pool" where
  "new_loop_pool n = \<lparr>n_thread = n, next_i = 0, loop_list = replicate n new_loop, thread_list = replicate n No_thread\<rparr>"

text \<open>\<open>getLoop\<close>, as the index of the loop; a pool without threads divides by zero.\<close>

definition get_loop :: "'cb loop_pool \<Rightarrow> nat option \<times> 'cb loop_pool" where
  "get_loop p = (if n_thread p = 0 then None else Some ((next_i p + 1) mod n_thread p), p)"

primrec get_loops :: "nat \<Rightarrow> 'cb loop_pool \<Rightarrow> nat option list \<times> 'cb loop_pool" where
  "get_loops 0 p = ([], p)"
| "get_loops (Suc k) p = (let (i, p1) = get_loop p; (is, p2) = get_loops k p1 in (i # is, p2))"

text \<open>\<open>start\<close>: an assignment over a joinable \<open>std::thread\<close> ends the process.\<close>

fun start_threads :: "thread_state list \<Rightarrow> thread_state list res" where
  "start_threads [] = Inr []"
| "start_threads (t # ts) =
     (if t = No_thread then bind_res (start_threads ts) (\<lambda>ts'. Inr (Starting # ts')) else Inl Terminate)"

definition pool_start :: "'cb loop_pool \<Rightarrow> 'cb loop_pool res" where
  "pool_start p = bind_res (start_threads (thread_list p)) (\<lambda>ts. Inr (p\<lparr>thread_list := ts\<rparr>))"

text \<open>
  What happens while the pool runs: a thread that was made enters \<open>run\<close>; or its thread moves on
  within \<open>run\<close>, or another thread posts to a loop, or does one of the statements of \<open>stop\<close> on it.
\<close>

inductive pool_step :: "'cb loop_pool \<Rightarrow> 'cb loop_pool \<Rightarrow> bool" where
  enters: "i < length (loop_list p) \<Longrightarrow> thread_list p ! i = Starting \<Longrightarrow> run_begin (loop_list p ! i) = Inr lp \<Longrightarrow>
     pool_step p (p\<lparr>loop_list := (loop_list p)[i := lp], thread_list := (thread_list p)[i := Entered]\<rparr>)"
| within: "i < length (loop_list p) \<Longrightarrow> loop_step (loop_list p ! i) lp \<Longrightarrow>
     phase (loop_list p ! i) = Idle \<longrightarrow> phase lp = Idle \<Longrightarrow>
     pool_step p (p\<lparr>loop_list := (loop_list p)[i := lp]\<rparr>)"

definition stop_loop :: "'cb loop \<Rightarrow> 'cb loop" where
  "stop_loop lp = stop_wake (stop_flag lp)"

definition pool_stop :: "'cb loop_pool \<Rightarrow> 'cb loop_pool" where
  "pool_stop p = p\<lparr>loop_list := map stop_loop (loop_list p)\<rparr>"

text \<open>
  \<open>wait_stop\<close> joins the joinable threads one after the other. A thread that is joined makes the
  moves it needs to leave \<open>run\<close>, entering it first if it has not; \<open>n\<close> bounds the moves of each
  within \<open>run\<close>. \<open>None\<close>: some thread has not left \<open>run\<close> by then.
\<close>

definition leave_run :: "nat \<Rightarrow> 'cb loop \<Rightarrow> 'cb loop res option" where
  "leave_run n lp =
     (case loop_moves n lp of
        Inl e \<Rightarrow> Some (Inl e)
      | Inr lp' \<Rightarrow> if phase lp' = Idle then Some (Inr lp') else None)"

definition join_thread :: "nat \<Rightarrow> thread_state \<Rightarrow> 'cb loop \<Rightarrow> 'cb loop res option" where
  "join_thread n t lp =
     (case t of
        No_thread \<Rightarrow> Some (Inr lp)
      | Starting \<Rightarrow> (case run_begin lp of Inl e \<Rightarrow> Some (Inl e) | Inr lp' \<Rightarrow> leave_run n lp')
      | Entered \<Rightarrow> leave_run n lp)"

fun join_threads :: "nat \<Rightarrow> (thread_state \<times> 'cb loop) list \<Rightarrow> 'cb loop list res option" where
  "join_threads n [] = Some (Inr [])"
| "join_threads n ((t, lp) # rest) =
     (case join_thread n t lp of
        None \<Rightarrow> None
      | Some (Inl e) \<Rightarrow> Some (Inl e)
      | Some (Inr lp') \<Rightarrow> map_option (\<lambda>r. bind_res r (\<lambda>lps. Inr (lp' # lps))) (join_threads n rest))"

definition wait_stop :: "nat \<Rightarrow> 'cb loop_pool \<Rightarrow> 'cb loop_pool res option" where
  "wait_stop n p = map_option (\<lambda>r. bind_res r (\<lambda>lps.
       Inr (p\<lparr>loop_list := lps, thread_list := map (\<lambda>_. No_thread) (thread_list p)\<rparr>)))
     (join_threads n (zip (thread_list p) (loop_list p)))"

text \<open>The destructor.\<close>

definition delete_pool :: "nat \<Rightarrow> 'cb loop_pool \<Rightarrow> 'cb loop_pool res option" where
  "delete_pool n p = wait_stop n (pool_stop p)"

text \<open>The index is never written back, so every call gives the same loop.\<close>

lemma get_loops_same:
  "0 < n_thread p \<Longrightarrow> get_loops k p = (replicate k (Some ((next_i p + 1) mod n_thread p)), p)"
  by (induction k) (simp_all add: get_loop_def)

section \<open>The invariant of the pool\<close>

text \<open>A loop is in \<open>run\<close> only with its thread, and its flag is up only while it is.\<close>

definition thread_ok :: "thread_state \<Rightarrow> 'cb loop \<Rightarrow> bool" where
  "thread_ok t lp \<longleftrightarrow> (t \<noteq> Entered \<longrightarrow> phase lp = Idle) \<and> (phase lp = Idle \<longrightarrow> \<not> is_loop lp)"

definition threads_inv :: "'cb loop_pool \<Rightarrow> bool" where
  "threads_inv p \<longleftrightarrow> length (thread_list p) = length (loop_list p)
     \<and> (\<forall>i < length (loop_list p). loop_reach (loop_list p ! i) \<and> thread_ok (thread_list p ! i) (loop_list p ! i))"

lemma new_loop_idle: "phase new_loop = Idle \<and> \<not> is_loop new_loop"
  by (simp add: new_loop_def)

lemma threads_inv_new: "threads_inv (new_loop_pool n)"
  by (simp add: threads_inv_def new_loop_pool_def thread_ok_def new_loop_idle loop_reach.fresh)

lemma step_within:
  assumes "loop_step lp lp'" and "phase lp = Idle \<longrightarrow> phase lp' = Idle" and "thread_ok t lp"
  shows "thread_ok t lp'"
  using assms(1)
proof cases
  case enter
  then show ?thesis using assms(2) by (auto simp: run_begin_def bind_res_Inr_iff)
next
  case move
  then show ?thesis using assms(3)
    by (auto simp: thread_ok_def loop_next_def activater_read_def take_callbacks_def bind_res_Inr_iff
        split: phase.splits list.splits if_splits)
qed (use assms(3) in \<open>auto simp: thread_ok_def add_callback_after_def stop_flag_def stop_wake_def activate_def\<close>)

lemma pool_step_inv: "pool_step p p' \<Longrightarrow> threads_inv p \<Longrightarrow> threads_inv p'"
proof (induction rule: pool_step.induct)
  case (enters i p lp)
  have at: "loop_reach (loop_list p ! i)" "phase (loop_list p ! i) = Idle"
    using enters by (simp_all add: threads_inv_def thread_ok_def)
  have "loop_reach lp" by (rule loop_reach.step [OF at(1) loop_step.enter [OF at(2) enters(3)]])
  moreover have "phase lp = Waiting" using enters(3) by (auto simp: run_begin_def bind_res_Inr_iff)
  ultimately show ?case using enters by (simp add: threads_inv_def thread_ok_def nth_list_update)
next
  case (within i p lp)
  have at: "loop_reach (loop_list p ! i)" "thread_ok (thread_list p ! i) (loop_list p ! i)"
    using within by (simp_all add: threads_inv_def)
  show ?case using loop_reach.step [OF at(1) within(2)] step_within [OF within(2,3) at(2)] within(1,4)
    by (auto simp: threads_inv_def nth_list_update)
qed

lemma pool_steps_inv: "pool_step\<^sup>*\<^sup>* p p' \<Longrightarrow> threads_inv p \<Longrightarrow> threads_inv p'"
  by (induction rule: rtranclp_induct) (simp_all add: pool_step_inv)

lemma pool_step_threads: "pool_step p p' \<Longrightarrow> length (loop_list p') = length (loop_list p)"
  by (induction rule: pool_step.induct) simp_all

lemma pool_steps_threads: "pool_step\<^sup>*\<^sup>* p p' \<Longrightarrow> length (loop_list p') = length (loop_list p)"
  by (induction rule: rtranclp_induct) (simp_all add: pool_step_threads)

text \<open>No thread is taken away before it is joined.\<close>

lemma pool_step_made: "pool_step p p' \<Longrightarrow> No_thread \<notin> set (thread_list p) \<Longrightarrow> No_thread \<notin> set (thread_list p')"
  by (induction rule: pool_step.induct) (auto dest!: subsetD [OF set_update_subset_insert])

lemma pool_steps_made: "pool_step\<^sup>*\<^sup>* p p' \<Longrightarrow> No_thread \<notin> set (thread_list p) \<Longrightarrow> No_thread \<notin> set (thread_list p')"
  by (induction rule: rtranclp_induct) (simp_all add: pool_step_made)

text \<open>From any point, the threads that were made can all enter \<open>run\<close>.\<close>

lemma threads_enter:
  "threads_inv p \<Longrightarrow> \<exists>q. pool_step\<^sup>*\<^sup>* p q \<and> Starting \<notin> set (thread_list q)"
proof (induction "length (filter (\<lambda>t. t = Starting) (thread_list p))" arbitrary: p rule: less_induct)
  case less
  show ?case
  proof (cases "Starting \<in> set (thread_list p)")
    case True
    then obtain i where i: "i < length (loop_list p)" "thread_list p ! i = Starting"
      using less.prems by (auto simp: in_set_conv_nth threads_inv_def)
    then have "\<not> is_loop (loop_list p ! i)" using less.prems by (simp add: threads_inv_def thread_ok_def)
    then obtain lp where lp: "run_begin (loop_list p ! i) = Inr lp" by (simp add: run_begin_def)
    let ?p = "p\<lparr>loop_list := (loop_list p)[i := lp], thread_list := (thread_list p)[i := Entered]\<rparr>"
    have step: "pool_step p ?p" by (rule pool_step.enters [OF i lp])
    have at: "thread_list p = take i (thread_list p) @ Starting # drop (Suc i) (thread_list p)"
      using i less.prems id_take_nth_drop [of i "thread_list p"] by (simp add: threads_inv_def)
    have "length (filter (\<lambda>t. t = Starting) (thread_list ?p)) < length (filter (\<lambda>t. t = Starting) (thread_list p))"
      using i less.prems by (subst (2) at) (simp add: upd_conv_take_nth_drop threads_inv_def)
    from less.hyps [OF this pool_step_inv [OF step less.prems]] obtain q
      where q: "pool_step\<^sup>*\<^sup>* ?p q" "Starting \<notin> set (thread_list q)" by blast
    have "pool_step\<^sup>*\<^sup>* p q" by (rule converse_rtranclp_into_rtranclp [where b = ?p]) (rule step, rule q(1))
    then show ?thesis using q(2) by blast
  qed blast
qed

lemma start_threads_new: "start_threads (replicate n No_thread) = Inr (replicate n Starting)"
  by (induction n) simp_all

lemma stop_loop_simps [simp]:
  "is_loop (stop_loop lp) = False" "phase (stop_loop lp) = phase lp" "cb_list (stop_loop lp) = cb_list lp"
  "posted (stop_loop lp) = posted lp"
  by (simp_all add: stop_loop_def stop_wake_def stop_flag_def activate_def)

lemma reach_stop_loop:
  assumes "loop_reach lp"
  shows "loop_reach (stop_loop lp)"
proof -
  have "loop_reach (stop_flag lp)" by (rule loop_reach.step [OF assms loop_step.flag])
  moreover have "0 < halting (stop_flag lp)" by (simp add: stop_flag_def)
  ultimately show ?thesis
    unfolding stop_loop_def using loop_reach.step loop_step.wakeup by blast
qed

lemma pool_stop_inv: "threads_inv p \<Longrightarrow> threads_inv (pool_stop p)"
  by (simp add: threads_inv_def pool_stop_def reach_stop_loop thread_ok_def)

section \<open>Joining\<close>

text \<open>
  A thread whose loop was stopped leaves \<open>run\<close> after at most five moves more than it has callbacks
  to call; what it called before, with what is still in its list, is what was posted to it.
\<close>

lemma moves_idle: "phase lp = Idle \<Longrightarrow> loop_moves n lp = Inr lp"
  by (induction n) (simp_all add: loop_next_def)

lemma moves_defined: "loop_inv lp \<Longrightarrow> \<exists>lp'. loop_moves n lp = Inr lp'"
proof (induction n arbitrary: lp)
  case (Suc n)
  then show ?case using loop_next_inv [OF Suc.prems] by auto
qed simp

lemma moves_leave:
  assumes "loop_inv lp" and "\<not> is_loop lp" and "length (in_hand (phase lp)) + length (cb_list lp) + 5 \<le> n"
  shows "\<exists>lp'. loop_moves n lp = Inr lp' \<and> phase lp' = Idle \<and> served lp' @ cb_list lp' = posted lp"
proof (cases "phase lp = Idle")
  case True
  then show ?thesis using assms(1) by (simp add: moves_idle loop_inv_def)
next
  case False
  then obtain k lp' where k: "k \<le> length (in_hand (phase lp)) + length (cb_list lp) + 5" "loop_moves k lp = Inr lp'"
      "served lp' @ cb_list lp' = posted lp" "phase lp' = (if is_loop lp then Waiting else Idle)"
    by (rule moves_round [OF assms(1)])
  then have "loop_moves (k + (n - k)) lp = Inr lp'" using assms(2) by (simp add: loop_moves_add moves_idle)
  then show ?thesis using k assms(2,3) by simp
qed

text \<open>
  A thread that has not entered \<open>run\<close>, or whose loop was not stopped, is never joined: entering,
  it sets the flag again.
\<close>

definition stays :: "thread_state \<Rightarrow> 'cb loop \<Rightarrow> bool" where
  "stays t lp \<longleftrightarrow> t = Starting \<or> t = Entered \<and> is_loop lp"

definition left_run :: "thread_state \<times> 'cb loop \<Rightarrow> 'cb loop \<Rightarrow> bool" where
  "left_run th lp' \<longleftrightarrow> phase lp' = Idle \<and> served lp' @ cb_list lp' = posted (snd th)"

lemma leave_never:
  assumes "loop_inv lp" and "is_loop lp" and "phase lp \<noteq> Idle"
  shows "leave_run n lp = None"
proof -
  obtain lp' where lp': "loop_moves n lp = Inr lp'" using moves_defined [OF assms(1)] by blast
  then show ?thesis using moves_stay [OF assms(2,3) lp'] by (simp add: leave_run_def)
qed

lemma leave_defined: "loop_inv lp \<Longrightarrow> leave_run n lp = None \<or> (\<exists>lp'. leave_run n lp = Some (Inr lp'))"
  using moves_defined [of lp n] by (auto simp: leave_run_def)

lemma begin_reach:
  assumes "loop_reach lp" and "phase lp = Idle" and "\<not> is_loop lp"
  obtains lp' where "run_begin lp = Inr lp'" and "loop_reach lp'" and "is_loop lp'" and "phase lp' \<noteq> Idle"
proof -
  have "run_begin lp = Inr (lp\<lparr>is_loop := True, phase := Waiting\<rparr>)" using assms(3) by (simp add: run_begin_def)
  then show ?thesis using that loop_reach.step [OF assms(1) loop_step.enter [OF assms(2)]] by fastforce
qed

lemma join_cases:
  assumes reach: "loop_reach lp" and ok: "thread_ok t lp"
  shows "stays t lp \<Longrightarrow> join_thread n t lp = None"
    and "join_thread n t lp = None \<or> (\<exists>lp'. join_thread n t lp = Some (Inr lp'))"
proof -
  have inv: "loop_inv lp" by (rule loop_reach_inv [OF reach])
  have starting: "join_thread n Starting lp = None" if t: "t = Starting"
  proof -
    have "phase lp = Idle" "\<not> is_loop lp" using ok t by (simp_all add: thread_ok_def)
    then obtain lp' where lp': "run_begin lp = Inr lp'" "loop_reach lp'" "is_loop lp'" "phase lp' \<noteq> Idle"
      by (rule begin_reach [OF reach])
    then show ?thesis using leave_never [OF loop_reach_inv] by (simp add: join_thread_def)
  qed
  show "stays t lp \<Longrightarrow> join_thread n t lp = None"
    using starting leave_never [OF inv] ok by (auto simp: stays_def join_thread_def thread_ok_def)
  show "join_thread n t lp = None \<or> (\<exists>lp'. join_thread n t lp = Some (Inr lp'))"
    using starting leave_defined [OF inv] by (cases t) (simp_all add: join_thread_def)
qed

lemma join_threads_stay:
  "\<forall>(t, lp) \<in> set tls. loop_reach lp \<and> thread_ok t lp \<Longrightarrow> \<exists>(t, lp) \<in> set tls. stays t lp \<Longrightarrow> join_threads n tls = None"
proof (induction tls)
  case (Cons th tls)
  obtain t lp where th: "th = (t, lp)" by (cases th)
  then have "loop_reach lp" "thread_ok t lp" using Cons.prems(1) by auto
  note j = join_cases [OF this, of n]
  show ?case using j Cons th by (cases "stays t lp") (auto split: option.split sum.split)
qed simp

lemma join_threads_leave:
  assumes "\<forall>(t, lp) \<in> set tls. loop_reach lp \<and> thread_ok t lp \<and> \<not> stays t lp
    \<and> length (in_hand (phase lp)) + length (cb_list lp) + 5 \<le> n"
  shows "\<exists>lps. join_threads n tls = Some (Inr lps) \<and> list_all2 left_run tls lps"
  using assms
proof (induction tls)
  case (Cons th tls)
  obtain t lp where th: "th = (t, lp)" by (cases th)
  then have lp: "loop_inv lp" "thread_ok t lp" "\<not> stays t lp" "length (in_hand (phase lp)) + length (cb_list lp) + 5 \<le> n"
    using Cons.prems loop_reach_inv by auto
  have "\<exists>lp'. join_thread n t lp = Some (Inr lp') \<and> left_run (t, lp) lp'"
  proof (cases t)
    case No_thread
    then show ?thesis using lp(1,2) by (simp add: join_thread_def left_run_def thread_ok_def loop_inv_def)
  next
    case Starting
    then show ?thesis using lp(3) by (simp add: stays_def)
  next
    case Entered
    then show ?thesis using lp(3) moves_leave [OF lp(1) _ lp(4)]
      by (auto simp: join_thread_def leave_run_def left_run_def stays_def)
  qed
  then show ?case using Cons th by auto
qed simp

text \<open>What \<open>wait_stop\<close> does from any state of a pool that runs.\<close>

definition pool_stays :: "'cb loop_pool \<Rightarrow> bool" where
  "pool_stays p \<longleftrightarrow> (\<exists>i < length (loop_list p). stays (thread_list p ! i) (loop_list p ! i))"

definition moves_needed :: "'cb loop_pool \<Rightarrow> nat" where
  "moves_needed p = (\<Sum>lp \<leftarrow> loop_list p. length (in_hand (phase lp)) + length (cb_list lp) + 5)"

lemma wait_stop_stays:
  assumes "threads_inv p" and "pool_stays p"
  shows "wait_stop n p = None"
proof -
  let ?tls = "zip (thread_list p) (loop_list p)"
  have "\<forall>(t, lp) \<in> set ?tls. loop_reach lp \<and> thread_ok t lp" using assms(1) by (auto simp: threads_inv_def set_zip)
  moreover have "\<exists>(t, lp) \<in> set ?tls. stays t lp" using assms by (auto simp: threads_inv_def pool_stays_def set_zip)
  ultimately have "join_threads n ?tls = None" by (rule join_threads_stay)
  then show ?thesis by (simp add: wait_stop_def)
qed

lemma wait_stop_leaves:
  assumes inv: "threads_inv p" and gone: "\<not> pool_stays p" and n: "moves_needed p \<le> n"
  obtains q where "wait_stop n p = Some (Inr q)" and "length (loop_list q) = length (loop_list p)"
    and "\<forall>i < length (loop_list p). thread_list q ! i = No_thread \<and> left_run (thread_list p ! i, loop_list p ! i) (loop_list q ! i)"
proof -
  let ?tls = "zip (thread_list p) (loop_list p)"
  have len: "length (thread_list p) = length (loop_list p)" using inv by (simp add: threads_inv_def)
  have "length (in_hand (phase lp)) + length (cb_list lp) + 5 \<le> n" if "lp \<in> set (loop_list p)" for lp
    using member_le_sum_list [of "length (in_hand (phase lp)) + length (cb_list lp) + 5"
        "map (\<lambda>lp. length (in_hand (phase lp)) + length (cb_list lp) + 5) (loop_list p)"] that n
    by (fastforce simp: moves_needed_def)
  then have "\<forall>(t, lp) \<in> set ?tls. loop_reach lp \<and> thread_ok t lp \<and> \<not> stays t lp
      \<and> length (in_hand (phase lp)) + length (cb_list lp) + 5 \<le> n"
    using inv gone by (auto simp: threads_inv_def pool_stays_def set_zip)
  from join_threads_leave [OF this] obtain lps where lps: "join_threads n ?tls = Some (Inr lps)" "list_all2 left_run ?tls lps"
    by blast
  show ?thesis
    by (rule that [of "p\<lparr>loop_list := lps, thread_list := map (\<lambda>_. No_thread) (thread_list p)\<rparr>"])
      (use lps len in \<open>auto simp: wait_stop_def list_all2_conv_all_nth\<close>)
qed

lemma pool_stays_stopped: "threads_inv p \<Longrightarrow> pool_stays (pool_stop p) \<longleftrightarrow> Starting \<in> set (thread_list p)"
  by (auto simp: pool_stays_def pool_stop_def stays_def in_set_conv_nth threads_inv_def)

lemma moves_needed_stopped [simp]: "moves_needed (pool_stop p) = moves_needed p"
  by (simp add: moves_needed_def pool_stop_def comp_def)

text \<open>
  The destructor of a pool, whatever its threads are doing when it is called: it returns when
  every thread that was made has entered its \<open>run\<close> by then, and every thread has then left it,
  what it called and what it left in its list being what was posted to it, in order; when
  some thread has not entered, it never returns.
\<close>

theorem pool_destroyed:
  assumes "threads_inv p"
  shows "if Starting \<in> set (thread_list p) then \<forall>n. delete_pool n p = None
    else \<forall>n \<ge> moves_needed p. \<exists>q. delete_pool n p = Some (Inr q) \<and> length (loop_list q) = length (loop_list p)
      \<and> (\<forall>i < length (loop_list p). thread_list q ! i = No_thread \<and> phase (loop_list q ! i) = Idle
          \<and> served (loop_list q ! i) @ cb_list (loop_list q ! i) = posted (loop_list p ! i))"
proof (cases "Starting \<in> set (thread_list p)")
  case True
  then show ?thesis using wait_stop_stays [OF pool_stop_inv [OF assms]] pool_stays_stopped [OF assms]
    by (simp add: delete_pool_def)
next
  case False
  have "\<exists>q. delete_pool n p = Some (Inr q) \<and> length (loop_list q) = length (loop_list p)
      \<and> (\<forall>i < length (loop_list p). thread_list q ! i = No_thread \<and> phase (loop_list q ! i) = Idle
          \<and> served (loop_list q ! i) @ cb_list (loop_list q ! i) = posted (loop_list p ! i))"
    if "moves_needed p \<le> n" for n
  proof -
    have "\<not> pool_stays (pool_stop p)" using False pool_stays_stopped [OF assms] by simp
    moreover have "moves_needed (pool_stop p) \<le> n" using that by simp
    ultimately obtain q where q: "wait_stop n (pool_stop p) = Some (Inr q)" "length (loop_list q) = length (loop_list (pool_stop p))"
        "\<forall>i < length (loop_list (pool_stop p)). thread_list q ! i = No_thread
          \<and> left_run (thread_list (pool_stop p) ! i, loop_list (pool_stop p) ! i) (loop_list q ! i)"
      by (rule wait_stop_leaves [OF pool_stop_inv [OF assms]])
    show ?thesis by (rule exI [of _ q]) (use q in \<open>simp add: delete_pool_def left_run_def pool_stop_def\<close>)
  qed
  then show ?thesis using False by simp
qed

text \<open>
  A pool that is destroyed right after it was started, before its threads have come to \<open>run\<close>:
  the destructor waits for ever.
\<close>

theorem pool_destroyed_witness:
  "\<exists>p. pool_start (new_loop_pool 2 :: string loop_pool) = Inr p \<and> (\<forall>n. delete_pool n p = None)"
proof -
  let ?p = "(new_loop_pool 2 :: string loop_pool)\<lparr>thread_list := [Starting, Starting]\<rparr>"
  have start: "pool_start (new_loop_pool 2 :: string loop_pool) = Inr ?p"
    by (simp add: pool_start_def new_loop_pool_def numeral_2_eq_2)
  have "threads_inv ?p"
    by (simp add: threads_inv_def new_loop_pool_def thread_ok_def new_loop_idle loop_reach.fresh nth_Cons' less_2_cases_iff)
  from pool_destroyed [OF this] show ?thesis using start by simp
qed

section \<open>Connecting\<close>

text \<open>
  \<open>connect_peer\<close> with what \<open>connect\<close> returned and the delay kept in the connector: it connects,
  or sets a timer of that delay for the next attempt and doubles it, or throws.
\<close>

datatype attempt = Connected | Retry_after int

definition first_retry_delay :: int where
  "first_retry_delay = 500"

definition max_retry_delay :: int where
  "max_retry_delay = 30 * 1000"

definition connect_peer :: "int \<Rightarrow> int \<Rightarrow> (attempt \<times> int) res" where
  "connect_peer ret delay =
     (if ret < 0
      then if delay \<le> max_retry_delay then Inr (Retry_after delay, delay * 2) else Inl Runtime_error
      else Inr (Connected, delay))"

text \<open>
  At most \<open>n\<close> attempts with the results of \<open>connect\<close> in order, each after the timer of the one
  before: the delays of the timers, and the last result, none when \<open>n\<close> was too small.
\<close>

primrec connect_run :: "nat \<Rightarrow> (nat \<Rightarrow> int) \<Rightarrow> nat \<Rightarrow> int \<Rightarrow> int list \<times> nat res option" where
  "connect_run 0 rets k delay = ([], None)"
| "connect_run (Suc n) rets k delay =
     (case connect_peer (rets k) delay of
        Inl e \<Rightarrow> ([], Some (Inl e))
      | Inr (Connected, d) \<Rightarrow> ([], Some (Inr k))
      | Inr (Retry_after ms, d) \<Rightarrow> (let (waits, r) = connect_run n rets (Suc k) d in (ms # waits, r)))"

lemma connect_fails:
  "rets k < 0 \<Longrightarrow> delay \<le> max_retry_delay \<Longrightarrow>
     connect_run (Suc n) rets k delay
       = (delay # fst (connect_run n rets (Suc k) (delay * 2)), snd (connect_run n rets (Suc k) (delay * 2)))"
  by (simp add: connect_peer_def split: prod.split)

lemma connect_succeeds: "0 \<le> rets k \<Longrightarrow> connect_run (Suc n) rets k delay = ([], Some (Inr k))"
  by (simp add: connect_peer_def)

lemma connect_gives_up:
  "rets k < 0 \<Longrightarrow> max_retry_delay < delay \<Longrightarrow> connect_run (Suc n) rets k delay = ([], Some (Inl Runtime_error))"
  by (simp add: connect_peer_def)

text \<open>As long as the attempts fail, the delays double; seven attempts are all there are.\<close>

lemma connect_prefix:
  "i \<le> 6 \<Longrightarrow> \<forall>j < i. rets j < 0 \<Longrightarrow>
     connect_run (i + n) rets 0 first_retry_delay
       = (map (\<lambda>j. 500 * 2 ^ j) [0..<i] @ fst (connect_run n rets i (500 * 2 ^ i)),
          snd (connect_run n rets i (500 * 2 ^ i)))"
proof (induction i arbitrary: n)
  case 0
  then show ?case by (simp add: first_retry_delay_def)
next
  case (Suc i)
  have "(500 :: int) * 2 ^ i \<le> 500 * 2 ^ 5" using Suc.prems(1) by (intro mult_left_mono power_increasing) simp_all
  then have "500 * 2 ^ i \<le> max_retry_delay" by (simp add: max_retry_delay_def)
  moreover have "rets i < 0" using Suc.prems(2) by simp
  ultimately have "connect_run (Suc n) rets i (500 * 2 ^ i)
      = (500 * 2 ^ i # fst (connect_run n rets (Suc i) (500 * 2 ^ i * 2)),
         snd (connect_run n rets (Suc i) (500 * 2 ^ i * 2)))" by (rule connect_fails [rotated])
  moreover have "(500 :: int) * 2 ^ i * 2 = 500 * 2 ^ Suc i" by simp
  ultimately show ?case using Suc.IH [of "Suc n"] Suc.prems by (simp del: connect_run.simps power_Suc)
qed

text \<open>
  C33: A connector makes at most seven attempts. It connects with the first of them that
  succeeds, after waiting 0.5 s, 1 s, 2 s and so on before it; if all seven fail it throws,
  31.5 s after the first. Every delay is below the range of the timer wheel (60 s).
\<close>

theorem connector_attempts:
  assumes "i \<le> 7" and "\<forall>j < i. rets j < 0" and "i < 7 \<longrightarrow> 0 \<le> rets i"
  shows "connect_run (7 + m) rets 0 first_retry_delay
      = (map (\<lambda>j. 500 * 2 ^ j) [0..<min i 6], Some (if i < 7 then Inr i else Inl Runtime_error))
    \<and> (\<forall>d \<in> set (map (\<lambda>j. 500 * 2 ^ j :: int) [0..<min i 6]). 0 < d \<and> d < 60000)"
proof
  let ?i = "min i 6"
  have "connect_run (?i + Suc (6 - ?i + m)) rets 0 first_retry_delay
      = (map (\<lambda>j. 500 * 2 ^ j) [0..<?i] @ fst (connect_run (Suc (6 - ?i + m)) rets ?i (500 * 2 ^ ?i)),
         snd (connect_run (Suc (6 - ?i + m)) rets ?i (500 * 2 ^ ?i)))"
    by (rule connect_prefix) (use assms(2) in auto)
  moreover have "?i + Suc (6 - ?i + m) = 7 + m" by simp
  moreover have "connect_run (Suc (6 - ?i + m)) rets ?i (500 * 2 ^ ?i)
      = ([], Some (if i < 7 then Inr i else Inl Runtime_error))"
  proof (cases "i < 7")
    case True
    then show ?thesis using assms(3) by (simp add: connect_succeeds del: connect_run.simps)
  next
    case False
    then have "i = 7" using assms(1) by simp
    then show ?thesis using assms(2) by (simp add: connect_gives_up max_retry_delay_def del: connect_run.simps)
  qed
  ultimately show "connect_run (7 + m) rets 0 first_retry_delay
      = (map (\<lambda>j. 500 * 2 ^ j) [0..<?i], Some (if i < 7 then Inr i else Inl Runtime_error))" by simp
  have "(500 :: int) * 2 ^ j \<le> 500 * 2 ^ 5" if "j < ?i" for j
    using that by (intro mult_left_mono power_increasing) simp_all
  then show "\<forall>d \<in> set (map (\<lambda>j. 500 * 2 ^ j :: int) [0..<?i]). 0 < d \<and> d < 60000" by fastforce
qed

theorem connector_attempts_witness:
  "connect_run 7 (\<lambda>k. if k < 2 then - 1 else 0) 0 first_retry_delay = ([500, 1000], Some (Inr 2))
    \<and> connect_run 8 (\<lambda>_. - 1) 0 first_retry_delay
        = ([500, 1000, 2000, 4000, 8000, 16000], Some (Inl Runtime_error))"
  using connector_attempts [of 2 "\<lambda>k. if k < 2 then - 1 else 0" 0] connector_attempts [of 7 "\<lambda>_. - 1" 1]
  by (simp add: upt_conv_Cons)

end
