(* ===== verification/Listening.thy ===== *)
theory Listening
  imports Channels "HOL-Library.Word"
begin

text \<open>
  The calls with which a server starts (src/src/base/sys_call..cpp, \<open>set_fd_nonblock\<close> of
  src/src/tcp/TCPConnector.cpp) and the constructor of the acceptor
  (src/src/tcp/TCPAcceptor.cpp). Most of the system calls stand inside an \<open>assert\<close>, so they are
  made only in a build without \<open>NDEBUG\<close>; CMake defines it for the build type Release, one of
  the two of CMakeLists.txt. Addresses are left out.
\<close>

unbundle bit_operations_syntax

section \<open>The listening socket\<close>

text \<open>What the calls return, and those made on the socket, in order.\<close>

record listen_env =
  socket_ret :: int
  reuse_ret :: int
  bind_ret :: int
  listen_ret :: int

datatype socket_call = Set_reuse | Bind_addr | Listen_on

text \<open>\<open>assert(call >= 0)\<close>, with the value of the call, and the calls made.\<close>

definition assert_call :: "bool \<Rightarrow> 'c \<Rightarrow> int \<Rightarrow> 'c list \<Rightarrow> 'c list res" where
  "assert_call ndebug c ret calls =
     (if ndebug then Inr calls else bind_res (c_assert (0 \<le> ret)) (\<lambda>_. Inr (calls @ [c])))"

definition create_listen_fd :: "bool \<Rightarrow> listen_env \<Rightarrow> (int \<times> socket_call list) res" where
  "create_listen_fd ndebug env =
     bind_res (if ndebug then Inr () else c_assert (0 \<le> socket_ret env)) (\<lambda>_.
     bind_res (assert_call ndebug Set_reuse (reuse_ret env) []) (\<lambda>calls1.
     bind_res (assert_call ndebug Bind_addr (bind_ret env) calls1) (\<lambda>calls2.
     bind_res (assert_call ndebug Listen_on (listen_ret env) calls2) (\<lambda>calls3.
     Inr (socket_ret env, calls3)))))"

text \<open>The flags of the descriptor before, and the result of the call that sets them: the new flags.\<close>

definition o_nonblock :: "32 word" where
  "o_nonblock = 2048"

definition set_fd_nonblock :: "bool \<Rightarrow> int \<Rightarrow> int \<Rightarrow> 32 word list res" where
  "set_fd_nonblock ndebug flags setfl_ret =
     bind_res (if ndebug then Inr () else c_assert (0 \<le> flags)) (\<lambda>_.
     assert_call ndebug (word_of_int flags OR o_nonblock) setfl_ret [])"

text \<open>The signals a thread blocks; threads it starts later block the same.\<close>

datatype signal = SIGPIPE | Other_signal nat

definition block_sigpipe :: "signal set \<Rightarrow> signal set" where
  "block_sigpipe blocked = insert SIGPIPE blocked"

section \<open>The acceptor\<close>

text \<open>The constructor on the poller of its loop: a channel for the new socket, with its read callback.\<close>

definition new_acceptor :: "int \<Rightarrow> 'cb \<Rightarrow> ('cb, 'm) reactor_scheme \<Rightarrow> (nat \<times> ('cb, 'm) reactor_scheme) res" where
  "new_acceptor fd read_cb st =
     bind_res (get_channel fd st) (\<lambda>(a, st1).
     bind_res (enable_event a READ (Some read_cb) st1) (\<lambda>st2. Inr (a, st2)))"

text \<open>The two together: the acceptor takes the socket that \<open>createListenFd\<close> returns.\<close>

definition open_acceptor ::
  "bool \<Rightarrow> listen_env \<Rightarrow> 'cb \<Rightarrow> ('cb, 'm) reactor_scheme \<Rightarrow> (socket_call list \<times> nat \<times> ('cb, 'm) reactor_scheme) res" where
  "open_acceptor ndebug env read_cb st =
     bind_res (create_listen_fd ndebug env) (\<lambda>(fd, calls).
     bind_res (new_acceptor fd read_cb st) (\<lambda>(a, st1). Inr (calls, a, st1)))"

text \<open>Making a channel for a descriptor that no live channel has, and enabling an event, keep the poller in order.\<close>

definition blank_channel :: "int \<Rightarrow> 'cb channel" where
  "blank_channel fd = \<lparr>ch_fd = fd, is_once = False, cb_arr = (\<lambda>_. None), trigger_arr = (\<lambda>_. False), enable_arr = (\<lambda>_. False)\<rparr>"

lemma get_channel_live:
  assumes inv: "reactor_inv st" and fd: "0 \<le> fd" "fd \<notin> live_fds st"
  obtains st' where "get_channel fd st = Inr (next_addr st, st')" and "reactor_inv st'"
    and "chans st' = (chans st)(next_addr st \<mapsto> blank_channel fd)" and "reactor.more st' = reactor.more st"
    and "next_addr st' = next_addr st + 1"
proof -
  have "op_ok st (Op_get fd False)" using fd by (auto simp: op_ok_def live_fds_def)
  from get_fresh [OF inv this] obtain st' where st': "do_op (Op_get fd False) st = Inr st'" "reactor_inv st'"
      "chans st' = (chans st)(next_addr st \<mapsto> blank_channel fd)" by (auto simp: blank_channel_def)
  have get: "get_channel fd st = Inr (next_addr st, put_channel (next_addr st) (blank_channel fd) (st\<lparr>next_addr := next_addr st + 1\<rparr>))"
    using fd(1) by (simp add: get_channel_def new_channel_def blank_channel_def)
  moreover have "st' = put_channel (next_addr st) (blank_channel fd) (st\<lparr>next_addr := next_addr st + 1\<rparr>)"
    using st'(1) get by (simp add: do_op_def set_once_def with_channel_def put_channel_def blank_channel_def)
  ultimately show ?thesis using st' by (intro that [of st']) (simp_all add: put_channel_def)
qed

lemma update_channel_next: "update_channel a ch st = Inr st' \<Longrightarrow> next_addr st' = next_addr st"
  by (auto simp: update_channel_def Let_def bind_res_Inr_iff split: if_splits)

lemma enable_event_live:
  assumes "reactor_inv st" and "chans st a = Some ch"
  obtains st' where "enable_event a et (Some cb) st = Inr st'" and "reactor_inv st'"
    and "chans st' = (chans st)(a \<mapsto> ch\<lparr>cb_arr := (cb_arr ch)(et := Some cb), enable_arr := (enable_arr ch)(et := True)\<rparr>)"
    and "reactor.more st' = reactor.more st" and "next_addr st' = next_addr st"
  using enable_live [OF assms, of "Some cb" et] more_enable_event by fastforce

lemma enable_again_live:
  assumes "reactor_inv st" and "chans st a = Some ch" and "cb_arr ch et \<noteq> None"
  obtains st' where "enable_event a et None st = Inr st'" and "reactor_inv st'"
    and "chans st' = (chans st)(a \<mapsto> ch\<lparr>enable_arr := (enable_arr ch)(et := True)\<rparr>)"
    and "reactor.more st' = reactor.more st" and "next_addr st' = next_addr st"
  using enable_live [OF assms(1,2), of None et] assms(3) more_enable_event by (fastforce simp: fun_upd_idem)

lemma disable_event_live:
  assumes "reactor_inv st" and "chans st a = Some ch"
  obtains st' where "disable_event a et st = Inr st'" and "reactor_inv st'"
    and "chans st' = (chans st)(a \<mapsto> ch\<lparr>enable_arr := (enable_arr ch)(et := False)\<rparr>)"
    and "reactor.more st' = reactor.more st" and "next_addr st' = next_addr st"
proof -
  obtain st' where st': "disable_event a et st = Inr st'" "reactor_inv st'" "chans st' = (chans st)(a \<mapsto> ch_disable et ch)"
    using disable_live [OF assms, of et] by blast
  then have "update_channel a (ch_disable et ch) (put_channel a (ch_disable et ch) st) = Inr st'"
    using assms(2) by (simp add: disable_event_def with_channel_def)
  from more_update_channel [OF this] update_channel_next [OF this] show ?thesis
    using st' by (intro that [of st']) (simp_all add: ch_disable_def put_channel_def)
qed

section \<open>Properties\<close>

text \<open>
  In a build without \<open>NDEBUG\<close>, \<open>createListenFd\<close> returns exactly when all its calls succeed, and the
  socket has then been set up, bound and is listening, in this order; else the process
  aborts. In a build with \<open>NDEBUG\<close> it always returns, even for a socket that could not be made,
  and none of the calls is made: the server waits on a socket that is not listening.
\<close>

theorem release_build_never_listens:
  "create_listen_fd False env =
      (if 0 \<le> socket_ret env \<and> 0 \<le> reuse_ret env \<and> 0 \<le> bind_ret env \<and> 0 \<le> listen_ret env
       then Inr (socket_ret env, [Set_reuse, Bind_addr, Listen_on]) else Inl Assert_abort)
    \<and> create_listen_fd True env = Inr (socket_ret env, [])"
  by (simp add: create_listen_fd_def assert_call_def c_assert_def)

text \<open>
  The acceptor in a poller whose channels do not have the new socket: in a build without
  \<open>NDEBUG\<close> it ends up listening and registered for reading with its callback, and the poller
  stays in order; in a build with \<open>NDEBUG\<close> only a failed \<open>socket\<close> is noticed, by the channel.
\<close>

theorem acceptor_opened:
  fixes st :: "('cb, 'm) reactor_scheme"
  assumes "reactor_inv st" and "socket_ret env \<notin> live_fds st"
    and "0 \<le> socket_ret env" "0 \<le> reuse_ret env" "0 \<le> bind_ret env" "0 \<le> listen_ret env"
  shows "\<exists>st'. open_acceptor ndebug env cb st = Inr (if ndebug then [] else [Set_reuse, Bind_addr, Listen_on], next_addr st, st')
    \<and> reactor_inv st' \<and> chans st' = (chans st)(next_addr st \<mapsto>
        (blank_channel (socket_ret env))\<lparr>cb_arr := [READ \<mapsto> cb], enable_arr := (\<lambda>_. False)(READ := True)\<rparr>)
    \<and> reactor.more st' = reactor.more st"
proof -
  obtain st1 where st1: "get_channel (socket_ret env) st = Inr (next_addr st, st1)" "reactor_inv st1"
      "chans st1 = (chans st)(next_addr st \<mapsto> blank_channel (socket_ret env))" "reactor.more st1 = reactor.more st"
    by (rule get_channel_live [OF assms(1,3,2)])
  let ?ch = "blank_channel (socket_ret env) :: 'cb channel"
  have "chans st1 (next_addr st) = Some ?ch" by (simp add: st1(3))
  note live = enable_event_live [OF st1(2) this, of READ cb]
  obtain st2 where st2: "enable_event (next_addr st) READ (Some cb) st1 = Inr st2" "reactor_inv st2"
      "chans st2 = (chans st1)(next_addr st \<mapsto> ?ch\<lparr>cb_arr := (cb_arr ?ch)(READ := Some cb), enable_arr := (enable_arr ?ch)(READ := True)\<rparr>)"
      "reactor.more st2 = reactor.more st1" "next_addr st2 = next_addr st1"
    by (rule live)
  have "create_listen_fd ndebug env = Inr (socket_ret env, if ndebug then [] else [Set_reuse, Bind_addr, Listen_on])"
    using assms(3-6) by (simp add: create_listen_fd_def assert_call_def)
  moreover have "new_acceptor (socket_ret env) cb st = Inr (next_addr st, st2)" by (simp add: new_acceptor_def st1(1) st2(1))
  ultimately have "open_acceptor ndebug env cb st = Inr (if ndebug then [] else [Set_reuse, Bind_addr, Listen_on], next_addr st, st2)"
    by (simp add: open_acceptor_def)
  moreover have "chans st2 = (chans st)(next_addr st \<mapsto>
      (blank_channel (socket_ret env))\<lparr>cb_arr := [READ \<mapsto> cb], enable_arr := (\<lambda>_. False)(READ := True)\<rparr>)"
    unfolding st2(3) st1(3) by (simp add: blank_channel_def)
  moreover have "reactor.more st2 = reactor.more st" using st1(4) st2(4) by simp
  ultimately show ?thesis using st2(2) by blast
qed

end
