(* ===== verification/TcpLoop.thy ===== *)
theory TcpLoop
  imports TcpServer Listening
begin

text \<open>
  The callback server on its loop: \<open>TCPServer\<close>, \<open>TCPAcceptor\<close> and \<open>TCPConnection\<close>
  (src/src/tcp/TcpServer.cpp, TCPAcceptor.cpp, TcpConnection.cpp) with the poller and the channels of
  \<open>Channels\<close>. The acceptor and every connection have a channel; a connection enables and
  disables its write event there, \<open>epoll_wait\<close> reports what is registered, the channels call the
  handlers, and the removals the handlers post are run when the channels have been served. The
  connections are those of \<open>TcpConnection\<close>, and the server refines the table of \<open>TcpServer\<close>, in
  which the order and the readiness of events are arbitrary.
\<close>

section \<open>State\<close>

text \<open>A callback is bound to its object: the acceptor, or the connection of a descriptor.\<close>

datatype tcp_cb = Accept_read | Conn_read int | Conn_write int

text \<open>
  \<open>chan_of\<close> is the member \<open>ch\<close> of the connections; \<open>todo\<close> are the descriptors in the
  \<open>remove_conn\<close> callbacks in the list of the loop.
\<close>

record tcp_rest =
  table :: "int \<Rightarrow> conn option"
  chan_of :: "int \<Rightarrow> nat option"
  todo :: "int list"

type_synonym tcp_loop = "(tcp_cb, tcp_rest) reactor_scheme"

abbreviation tcp :: "tcp_loop \<Rightarrow> tcp_rest" where
  "tcp st \<equiv> reactor.more st"

definition put_tcp :: "tcp_rest \<Rightarrow> tcp_loop \<Rightarrow> tcp_loop" where
  "put_tcp m st = reactor.more_update (\<lambda>_. m) st"

text \<open>The system calls of one turn: results of \<open>read\<close>, \<open>write\<close> and \<open>accept\<close>.\<close>

record tcp_env =
  io_read :: "int \<Rightarrow> read_res"
  io_write :: "int \<Rightarrow> write_res"
  io_accept :: int

section \<open>Connections on their channels\<close>

text \<open>
  The write event, when a handler leaves it in another state than it found it. In the code the
  operations of the connection do this on the spot; nothing looks at the poller before the
  handler returns.
\<close>

definition show_write :: "nat \<Rightarrow> bool \<Rightarrow> bool \<Rightarrow> tcp_loop \<Rightarrow> tcp_loop res" where
  "show_write a before after st =
     (if before = after then Inr st
      else if after then enable_event a WRITE None st else disable_event a WRITE st)"

text \<open>Code of a connection: it may post its removal to the loop.\<close>

definition on_conn :: "int \<Rightarrow> (conn \<Rightarrow> conn res) \<Rightarrow> tcp_loop \<Rightarrow> tcp_loop res" where
  "on_conn fd f st =
     (case (table (tcp st) fd, chan_of (tcp st) fd) of
        (Some c, Some a) \<Rightarrow>
          bind_res (f c) (\<lambda>c'.
          show_write a (write_enabled c) (write_enabled c')
            (put_tcp ((tcp st)\<lparr>table := (table (tcp st))(fd \<mapsto> c'),
                               todo := todo (tcp st) @ replicate (n_removals c' - n_removals c) fd\<rparr>) st))
      | _ \<Rightarrow> Inl Dead_object)"

text \<open>
  The message callback of a connection may also use other connections it knows: \<open>across fd\<close> is
  what the callback of the connection \<open>fd\<close> does to others, besides its program on its own.
\<close>

type_synonym cross = "int \<Rightarrow> (int \<times> api) list"

definition api_on :: "user_callback \<Rightarrow> int \<times> api \<Rightarrow> tcp_loop \<Rightarrow> tcp_loop res" where
  "api_on uc x st = on_conn (fst x) (\<lambda>c. bind_res (do_api uc (snd x) c) (\<lambda>sc. Inr (snd sc))) st"

primrec apis_on :: "user_callback \<Rightarrow> (int \<times> api) list \<Rightarrow> tcp_loop \<Rightarrow> tcp_loop res" where
  "apis_on uc [] st = Inr st"
| "apis_on uc (x # xs) st = bind_res (api_on uc x st) (apis_on uc xs)"

text \<open>The message callback runs when there is one and \<open>read\<close> returned bytes.\<close>

definition calls_message :: "user_callback \<Rightarrow> read_res \<Rightarrow> conn option \<Rightarrow> bool" where
  "calls_message uc io c =
     (case (c, message_cb uc) of
        (Some c, Some p) \<Rightarrow> (case fst (push_from io (read_buf c)) of Read_data bs \<Rightarrow> bs \<noteq> [] | Read_fail e \<Rightarrow> False)
      | _ \<Rightarrow> False)"

definition conn_read :: "user_callback \<Rightarrow> cross \<Rightarrow> read_res \<Rightarrow> int \<Rightarrow> tcp_loop \<Rightarrow> tcp_loop res" where
  "conn_read uc across io fd st =
     bind_res (on_conn fd (handle_read uc io) st) (\<lambda>st1.
     if calls_message uc io (table (tcp st) fd) then apis_on uc (across fd) st1 else Inr st1)"

definition conn_write :: "user_callback \<Rightarrow> write_res \<Rightarrow> int \<Rightarrow> tcp_loop \<Rightarrow> tcp_loop res" where
  "conn_write uc io fd st = on_conn fd (handle_write uc io) st"

section \<open>The server\<close>

text \<open>
  The constructor of a connection: its channel with both callbacks, writing disabled again,
  then the open callback. It becomes part of the table when it is done.
\<close>

definition open_conn :: "user_callback \<Rightarrow> int \<Rightarrow> tcp_loop \<Rightarrow> tcp_loop res" where
  "open_conn uc fd st =
     bind_res (get_channel fd st) (\<lambda>(a, st1).
     bind_res (enable_event a READ (Some (Conn_read fd)) st1) (\<lambda>st2.
     bind_res (enable_event a WRITE (Some (Conn_write fd)) st2) (\<lambda>st3.
     bind_res (disable_event a WRITE st3) (\<lambda>st4.
     bind_res (new_conn uc) (\<lambda>c.
     show_write a False (write_enabled c)
       (put_tcp ((tcp st4)\<lparr>table := (table (tcp st4))(fd \<mapsto> c), chan_of := (chan_of (tcp st4))(fd \<mapsto> a),
                           todo := todo (tcp st4) @ replicate (n_removals c) fd\<rparr>) st4))))))"

definition tcp_create_conn :: "user_callback \<Rightarrow> int \<Rightarrow> tcp_loop \<Rightarrow> tcp_loop res" where
  "tcp_create_conn uc fd st =
     bind_res (assertm (table (tcp st) fd = None)) (\<lambda>_.
     if max_conn_num \<le> card (dom (table (tcp st))) then Inr st else open_conn uc fd st)"

definition tcp_accept :: "user_callback \<Rightarrow> int \<Rightarrow> tcp_loop \<Rightarrow> tcp_loop res" where
  "tcp_accept uc peer_fd st = bind_res (assertm (0 \<le> peer_fd)) (\<lambda>_. tcp_create_conn uc peer_fd st)"

text \<open>Erasing a connection destroys its channel.\<close>

definition tcp_remove_conn :: "int \<Rightarrow> tcp_loop \<Rightarrow> tcp_loop res" where
  "tcp_remove_conn fd st =
     (case (table (tcp st) fd, chan_of (tcp st) fd) of
        (Some c, Some a) \<Rightarrow>
          bind_res (destroy_channel a st) (\<lambda>st1.
          Inr (put_tcp ((tcp st1)\<lparr>table := (table (tcp st1))(fd := None), chan_of := (chan_of (tcp st1))(fd := None)\<rparr>) st1))
      | _ \<Rightarrow> Inl Dead_object)"

primrec run_removals :: "int list \<Rightarrow> tcp_loop \<Rightarrow> tcp_loop res" where
  "run_removals [] st = Inr st"
| "run_removals (fd # fds) st = bind_res (tcp_remove_conn fd st) (run_removals fds)"

definition run_tcp :: "user_callback \<Rightarrow> cross \<Rightarrow> tcp_env \<Rightarrow> (tcp_cb, tcp_rest) run_cb" where
  "run_tcp uc across env cb st =
     (case cb of
        Accept_read \<Rightarrow> tcp_accept uc (io_accept env) st
      | Conn_read fd \<Rightarrow> conn_read uc across (io_read env fd) fd st
      | Conn_write fd \<Rightarrow> conn_write uc (io_write env fd) fd st)"

text \<open>One turn of the loop of the server.\<close>

definition tcp_turn :: "user_callback \<Rightarrow> cross \<Rightarrow> tcp_env \<Rightarrow> readiness list \<Rightarrow> tcp_loop \<Rightarrow> tcp_loop res" where
  "tcp_turn uc across env ready st =
     bind_res (poll (run_tcp uc across env) ready st) (\<lambda>st1.
     run_removals (todo (tcp st1)) (put_tcp ((tcp st1)\<lparr>todo := []\<rparr>) st1))"

text \<open>\<open>run\<close> up to the loop, in a build without \<open>NDEBUG\<close>: the acceptor on the new socket.\<close>

definition tcp_start :: "listen_env \<Rightarrow> tcp_loop res" where
  "tcp_start env =
     bind_res (open_acceptor False env Accept_read
        (reactor.extend new_reactor \<lparr>table = (\<lambda>_. None), chan_of = (\<lambda>_. None), todo = []\<rparr>)) (\<lambda>(_, _, st).
     Inr st)"

text \<open>A new descriptor is one that no channel has; epoll reports a descriptor once.\<close>

inductive tcp_reach :: "user_callback \<Rightarrow> cross \<Rightarrow> int \<Rightarrow> tcp_loop \<Rightarrow> bool" for uc across lfd where
  started: "tcp_start env = Inr st \<Longrightarrow> socket_ret env = lfd \<Longrightarrow> tcp_reach uc across lfd st"
| turned: "tcp_reach uc across lfd st \<Longrightarrow> distinct (map fst ready) \<Longrightarrow> io_accept env \<notin> live_fds st
    \<Longrightarrow> tcp_turn uc across env ready st = Inr st' \<Longrightarrow> tcp_reach uc across lfd st'"

section \<open>Connections never stop writing by themselves\<close>

text \<open>Only \<open>handle_write\<close> disables the write event.\<close>

lemma api_keeps_write: "do_api uc op c = Inr (s, c') \<Longrightarrow> write_enabled c \<Longrightarrow> write_enabled c'"
  by (cases op) (auto simp: do_api_def bind_res_Inr_iff send_data_def half_close_def pop_data_def pop_data_len_def
      emit_event_def Let_def dest!: full_close_Inr split: if_splits)

lemma prog_keeps_write: "run_prog uc p c = Inr c' \<Longrightarrow> write_enabled c \<Longrightarrow> write_enabled c'"
  by (induction p arbitrary: c) (auto simp: bind_res_Inr_iff dest: api_keeps_write)

text \<open>The ways out of a read.\<close>

lemma handle_read_cases:
  assumes "handle_read uc io c = Inr c'"
  obtains (message) p b where "run_prog uc p (c\<lparr>read_buf := b\<rparr>) = Inr c'"
  | (buffered) b where "c' = c\<lparr>read_buf := b\<rparr>"
  | (closed) b where "full_close uc (c\<lparr>read_buf := b\<rparr>) = Inr c'"
proof -
  obtain n b where pf: "push_from io (read_buf c) = (n, b)" by fastforce
  show ?thesis
    using assms that by (auto simp: handle_read_def pf Let_def bind_res_Inr_iff split: read_res.splits option.splits if_splits)
qed

lemma read_keeps_write:
  assumes "handle_read uc io c = Inr c'" and "write_enabled c"
  shows "write_enabled c'"
  using assms(1)
proof (cases rule: handle_read_cases)
  case (message p b)
  then show ?thesis using prog_keeps_write [OF message] assms(2) by simp
next
  case (closed b)
  then show ?thesis using full_close_Inr [OF closed] assms(2) by simp
qed (use assms(2) in simp)

lemma read_step: "read_enabled c \<Longrightarrow> handle_read uc io c = Inr c' \<Longrightarrow> conn_step uc c c'"
  using conn_step.event [of "Some io" c None uc c'] by (simp add: handle_event_def)

lemma write_step: "write_enabled c \<Longrightarrow> handle_write uc io c = Inr c' \<Longrightarrow> conn_step uc c c'"
  using conn_step.event [of None c "Some io" uc c'] by (simp add: handle_event_def)

text \<open>Reading stays enabled for ever.\<close>

lemma api_read_enabled: "do_api uc op c = Inr (s, c') \<Longrightarrow> read_enabled c' = read_enabled c"
  by (cases op) (auto simp: do_api_def bind_res_Inr_iff send_data_def half_close_def pop_data_def pop_data_len_def
      emit_event_def Let_def dest!: full_close_Inr split: if_splits)

lemma prog_read_enabled: "run_prog uc p c = Inr c' \<Longrightarrow> read_enabled c' = read_enabled c"
  by (induction p arbitrary: c) (auto simp: bind_res_Inr_iff dest: api_read_enabled)

lemma run_cb_read_enabled: "run_cb uc cb c = Inr c' \<Longrightarrow> read_enabled c' = read_enabled c"
  by (auto simp: run_cb_def dest: prog_read_enabled split: option.splits)

lemma read_read_enabled:
  assumes "handle_read uc io c = Inr c'" shows "read_enabled c' = read_enabled c"
  using assms
proof (cases rule: handle_read_cases)
  case (message p b)
  then show ?thesis using prog_read_enabled [OF message] by simp
next
  case (closed b)
  then show ?thesis using full_close_Inr [OF closed] by simp
qed simp

lemma write_read_enabled:
  assumes "handle_write uc io c = Inr c'" shows "read_enabled c' = read_enabled c"
proof -
  obtain n bs b where pt: "pop_to io (write_buf c) = (n, bs, b)" by (metis prod_cases3)
  show ?thesis
    using assms full_close_Inr [of uc "c\<lparr>write_buf := b\<rparr>"]
    by (auto simp: handle_write_def pt bind_res_Inr_iff Let_def emit_event_def
        split: write_res.splits if_splits dest!: run_cb_read_enabled)
qed

lemma step_read_enabled: "conn_step uc c c' \<Longrightarrow> read_enabled c' = read_enabled c"
  by (erule conn_stepE)
    (auto simp: handle_event_def bind_res_Inr_iff split: option.splits
      dest: api_read_enabled read_read_enabled write_read_enabled)

lemma reach_read_enabled: "conn_reach uc c \<Longrightarrow> read_enabled c"
proof (induction rule: conn_reach.induct)
  case (start c)
  then show ?case using run_cb_read_enabled by (fastforce simp: new_conn_def init_conn_def)
next
  case (step c c')
  then show ?case using step_read_enabled by blast
qed

section \<open>The invariant of the server\<close>

text \<open>The table of \<open>TcpServer\<close>; \<open>pre\<close> are removals taken from the list and not yet run.\<close>

definition abs_server :: "int list \<Rightarrow> tcp_loop \<Rightarrow> server" where
  "abs_server pre st = \<lparr>conn_map = table (tcp st), open_fds = dom (table (tcp st)), removals = pre @ todo (tcp st)\<rparr>"

text \<open>Every channel is the acceptor's or that of one connection, whose write flag it shows.\<close>

definition linked :: "int \<Rightarrow> tcp_rest \<Rightarrow> nat \<Rightarrow> tcp_cb channel \<Rightarrow> bool" where
  "linked lfd m a ch \<longleftrightarrow> \<not> is_once ch \<and> enable_arr ch READ
     \<and> (if ch_fd ch = lfd then cb_arr ch = [READ \<mapsto> Accept_read] \<and> \<not> enable_arr ch WRITE
        else chan_of m (ch_fd ch) = Some a
          \<and> cb_arr ch = [READ \<mapsto> Conn_read (ch_fd ch), WRITE \<mapsto> Conn_write (ch_fd ch)]
          \<and> (\<exists>c. table m (ch_fd ch) = Some c \<and> enable_arr ch WRITE = write_enabled c))"

definition tcp_inv :: "user_callback \<Rightarrow> int \<Rightarrow> int list \<Rightarrow> tcp_loop \<Rightarrow> bool" where
  "tcp_inv uc lfd pre st \<longleftrightarrow> reactor_inv st \<and> server_reach uc (abs_server pre st)
     \<and> table (tcp st) lfd = None \<and> live_fds st = insert lfd (dom (table (tcp st)))
     \<and> (\<forall>a ch. chans st a = Some ch \<longrightarrow> linked lfd (tcp st) a ch)"

lemma tcp_invD:
  assumes "tcp_inv uc lfd pre st"
  shows "reactor_inv st" and "server_reach uc (abs_server pre st)" and "table (tcp st) lfd = None"
    and "live_fds st = insert lfd (dom (table (tcp st)))"
    and "chans st a = Some ch \<Longrightarrow> linked lfd (tcp st) a ch"
  using assms by (simp_all add: tcp_inv_def)

lemma put_tcp_simps [simp]:
  "tcp (put_tcp m st) = m" "chans (put_tcp m st) = chans st" "epoll (put_tcp m st) = epoll st"
  "next_addr (put_tcp m st) = next_addr st" "live_fds (put_tcp m st) = live_fds st"
  "reactor_inv (put_tcp m st) = reactor_inv st" "flags_clear (put_tcp m st) = flags_clear st"
proof -
  have trunc: "reactor.truncate (put_tcp m st) = reactor.truncate st" by (simp add: put_tcp_def reactor.truncate_def)
  show "reactor_inv (put_tcp m st) = reactor_inv st" "flags_clear (put_tcp m st) = flags_clear st"
    by (metis trunc truncate_inv, metis trunc truncate_flags)
qed (simp_all add: put_tcp_def live_fds_def)

lemma conn_channel:
  assumes "tcp_inv uc lfd pre st" and "table (tcp st) fd = Some c"
  obtains a ch where "chan_of (tcp st) fd = Some a" and "chans st a = Some ch" and "ch_fd ch = fd"
    and "cb_arr ch = [READ \<mapsto> Conn_read fd, WRITE \<mapsto> Conn_write fd]" and "enable_arr ch WRITE = write_enabled c"
    and "conn_reach uc c"
proof -
  note inv = tcp_invD [OF assms(1)]
  have "fd \<in> live_fds st" "fd \<noteq> lfd" using assms(2) inv(3,4) by auto
  then obtain a ch where ch: "chans st a = Some ch" "ch_fd ch = fd" by (blast elim: live_fdsE)
  moreover have "conn_reach uc c" using server_reach_inv [OF inv(2)] assms(2) by (simp add: server_inv_def abs_server_def)
  ultimately show ?thesis
    using inv(5) [OF ch(1)] assms(2) \<open>fd \<noteq> lfd\<close> by (intro that [of a ch]) (simp_all add: linked_def)
qed

text \<open>
  What a handler does to the channels that are there: it keeps descriptors and flags, and it
  disables nothing but the write event of the connections in \<open>F\<close>. New channels have no flag.
\<close>

definition grown :: "int set \<Rightarrow> tcp_loop \<Rightarrow> tcp_loop \<Rightarrow> bool" where
  "grown F st st' \<longleftrightarrow>
     (\<forall>a ch. chans st a = Some ch \<longrightarrow> (\<exists>ch'. chans st' a = Some ch' \<and> ch_fd ch' = ch_fd ch \<and> trigger_arr ch' = trigger_arr ch
        \<and> (enable_arr ch WRITE \<and> ch_fd ch \<notin> F \<longrightarrow> enable_arr ch' WRITE)))
     \<and> (\<forall>a ch'. chans st a = None \<and> chans st' a = Some ch' \<longrightarrow> trigger_arr ch' = (\<lambda>_. False))"

lemma grown_refl: "grown F st st"
  by (auto simp: grown_def)

lemma grown_trans:
  assumes "grown F st st1" and "grown F st1 st2"
  shows "grown F st st2"
  unfolding grown_def
proof (intro conjI allI impI)
  fix a ch assume "chans st a = Some ch"
  then obtain ch1 where ch1: "chans st1 a = Some ch1" "ch_fd ch1 = ch_fd ch" "trigger_arr ch1 = trigger_arr ch"
      "enable_arr ch WRITE \<and> ch_fd ch \<notin> F \<longrightarrow> enable_arr ch1 WRITE"
    using assms(1) unfolding grown_def by blast
  then obtain ch2 where "chans st2 a = Some ch2" "ch_fd ch2 = ch_fd ch1" "trigger_arr ch2 = trigger_arr ch1"
      "enable_arr ch1 WRITE \<and> ch_fd ch1 \<notin> F \<longrightarrow> enable_arr ch2 WRITE"
    using assms(2) unfolding grown_def by blast
  then show "\<exists>ch'. chans st2 a = Some ch' \<and> ch_fd ch' = ch_fd ch \<and> trigger_arr ch' = trigger_arr ch
      \<and> (enable_arr ch WRITE \<and> ch_fd ch \<notin> F \<longrightarrow> enable_arr ch' WRITE)" using ch1 by auto
next
  fix a ch' assume a: "chans st a = None \<and> chans st2 a = Some ch'"
  show "trigger_arr ch' = (\<lambda>_. False)"
  proof (cases "chans st1 a")
    case None
    then show ?thesis using assms(2) a unfolding grown_def by blast
  next
    case (Some ch1)
    then have "trigger_arr ch1 = (\<lambda>_. False)" using assms(1) a unfolding grown_def by blast
    moreover obtain ch2 where "chans st2 a = Some ch2" "trigger_arr ch2 = trigger_arr ch1"
      using assms(2) Some unfolding grown_def by blast
    ultimately show ?thesis using a by simp
  qed
qed

lemma grown_mono: "grown F st st' \<Longrightarrow> F \<subseteq> G \<Longrightarrow> grown G st st'"
  unfolding grown_def by blast

section \<open>Every handler is a step of the server\<close>

lemma show_write_live:
  assumes "reactor_inv st" and "chans st a = Some ch" and "cb_arr ch WRITE \<noteq> None" and "enable_arr ch WRITE = before"
  obtains st' where "show_write a before after st = Inr st'" and "reactor_inv st'"
    and "chans st' = (chans st)(a \<mapsto> ch\<lparr>enable_arr := (enable_arr ch)(WRITE := after)\<rparr>)"
    and "tcp st' = tcp st" and "next_addr st' = next_addr st"
proof (cases "before = after")
  case True
  then have "ch\<lparr>enable_arr := (enable_arr ch)(WRITE := after)\<rparr> = ch" using assms(4) by (simp add: fun_upd_idem)
  then show ?thesis using assms(1,2) True by (intro that [of st]) (simp_all add: show_write_def fun_upd_idem)
next
  case False
  show ?thesis
  proof (cases after)
    case True
    show ?thesis by (rule enable_again_live [OF assms(1-3)]) (use False True that in \<open>simp add: show_write_def\<close>)
  next
    case f: False
    show ?thesis by (rule disable_event_live [OF assms(1,2), of WRITE]) (use False f that in \<open>simp add: show_write_def\<close>)
  qed
qed

lemma on_conn_step:
  assumes inv: "tcp_inv uc lfd pre st" and c: "table (tcp st) fd = Some c" and run: "f c = Inr c'"
    and step: "conn_step uc c c'" and keep: "fd \<notin> F \<Longrightarrow> write_enabled c \<Longrightarrow> write_enabled c'"
  obtains st' where "on_conn fd f st = Inr st'" and "tcp_inv uc lfd pre st'" and "grown F st st'"
    and "live_fds st' = live_fds st" and "table (tcp st') = (table (tcp st))(fd \<mapsto> c')"
proof -
  note invD = tcp_invD [OF inv]
  obtain a ch where ch: "chan_of (tcp st) fd = Some a" "chans st a = Some ch" "ch_fd ch = fd"
      "cb_arr ch = [READ \<mapsto> Conn_read fd, WRITE \<mapsto> Conn_write fd]" "enable_arr ch WRITE = write_enabled c"
    by (rule conn_channel [OF inv c])
  define m where "m = (tcp st)\<lparr>table := (table (tcp st))(fd \<mapsto> c'), todo := todo (tcp st) @ replicate (n_removals c' - n_removals c) fd\<rparr>"
  let ?ch = "ch\<lparr>enable_arr := (enable_arr ch)(WRITE := write_enabled c')\<rparr>"
  obtain st' where st': "show_write a (write_enabled c) (write_enabled c') (put_tcp m st) = Inr st'" "reactor_inv st'"
      "chans st' = (chans (put_tcp m st))(a \<mapsto> ?ch)" "tcp st' = tcp (put_tcp m st)" "next_addr st' = next_addr (put_tcp m st)"
    by (rule show_write_live [of "put_tcp m st" a ch "write_enabled c" "write_enabled c'"]) (use invD(1) ch in simp_all)
  have chans': "chans st' = (chans st)(a \<mapsto> ?ch)" and tcp': "tcp st' = m" using st'(3,4) by simp_all
  have fds: "live_fds st' = live_fds st"
    using live_fds_put [OF chans'] ch(2,3) live_fdsI [OF ch(2)] by (auto simp: insert_absorb)
  have dom: "dom (table m) = dom (table (tcp st))" using c by (auto simp: m_def)
  have "fd \<noteq> lfd" using invD(3) c by auto
  have "server_step uc (abs_server pre st) (set_conn fd (n_removals c) c' (abs_server pre st))"
    by (rule server_step.event [OF _ step]) (simp add: abs_server_def c)
  moreover have "set_conn fd (n_removals c) c' (abs_server pre st) = abs_server pre st'"
    unfolding abs_server_def tcp' dom by (simp add: set_conn_def m_def)
  ultimately have "server_reach uc (abs_server pre st')" using server_reach.step [OF invD(2)] by simp
  moreover have "linked lfd m b chb" if b: "chans st' b = Some chb" for b chb
  proof (cases "b = a")
    case True
    then have "chb = ?ch" using b chans' by simp
    moreover have "\<not> is_once ch" "enable_arr ch READ" using invD(5) [OF ch(2)] by (simp_all add: linked_def)
    ultimately show ?thesis using ch(1,3,4) \<open>fd \<noteq> lfd\<close> True by (simp add: linked_def m_def)
  next
    case False
    then have chb: "chans st b = Some chb" using b chans' by simp
    then have "ch_fd chb \<noteq> fd" using inv_owner [OF invD(1) chb ch(2)] ch(3) False by auto
    then show ?thesis using invD(5) [OF chb] by (simp add: linked_def m_def)
  qed
  ultimately have "tcp_inv uc lfd pre st'"
    using st'(2) invD(3,4) \<open>fd \<noteq> lfd\<close> by (simp add: tcp_inv_def tcp' fds dom) (simp add: m_def)
  moreover have "grown F st st'"
    using keep ch(2,3,5) by (auto simp: grown_def chans')
  moreover have "on_conn fd f st = Inr st'" using st'(1) by (simp add: on_conn_def c ch(1) run m_def)
  moreover have "table (tcp st') = (table (tcp st))(fd \<mapsto> c')" by (simp add: tcp' m_def)
  ultimately show ?thesis using fds that by blast
qed

lemma on_conn_table: "on_conn fd f st = Inr st' \<Longrightarrow> \<exists>c c'. table (tcp st) fd = Some c \<and> f c = Inr c'"
  by (auto simp: on_conn_def bind_res_Inr_iff split: option.splits)

lemma on_conn_done:
  assumes "tcp_inv uc lfd pre st" and on: "on_conn fd f st = Inr st'"
    and step: "\<And>c c'. table (tcp st) fd = Some c \<Longrightarrow> f c = Inr c' \<Longrightarrow>
      conn_step uc c c' \<and> (fd \<notin> F \<longrightarrow> write_enabled c \<longrightarrow> write_enabled c')"
  shows "tcp_inv uc lfd pre st' \<and> grown F st st' \<and> live_fds st' = live_fds st"
proof -
  obtain c c' where c: "table (tcp st) fd = Some c" "f c = Inr c'" using on_conn_table [OF on] by blast
  have "conn_step uc c c'" "fd \<notin> F \<Longrightarrow> write_enabled c \<Longrightarrow> write_enabled c'" using step [OF c] by blast+
  from on_conn_step [OF assms(1) c(1), where f = f, OF c(2) this] on show ?thesis by auto
qed

lemma api_on_step:
  assumes "tcp_inv uc lfd pre st" and "api_on uc x st = Inr st'"
  shows "tcp_inv uc lfd pre st' \<and> grown {} st st' \<and> live_fds st' = live_fds st"
proof (rule on_conn_done [OF assms(1) assms(2) [unfolded api_on_def]])
  fix c c' assume "bind_res (do_api uc (snd x) c) (\<lambda>sc. Inr (snd sc)) = Inr c'"
  then obtain s where s: "do_api uc (snd x) c = Inr (s, c')" by (auto simp: bind_res_Inr_iff)
  show "conn_step uc c c' \<and> (fst x \<notin> {} \<longrightarrow> write_enabled c \<longrightarrow> write_enabled c')"
    using conn_step.user [OF s] api_keeps_write [OF s] by blast
qed

lemma apis_on_step:
  assumes "tcp_inv uc lfd pre st" and "apis_on uc xs st = Inr st'"
  shows "tcp_inv uc lfd pre st' \<and> grown {} st st' \<and> live_fds st' = live_fds st"
  using assms
proof (induction xs arbitrary: st)
  case Nil
  then show ?case by (simp add: grown_refl)
next
  case (Cons x xs)
  then obtain st1 where st1: "api_on uc x st = Inr st1" "apis_on uc xs st1 = Inr st'" by (auto simp: bind_res_Inr_iff)
  have one: "tcp_inv uc lfd pre st1" "grown {} st st1" "live_fds st1 = live_fds st"
    using api_on_step [OF Cons.prems(1) st1(1)] by simp_all
  then show ?case using Cons.IH [OF one(1) st1(2)] grown_trans by auto
qed

lemma conn_read_step:
  assumes "tcp_inv uc lfd pre st" and "conn_read uc across io fd st = Inr st'"
  shows "tcp_inv uc lfd pre st' \<and> grown {} st st' \<and> live_fds st' = live_fds st"
proof -
  obtain st1 where st1: "on_conn fd (handle_read uc io) st = Inr st1"
      "(if calls_message uc io (table (tcp st) fd) then apis_on uc (across fd) st1 else Inr st1) = Inr st'"
    using assms(2) by (auto simp: conn_read_def bind_res_Inr_iff)
  have one: "tcp_inv uc lfd pre st1 \<and> grown {} st st1 \<and> live_fds st1 = live_fds st"
  proof (rule on_conn_done [OF assms(1) st1(1)])
    fix c c' assume c: "table (tcp st) fd = Some c" "handle_read uc io c = Inr c'"
    have "conn_reach uc c" by (rule conn_channel [OF assms(1) c(1)])
    then show "conn_step uc c c' \<and> (fd \<notin> {} \<longrightarrow> write_enabled c \<longrightarrow> write_enabled c')"
      using read_step [OF reach_read_enabled c(2)] read_keeps_write [OF c(2)] by blast
  qed
  show ?thesis
  proof (cases "calls_message uc io (table (tcp st) fd)")
    case True
    then have "apis_on uc (across fd) st1 = Inr st'" using st1(2) by simp
    from apis_on_step [OF conjunct1 [OF one] this] one grown_trans [of "{}" st st1 st'] show ?thesis by auto
  next
    case False
    then show ?thesis using one st1(2) by simp
  qed
qed

lemma conn_write_step:
  assumes "tcp_inv uc lfd pre st" and "chans st a = Some ch" and "ch_fd ch = fd" "enable_arr ch WRITE"
    and "conn_write uc io fd st = Inr st'"
  shows "tcp_inv uc lfd pre st' \<and> grown {fd} st st' \<and> live_fds st' = live_fds st"
proof (rule on_conn_done [OF assms(1) assms(5) [unfolded conn_write_def]])
  fix c c' assume c: "table (tcp st) fd = Some c" "handle_write uc io c = Inr c'"
  have "write_enabled c"
    using tcp_invD(5) [OF assms(1,2)] assms(3,4) c(1) tcp_invD(3) [OF assms(1)] by (auto simp: linked_def split: if_splits)
  then show "conn_step uc c c' \<and> (fd \<notin> {fd} \<longrightarrow> write_enabled c \<longrightarrow> write_enabled c')" using write_step c(2) by blast
qed

text \<open>A new connection.\<close>

lemma open_conn_chans:
  assumes "reactor_inv st" and "0 \<le> fd" and "fd \<notin> live_fds st" and c: "new_conn uc = Inr c"
  obtains ch st' where "open_conn uc fd st = Inr st'" and "reactor_inv st'" and "chans st' = (chans st)(next_addr st \<mapsto> ch)"
    and "ch_fd ch = fd" and "\<not> is_once ch" and "cb_arr ch = [READ \<mapsto> Conn_read fd, WRITE \<mapsto> Conn_write fd]"
    and "enable_arr ch READ" and "enable_arr ch WRITE = write_enabled c" and "trigger_arr ch = (\<lambda>_. False)"
    and "tcp st' = (tcp st)\<lparr>table := (table (tcp st))(fd \<mapsto> c), chan_of := (chan_of (tcp st))(fd \<mapsto> next_addr st),
        todo := todo (tcp st) @ replicate (n_removals c) fd\<rparr>"
proof -
  let ?a = "next_addr st" and ?ch0 = "blank_channel fd :: tcp_cb channel"
  obtain st1 where st1: "get_channel fd st = Inr (?a, st1)" "reactor_inv st1" "chans st1 = (chans st)(?a \<mapsto> ?ch0)"
      "tcp st1 = tcp st" "next_addr st1 = next_addr st + 1"
    by (rule get_channel_live [OF assms(1-3)])
  let ?ch1 = "?ch0\<lparr>cb_arr := (cb_arr ?ch0)(READ := Some (Conn_read fd)), enable_arr := (enable_arr ?ch0)(READ := True)\<rparr>"
  have at1: "chans st1 ?a = Some ?ch0" by (simp add: st1(3))
  obtain st2 where st2: "enable_event ?a READ (Some (Conn_read fd)) st1 = Inr st2" "reactor_inv st2"
      "chans st2 = (chans st1)(?a \<mapsto> ?ch1)" "tcp st2 = tcp st1" "next_addr st2 = next_addr st1"
    by (rule enable_event_live [OF st1(2) at1, of READ "Conn_read fd"])
  let ?ch2 = "?ch1\<lparr>cb_arr := (cb_arr ?ch1)(WRITE := Some (Conn_write fd)), enable_arr := (enable_arr ?ch1)(WRITE := True)\<rparr>"
  have at2: "chans st2 ?a = Some ?ch1" by (simp add: st2(3))
  obtain st3 where st3: "enable_event ?a WRITE (Some (Conn_write fd)) st2 = Inr st3" "reactor_inv st3"
      "chans st3 = (chans st2)(?a \<mapsto> ?ch2)" "tcp st3 = tcp st2" "next_addr st3 = next_addr st2"
    by (rule enable_event_live [OF st2(2) at2, of WRITE "Conn_write fd"])
  let ?ch3 = "?ch2\<lparr>enable_arr := (enable_arr ?ch2)(WRITE := False)\<rparr>"
  have at3: "chans st3 ?a = Some ?ch2" by (simp add: st3(3))
  obtain st4 where st4: "disable_event ?a WRITE st3 = Inr st4" "reactor_inv st4"
      "chans st4 = (chans st3)(?a \<mapsto> ?ch3)" "tcp st4 = tcp st3" "next_addr st4 = next_addr st3"
    by (rule disable_event_live [OF st3(2) at3, of WRITE])
  have tcp4: "tcp st4 = tcp st" and chans4: "chans st4 = (chans st)(?a \<mapsto> ?ch3)"
    using st1(4) st2(4) st3(4) st4(4) by (simp, unfold st4(3) st3(3) st2(3) st1(3), simp)
  define m where "m = (tcp st)\<lparr>table := (table (tcp st))(fd \<mapsto> c), chan_of := (chan_of (tcp st))(fd \<mapsto> ?a),
      todo := todo (tcp st) @ replicate (n_removals c) fd\<rparr>"
  let ?ch4 = "?ch3\<lparr>enable_arr := (enable_arr ?ch3)(WRITE := write_enabled c)\<rparr>"
  have at4: "reactor_inv (put_tcp m st4)" "chans (put_tcp m st4) ?a = Some ?ch3" "cb_arr ?ch3 WRITE \<noteq> None" "enable_arr ?ch3 WRITE = False"
    using st4(2) chans4 by simp_all
  obtain st5 where st5: "show_write ?a False (write_enabled c) (put_tcp m st4) = Inr st5" "reactor_inv st5"
      "chans st5 = (chans (put_tcp m st4))(?a \<mapsto> ?ch4)" "tcp st5 = tcp (put_tcp m st4)" "next_addr st5 = next_addr (put_tcp m st4)"
    by (rule show_write_live [OF at4])
  have "open_conn uc fd st = Inr st5"
    using st1(1) st2(1) st3(1) st4(1) st5(1) c by (simp add: open_conn_def m_def tcp4)
  moreover have "chans st5 = (chans st)(?a \<mapsto> ?ch4)" "tcp st5 = m" using st5(3,4) chans4 by simp_all
  ultimately show ?thesis
    using st5(2) by (intro that [of st5 ?ch4]) (simp_all add: m_def blank_channel_def)
qed

lemma tcp_accept_step:
  assumes inv: "tcp_inv uc lfd pre st" and new: "fd \<notin> live_fds st" and acc: "tcp_accept uc fd st = Inr st'"
  shows "tcp_inv uc lfd pre st' \<and> grown {} st st'"
proof -
  note invD = tcp_invD [OF inv]
  have fd: "0 \<le> fd" "table (tcp st) fd = None" "fd \<noteq> lfd" using acc new invD(4)
    by (auto simp: tcp_accept_def bind_res_Inr_iff assertm_def split: if_splits)
  show ?thesis
  proof (cases "max_conn_num \<le> card (dom (table (tcp st)))")
    case True
    then have "st' = st" using acc fd by (simp add: tcp_accept_def tcp_create_conn_def)
    then show ?thesis using inv grown_refl by simp
  next
    case False
    then have "open_conn uc fd st = Inr st'" using acc fd by (simp add: tcp_accept_def tcp_create_conn_def)
    moreover obtain c where new_c: "new_conn uc = Inr c"
      using calculation by (auto simp: open_conn_def bind_res_Inr_iff)
    moreover obtain ch st2 where st2: "open_conn uc fd st = Inr st2" "reactor_inv st2" "chans st2 = (chans st)(next_addr st \<mapsto> ch)"
        "ch_fd ch = fd" "\<not> is_once ch" "cb_arr ch = [READ \<mapsto> Conn_read fd, WRITE \<mapsto> Conn_write fd]"
        "enable_arr ch READ" "enable_arr ch WRITE = write_enabled c" "trigger_arr ch = (\<lambda>_. False)"
        "tcp st2 = (tcp st)\<lparr>table := (table (tcp st))(fd \<mapsto> c), chan_of := (chan_of (tcp st))(fd \<mapsto> next_addr st),
           todo := todo (tcp st) @ replicate (n_removals c) fd\<rparr>"
      by (rule open_conn_chans [OF invD(1) fd(1) new new_c])
    ultimately have "st2 = st'" by simp
    note c = new_c st2(2-) [unfolded this]
    have free: "chans st (next_addr st) = None"
      using inv_channel [OF invD(1), of "next_addr st"] by (cases "chans st (next_addr st)") (auto simp: channel_ok_def)
    have "acceptor_read uc fd (abs_server pre st) = Inr (abs_server pre st')"
      using False fd c(1) by (simp add: acceptor_read_def create_conn_def abs_server_def set_conn_def c(10))
    then have "server_step uc (abs_server pre st) (abs_server pre st')"
      using fd(2) by (intro server_step.accepted [of fd]) (auto simp: abs_server_def)
    then have reach: "server_reach uc (abs_server pre st')" by (rule server_reach.step [OF invD(2)])
    have fds: "live_fds st' = insert fd (live_fds st)"
      using live_fds_put [OF c(3)] free c(4) by simp
    have "linked lfd (tcp st') b chb" if b: "chans st' b = Some chb" for b chb
    proof (cases "b = next_addr st")
      case True
      then have "chb = ch" using b c(3) by simp
      then show ?thesis using True fd(3) c(4-8) by (simp add: linked_def c(10))
    next
      case False
      then have chb: "chans st b = Some chb" using b c(3) by simp
      then have "ch_fd chb \<noteq> fd" using new live_fdsI by metis
      then show ?thesis using invD(5) [OF chb] by (simp add: linked_def c(10))
    qed
    then have "tcp_inv uc lfd pre st'"
      using c(2) reach fds invD(3,4) fd(3) by (simp add: tcp_inv_def c(10)) (simp add: insert_commute)
    moreover have "grown {} st st'" using free c(9) by (auto simp: grown_def c(3))
    ultimately show ?thesis by simp
  qed
qed

section \<open>A poll is a sequence of steps of the server\<close>

lemma reactor_inv_trigger:
  assumes inv: "reactor_inv st" and ch: "chans st a = Some ch"
  shows "reactor_inv (put_channel a (ch\<lparr>trigger_arr := t\<rparr>) st)"
    and "live_fds (put_channel a (ch\<lparr>trigger_arr := t\<rparr>) st) = live_fds st"
proof -
  let ?st = "put_channel a (ch\<lparr>trigger_arr := t\<rparr>) st"
  show fds: "live_fds ?st = live_fds st"
    using live_fds_put [of ?st st a "ch\<lparr>trigger_arr := t\<rparr>"] ch live_fdsI [OF ch] by (simp add: insert_absorb)
  have ep: "epoll ?st = epoll st" "fd_set ?st = fd_set st" "event_count ?st = event_count st" "next_addr ?st = next_addr st"
    by (simp_all add: put_channel_def)
  show "reactor_inv ?st"
  proof (rule reactor_invI)
    show "dom (epoll ?st) \<subseteq> live_fds ?st" using inv_sets(4) [OF inv] by (simp add: fds ep)
  next
    fix b c cb cc assume "chans ?st b = Some cb" "chans ?st c = Some cc" "ch_fd cb = ch_fd cc"
    then show "b = c"
      using inv_owner [OF inv, of b "if b = a then ch else cb" c "if c = a then ch else cc"] ch
      by (auto split: if_splits)
  next
    fix b cb assume "chans ?st b = Some cb"
    then show "channel_ok ?st b cb"
      using inv_channel [OF inv, of b] ch
      by (auto simp: channel_ok_def ep mirrors_def wanted_def split: if_splits option.splits)
  qed (use inv_sets [OF inv] in \<open>simp_all add: ep\<close>)
qed

lemma tcp_inv_trigger:
  assumes inv: "tcp_inv uc lfd pre st" and ch: "chans st a = Some ch"
  shows "tcp_inv uc lfd pre (put_channel a (ch\<lparr>trigger_arr := t\<rparr>) st)"
proof -
  note invD = tcp_invD [OF inv]
  have "linked lfd (tcp st) a (ch\<lparr>trigger_arr := t\<rparr>)" using invD(5) [OF ch] by (simp add: linked_def)
  then show ?thesis
    using inv reactor_inv_trigger [OF invD(1) ch] by (simp add: tcp_inv_def abs_server_def)
qed

lemma run_tcp_step:
  assumes inv: "tcp_inv uc lfd pre st" and ch: "chans st a = Some ch" "enable_arr ch et" "cb_arr ch et = Some cb"
    and new: "ch_fd ch = lfd \<Longrightarrow> io_accept env \<notin> live_fds st" and run: "run_tcp uc across env cb st = Inr st'"
  shows "tcp_inv uc lfd pre st' \<and> grown (if et = WRITE then {ch_fd ch} else {}) st st'
    \<and> (ch_fd ch \<noteq> lfd \<longrightarrow> live_fds st' = live_fds st)"
proof -
  note link = tcp_invD(5) [OF inv ch(1)]
  show ?thesis
  proof (cases "ch_fd ch = lfd")
    case True
    then have "et = READ" "cb = Accept_read" using link ch(2,3) by (cases et; simp add: linked_def)+
    then show ?thesis using tcp_accept_step [OF inv new [OF True]] run True by (simp add: run_tcp_def)
  next
    case False
    show ?thesis
    proof (cases et)
      case READ
      then have "cb = Conn_read (ch_fd ch)" using link ch(3) False by (simp add: linked_def)
      then show ?thesis using conn_read_step [OF inv] run READ by (simp add: run_tcp_def)
    next
      case WRITE
      then have "cb = Conn_write (ch_fd ch)" using link ch(3) False by (simp add: linked_def)
      then show ?thesis using conn_write_step [OF inv ch(1) refl] run ch(2) WRITE by (simp add: run_tcp_def)
    qed
  qed
qed

text \<open>The channels besides the one whose events are handled.\<close>

definition away :: "nat \<Rightarrow> tcp_loop \<Rightarrow> tcp_loop \<Rightarrow> bool" where
  "away a st st' \<longleftrightarrow>
     (\<forall>b ch. b \<noteq> a \<and> chans st b = Some ch \<longrightarrow> (\<exists>ch'. chans st' b = Some ch' \<and> ch_fd ch' = ch_fd ch
        \<and> trigger_arr ch' = trigger_arr ch \<and> (enable_arr ch WRITE \<longrightarrow> enable_arr ch' WRITE)))
     \<and> (\<forall>b ch'. b \<noteq> a \<and> chans st b = None \<and> chans st' b = Some ch' \<longrightarrow> trigger_arr ch' = (\<lambda>_. False))"

lemma away_trans:
  assumes "away a st st1" and "away a st1 st2"
  shows "away a st st2"
  unfolding away_def
proof (intro conjI allI impI)
  fix b ch assume "b \<noteq> a \<and> chans st b = Some ch"
  then obtain ch1 where ch1: "b \<noteq> a" "chans st1 b = Some ch1" "ch_fd ch1 = ch_fd ch" "trigger_arr ch1 = trigger_arr ch"
      "enable_arr ch WRITE \<longrightarrow> enable_arr ch1 WRITE"
    using assms(1) unfolding away_def by blast
  then obtain ch2 where "chans st2 b = Some ch2" "ch_fd ch2 = ch_fd ch1" "trigger_arr ch2 = trigger_arr ch1"
      "enable_arr ch1 WRITE \<longrightarrow> enable_arr ch2 WRITE"
    using assms(2) unfolding away_def by blast
  then show "\<exists>ch'. chans st2 b = Some ch' \<and> ch_fd ch' = ch_fd ch \<and> trigger_arr ch' = trigger_arr ch
      \<and> (enable_arr ch WRITE \<longrightarrow> enable_arr ch' WRITE)" using ch1 by auto
next
  fix b ch' assume b: "b \<noteq> a \<and> chans st b = None \<and> chans st2 b = Some ch'"
  show "trigger_arr ch' = (\<lambda>_. False)"
  proof (cases "chans st1 b")
    case None
    then show ?thesis using assms(2) b unfolding away_def by blast
  next
    case (Some ch1)
    then have "trigger_arr ch1 = (\<lambda>_. False)" using assms(1) b unfolding away_def by blast
    moreover obtain ch2 where "chans st2 b = Some ch2" "trigger_arr ch2 = trigger_arr ch1"
      using assms(2) Some b unfolding away_def by blast
    ultimately show ?thesis using b by simp
  qed
qed

lemma away_put [simp]: "away a st (put_channel a ch st)" "away a (put_channel a ch st) st' = away a st st'"
    "away a st (put_channel a ch st') = away a st st'"
  by (auto simp: away_def)

lemma grown_away:
  assumes "tcp_inv uc lfd pre st" and "chans st a = Some ch" and "grown F st st'" and "F \<subseteq> {ch_fd ch}"
  shows "away a st st'"
  unfolding away_def
proof (intro conjI allI impI)
  fix b chb assume b: "b \<noteq> a \<and> chans st b = Some chb"
  then have "ch_fd chb \<noteq> ch_fd ch" using inv_owner [OF tcp_invD(1) [OF assms(1)], of b chb a ch] assms(2) by auto
  then have "ch_fd chb \<notin> F" using assms(4) by blast
  then show "\<exists>ch'. chans st' b = Some ch' \<and> ch_fd ch' = ch_fd chb \<and> trigger_arr ch' = trigger_arr chb
      \<and> (enable_arr chb WRITE \<longrightarrow> enable_arr ch' WRITE)"
    using assms(3) b unfolding grown_def by blast
next
  fix b ch' assume "b \<noteq> a \<and> chans st b = None \<and> chans st' b = Some ch'"
  then show "trigger_arr ch' = (\<lambda>_. False)" using assms(3) unfolding grown_def by blast
qed

lemma event_step:
  assumes inv: "tcp_inv uc lfd pre st" and ch: "chans st a = Some ch" and ok: "trigger_arr ch et \<Longrightarrow> enable_arr ch et"
    and new: "ch_fd ch = lfd \<Longrightarrow> io_accept env \<notin> live_fds st"
    and ev: "channel_event (run_tcp uc across env) a et st = Inr st'"
  obtains ch' where "tcp_inv uc lfd pre st'" and "chans st' a = Some ch'" and "ch_fd ch' = ch_fd ch"
    and "trigger_arr ch' = (trigger_arr ch)(et := False)" and "et = READ \<and> enable_arr ch WRITE \<longrightarrow> enable_arr ch' WRITE"
    and "away a st st'" and "ch_fd ch \<noteq> lfd \<longrightarrow> live_fds st' = live_fds st"
proof (cases "trigger_arr ch et")
  case False
  then have "st' = st" "(trigger_arr ch)(et := False) = trigger_arr ch"
    using ev ch by (simp_all add: channel_event_def with_channel_def fun_upd_idem)
  then show ?thesis using inv ch by (intro that [of ch]) (auto simp: away_def)
next
  case True
  then obtain cb st1 where cb: "cb_arr ch et = Some cb" "run_tcp uc across env cb st = Inr st1"
      "with_channel a st1 (\<lambda>ch1. Inr (put_channel a (ch_trigger et False ch1) st1)) = Inr st'"
    using ev ch by (auto simp: channel_event_def with_channel_def bind_res_Inr_iff split: option.splits)
  have step: "tcp_inv uc lfd pre st1" "grown (if et = WRITE then {ch_fd ch} else {}) st st1"
      "ch_fd ch \<noteq> lfd \<longrightarrow> live_fds st1 = live_fds st"
    using run_tcp_step [OF inv ch ok [OF True] cb(1) new cb(2)] by simp_all
  obtain ch1 where ch1: "chans st1 a = Some ch1" "ch_fd ch1 = ch_fd ch" "trigger_arr ch1 = trigger_arr ch"
      "enable_arr ch WRITE \<and> ch_fd ch \<notin> (if et = WRITE then {ch_fd ch} else {}) \<longrightarrow> enable_arr ch1 WRITE"
    using step(2) ch unfolding grown_def by blast
  let ?ch = "ch1\<lparr>trigger_arr := (trigger_arr ch1)(et := False)\<rparr>"
  have st': "st' = put_channel a ?ch st1" using cb(3) ch1(1) by (simp add: with_channel_def ch_trigger_def)
  have away: "away a st st'"
    using grown_away [OF inv ch step(2)] by (simp add: st')
  show ?thesis
  proof (rule that [of ?ch])
    show "tcp_inv uc lfd pre st'" unfolding st' by (rule tcp_inv_trigger [OF step(1) ch1(1)])
    show "ch_fd ch \<noteq> lfd \<longrightarrow> live_fds st' = live_fds st"
      using step(3) reactor_inv_trigger(2) [OF tcp_invD(1) [OF step(1)] ch1(1)] by (simp add: st')
  qed (use ch1 away in \<open>simp_all add: st'\<close>)
qed

lemma away_flags:
  assumes "flags_clear st" and "away a st st'" and "chans st' a = Some ch" and "trigger_arr ch = (\<lambda>_. False)"
  shows "flags_clear st'"
  unfolding flags_clear_def
proof (intro allI impI)
  fix b chb assume b: "chans st' b = Some chb"
  show "trigger_arr chb = (\<lambda>_. False)"
  proof (cases "b = a")
    case False
    show ?thesis
    proof (cases "chans st b")
      case None
      then show ?thesis using assms(2) b False unfolding away_def by blast
    next
      case (Some ch0)
      then have "trigger_arr ch0 = (\<lambda>_. False)" using assms(1) by (simp add: flags_clear_def)
      moreover obtain ch1 where "chans st' b = Some ch1" "trigger_arr ch1 = trigger_arr ch0"
        using assms(2) Some False unfolding away_def by blast
      ultimately show ?thesis using b by simp
    qed
  qed (use assms(3,4) b in simp)
qed

lemma dispatch_step:
  assumes inv: "tcp_inv uc lfd pre st" and clear: "flags_clear st" and ch: "chans st a = Some ch"
    and w: "w \<longrightarrow> enable_arr ch WRITE" and new: "ch_fd ch = lfd \<Longrightarrow> io_accept env \<notin> live_fds st"
    and run: "dispatch (run_tcp uc across env) (a, r, w) st = Inr st'"
  shows "tcp_inv uc lfd pre st' \<and> flags_clear st' \<and> away a st st' \<and> (ch_fd ch \<noteq> lfd \<longrightarrow> live_fds st' = live_fds st)"
proof -
  let ?ch = "ch\<lparr>trigger_arr := (\<lambda>_. False)(READ := r, WRITE := w)\<rparr>" and ?run = "run_tcp uc across env"
  define st0 where "st0 = put_channel a ?ch st"
  have flags: "trigger_arr ch = (\<lambda>_. False)" using clear ch by (simp add: flags_clear_def)
  have "channel_events ?run a st0 = Inr st'"
    using run ch flags by (cases r; cases w)
      (simp_all add: dispatch_def with_channel_def st0_def ch_trigger_def fun_upd_idem idle_channel)
  then obtain st1 where st1: "channel_event ?run a READ st0 = Inr st1" "channel_event ?run a WRITE st1 = Inr st'"
    by (auto simp: channel_events_def bind_res_Inr_iff)
  have inv0: "tcp_inv uc lfd pre st0" unfolding st0_def by (rule tcp_inv_trigger [OF inv ch])
  have fds0: "live_fds st0 = live_fds st" unfolding st0_def by (rule reactor_inv_trigger [OF tcp_invD(1) [OF inv] ch])
  have ch0: "chans st0 a = Some ?ch" by (simp add: st0_def)
  have "enable_arr ?ch READ" using tcp_invD(5) [OF inv ch] by (simp add: linked_def)
  then have ok0: "trigger_arr ?ch READ \<Longrightarrow> enable_arr ?ch READ" by simp
  have new0: "ch_fd ?ch = lfd \<Longrightarrow> io_accept env \<notin> live_fds st0" using new fds0 by simp
  obtain ch1 where ch1: "tcp_inv uc lfd pre st1" "chans st1 a = Some ch1" "ch_fd ch1 = ch_fd ?ch"
      "trigger_arr ch1 = (trigger_arr ?ch)(READ := False)" "READ = READ \<and> enable_arr ?ch WRITE \<longrightarrow> enable_arr ch1 WRITE"
      "away a st0 st1" "ch_fd ?ch \<noteq> lfd \<longrightarrow> live_fds st1 = live_fds st0"
    by (rule event_step [OF inv0 ch0 ok0 new0 st1(1)])
  have no_accept: "trigger_arr ch1 WRITE \<Longrightarrow> ch_fd ch1 \<noteq> lfd"
    using tcp_invD(5) [OF inv ch] w ch1(3,4) by (auto simp: linked_def)
  have ok1: "trigger_arr ch1 WRITE \<Longrightarrow> enable_arr ch1 WRITE" using ch1(4,5) w by simp
  have new1: "trigger_arr ch1 WRITE \<Longrightarrow> ch_fd ch1 = lfd \<Longrightarrow> io_accept env \<notin> live_fds st1" using no_accept by simp
  obtain ch2 where ch2: "tcp_inv uc lfd pre st'" "chans st' a = Some ch2" "ch_fd ch2 = ch_fd ch1"
      "trigger_arr ch2 = (trigger_arr ch1)(WRITE := False)" "away a st1 st'" "ch_fd ch1 \<noteq> lfd \<longrightarrow> live_fds st' = live_fds st1"
  proof (cases "trigger_arr ch1 WRITE")
    case True
    show ?thesis by (rule event_step [OF ch1(1,2) ok1 new1 [OF True] st1(2)], assumption, assumption) (rule that)
  next
    case False
    then have "st' = st1" "(trigger_arr ch1)(WRITE := False) = trigger_arr ch1"
      using st1(2) ch1(2) by (simp_all add: channel_event_def with_channel_def fun_upd_idem)
    then show ?thesis using ch1 by (intro that [of ch1]) (auto simp: away_def)
  qed
  have away: "away a st st'" using away_trans [OF ch1(6) ch2(5)] by (simp add: st0_def)
  have "trigger_arr ch2 et = False" for et using ch2(4) ch1(4) by (cases et) simp_all
  then have "trigger_arr ch2 = (\<lambda>_. False)" by blast
  then have "flags_clear st'" using away_flags [OF clear away ch2(2)] by simp
  then show ?thesis using ch2 ch1 away fds0 by simp
qed

lemma dispatch_all_steps:
  assumes "tcp_inv uc lfd pre st" and "flags_clear st" and "distinct (map fst es)"
    and "\<And>a r w. (a, r, w) \<in> set es \<Longrightarrow> \<exists>ch. chans st a = Some ch \<and> (w \<longrightarrow> enable_arr ch WRITE)
      \<and> (ch_fd ch = lfd \<longrightarrow> io_accept env \<notin> live_fds st)"
    and "dispatch_all (run_tcp uc across env) i es st = Inr st'"
  shows "tcp_inv uc lfd pre st' \<and> flags_clear st'"
  using assms
proof (induction es arbitrary: i st)
  case (Cons e es)
  obtain a r w where e: "e = (a, r, w)" by (cases e)
  obtain st1 where st1: "dispatch (run_tcp uc across env) (a, r, w) st = Inr st1"
      "dispatch_all (run_tcp uc across env) (i + 1) es st1 = Inr st'"
    using Cons.prems(5) by (auto simp: e bind_res_Inr_iff split: if_splits)
  obtain ch where ch: "chans st a = Some ch" "w \<longrightarrow> enable_arr ch WRITE" "ch_fd ch = lfd \<longrightarrow> io_accept env \<notin> live_fds st"
    using Cons.prems(4) [of a r w] by (auto simp: e)
  have step: "tcp_inv uc lfd pre st1" "flags_clear st1" "away a st st1" "ch_fd ch \<noteq> lfd \<longrightarrow> live_fds st1 = live_fds st"
    using dispatch_step [OF Cons.prems(1,2) ch(1,2) _ st1(1)] ch(3) by simp_all
  show ?case
  proof (rule Cons.IH [OF step(1,2) _ _ st1(2)])
    show "distinct (map fst es)" using Cons.prems(3) by simp
    fix b r' w' assume b: "(b, r', w') \<in> set es"
    then have "b \<noteq> a" using Cons.prems(3) by (force simp: e)
    obtain chb where chb: "chans st b = Some chb" "w' \<longrightarrow> enable_arr chb WRITE" "ch_fd chb = lfd \<longrightarrow> io_accept env \<notin> live_fds st"
      using Cons.prems(4) [of b r' w'] b by auto
    then obtain chb' where chb': "chans st1 b = Some chb'" "ch_fd chb' = ch_fd chb" "enable_arr chb WRITE \<longrightarrow> enable_arr chb' WRITE"
      using step(3) \<open>b \<noteq> a\<close> unfolding away_def by blast
    have "ch_fd ch \<noteq> ch_fd chb" using inv_owner [OF tcp_invD(1) [OF Cons.prems(1)] ch(1) chb(1)] \<open>b \<noteq> a\<close> by auto
    then have "ch_fd chb' = lfd \<longrightarrow> io_accept env \<notin> live_fds st1" using chb(3) chb'(2) step(4) by simp
    then show "\<exists>ch. chans st1 b = Some ch \<and> (w' \<longrightarrow> enable_arr ch WRITE) \<and> (ch_fd ch = lfd \<longrightarrow> io_accept env \<notin> live_fds st1)"
      using chb' chb(2) by auto
  qed
qed simp

lemma reports_distinct:
  assumes "reactor_inv st" and "distinct (map fst ready)"
  shows "distinct (map fst (List.map_filter (report_of (epoll st)) ready))"
  using assms(2)
proof (induction ready)
  case (Cons x ready)
  show ?case
  proof (cases "report_of (epoll st) x")
    case None
    then show ?thesis using Cons by (simp add: map_filter_simps)
  next
    case (Some e)
    obtain a r w where e: "e = (a, r, w)" by (cases e)
    have "a \<noteq> fst y" if y: "y \<in> set (List.map_filter (report_of (epoll st)) ready)" for y
    proof
      assume "a = fst y"
      then obtain r' w' where "y = (a, r', w')" by (cases y) simp
      then obtain z where z: "z \<in> set ready" "report_of (epoll st) z = Some (a, r', w')"
        using y by (auto simp: List.map_filter_def simp del: split_paired_Ex)
      have "fst z = fst x" using report_live [OF assms(1) z(2)] report_live [OF assms(1), of x a r w] Some e by auto
      then show False using Cons.prems z(1) by (auto simp: image_iff intro: rev_bexI)
    qed
    then have "a \<notin> fst ` set (List.map_filter (report_of (epoll st)) ready)" by auto
    then show ?thesis using Cons Some by (simp add: map_filter_simps e)
  qed
qed (simp add: map_filter_simps)

lemma tcp_inv_epoll:
  assumes "tcp_inv uc lfd pre st" and "\<And>fd. disarmed (epoll st fd) (ep fd)"
  shows "tcp_inv uc lfd pre (st\<lparr>epoll := ep\<rparr>)"
  using assms(1) inv_wait [OF tcp_invD(1) [OF assms(1)] assms(2)]
  by (simp add: tcp_inv_def abs_server_def live_fds_def)

lemma poll_steps:
  assumes inv: "tcp_inv uc lfd pre st" and clear: "flags_clear st" and dist: "distinct (map fst ready)"
    and new: "io_accept env \<notin> live_fds st" and run: "poll (run_tcp uc across env) ready st = Inr st'"
  shows "tcp_inv uc lfd pre st' \<and> flags_clear st'"
proof -
  note rinv = tcp_invD(1) [OF inv]
  let ?es = "List.map_filter (report_of (epoll st)) ready" and ?ep = "snd (epoll_wait (event_count st) ready (epoll st))"
  let ?st = "st\<lparr>epoll := ?ep\<rparr>"
  have "length ?es \<le> event_count st"
    using reports_fit [OF dist inv_sets(2) [OF rinv]] inv_sets(3) [OF rinv] by linarith
  then have "fst (epoll_wait (event_count st) ready (epoll st)) = ?es" by (rule epoll_wait_reports [OF dist])
  then have all: "dispatch_all (run_tcp uc across env) 0 ?es ?st = Inr st'" using run by (simp add: poll_def case_prod_beta)
  have inv': "tcp_inv uc lfd pre ?st" by (rule tcp_inv_epoll [OF inv]) (rule epoll_wait_disarms)
  show ?thesis
  proof (rule dispatch_all_steps [OF inv' _ reports_distinct [OF rinv dist] _ all])
    show "flags_clear ?st" using clear by (simp add: flags_clear_def)
    fix a r w assume "(a, r, w) \<in> set ?es"
    then obtain x where x: "report_of (epoll st) x = Some (a, r, w)"
      by (auto simp: List.map_filter_def simp del: split_paired_Ex)
    show "\<exists>ch. chans ?st a = Some ch \<and> (w \<longrightarrow> enable_arr ch WRITE) \<and> (ch_fd ch = lfd \<longrightarrow> io_accept env \<notin> live_fds ?st)"
      using report_live [OF rinv x] new by (auto simp: live_fds_def)
  qed
qed

section \<open>The removals\<close>

lemma destroy_channel_live:
  assumes "reactor_inv st" and "chans st a = Some ch"
  obtains st' where "destroy_channel a st = Inr st'" and "reactor_inv st'" and "chans st' = (chans st)(a := None)"
    and "reactor.more st' = reactor.more st" and "live_fds st' = live_fds st - {ch_fd ch}"
proof -
  obtain st' where st': "destroy_channel a st = Inr st'" "reactor_inv st'" and chans: "chans st' = (chans st)(a := None)"
    using destroy_live [OF assms] by blast
  have "live_fds st' = live_fds st - {ch_fd ch}"
  proof (intro set_eqI iffI)
    fix fd assume "fd \<in> live_fds st'"
    then obtain b chb where b: "chans st' b = Some chb" "ch_fd chb = fd" by (blast elim: live_fdsE)
    then have "b \<noteq> a" "chans st b = Some chb" using chans by (auto split: if_splits)
    then show "fd \<in> live_fds st - {ch_fd ch}"
      using inv_owner [OF assms(1), of b chb a ch] assms(2) b(2) live_fdsI by auto
  next
    fix fd assume fd: "fd \<in> live_fds st - {ch_fd ch}"
    then obtain b chb where b: "chans st b = Some chb" "ch_fd chb = fd" by (blast elim: live_fdsE)
    then have "b \<noteq> a" using fd assms(2) by auto
    then show "fd \<in> live_fds st'" using live_fdsI [of st' b chb] b chans by simp
  qed
  then show ?thesis using st' chans more_destroy_channel [OF st'(1)] by (intro that)
qed

lemma remove_step:
  assumes inv: "tcp_inv uc lfd (fd # fds) st" and clear: "flags_clear st" and todo: "todo (tcp st) = []"
  obtains st' where "tcp_remove_conn fd st = Inr st'" and "tcp_inv uc lfd fds st'" and "flags_clear st'" and "todo (tcp st') = []"
proof -
  note invD = tcp_invD [OF inv]
  have rem: "removals (abs_server (fd # fds) st) = fd # fds" by (simp add: abs_server_def todo)
  obtain sv where sv: "remove_conn fd ((abs_server (fd # fds) st)\<lparr>removals := fds\<rparr>) = Inr sv"
      "conn_map sv = (table (tcp st))(fd := None)" "open_fds sv = dom (table (tcp st)) - {fd}" "removals sv = fds"
    using removal_ok [OF server_reach_inv [OF invD(2)] rem] by (auto simp: abs_server_def)
  have reach: "server_reach uc sv" by (rule server_reach.step [OF invD(2) server_step.removal [OF rem sv(1)]])
  obtain c where c: "table (tcp st) fd = Some c"
    using sv(1) by (auto simp: remove_conn_def abs_server_def split: option.splits)
  obtain a ch where ch: "chan_of (tcp st) fd = Some a" "chans st a = Some ch" "ch_fd ch = fd"
    by (rule conn_channel [OF inv c])
  obtain st1 where st1: "destroy_channel a st = Inr st1" "reactor_inv st1" "chans st1 = (chans st)(a := None)"
      "tcp st1 = tcp st" "live_fds st1 = live_fds st - {ch_fd ch}"
    by (rule destroy_channel_live [OF invD(1) ch(2)])
  let ?m = "(tcp st)\<lparr>table := (table (tcp st))(fd := None), chan_of := (chan_of (tcp st))(fd := None)\<rparr>"
  let ?st = "put_tcp ?m st1"
  have "abs_server fds ?st = sv"
    using sv(2-4) todo by (simp add: abs_server_def)
  moreover have "linked lfd ?m b chb" if b: "chans st1 b = Some chb" for b chb
  proof -
    have "b \<noteq> a" and chb: "chans st b = Some chb" using b st1(3) by (auto split: if_splits)
    then have "ch_fd chb \<noteq> fd" using inv_owner [OF invD(1) chb ch(2)] ch(3) by auto
    then show ?thesis using invD(5) [OF chb] by (simp add: linked_def)
  qed
  moreover have "fd \<noteq> lfd" using c invD(3) by auto
  ultimately have "tcp_inv uc lfd fds ?st"
    using reach st1(2,5) invD(3,4) ch(3) by (simp add: tcp_inv_def) blast
  moreover have "flags_clear ?st" using clear by (simp add: flags_clear_def st1(3))
  moreover have "tcp_remove_conn fd st = Inr ?st" by (simp add: tcp_remove_conn_def c ch(1) st1(1,4))
  ultimately show ?thesis using todo by (intro that [of ?st]) simp_all
qed

lemma removals_step:
  assumes "tcp_inv uc lfd fds st" and "flags_clear st" and "todo (tcp st) = []"
  shows "\<exists>st'. run_removals fds st = Inr st' \<and> tcp_inv uc lfd [] st' \<and> flags_clear st' \<and> todo (tcp st') = []"
  using assms
proof (induction fds arbitrary: st)
  case (Cons fd fds)
  obtain st1 where st1: "tcp_remove_conn fd st = Inr st1" "tcp_inv uc lfd fds st1" "flags_clear st1" "todo (tcp st1) = []"
    by (rule remove_step [OF Cons.prems])
  then show ?case using Cons.IH [OF st1(2-4)] by simp
qed simp

lemma turn_step:
  assumes "tcp_inv uc lfd [] st" and "flags_clear st" and "distinct (map fst ready)"
    and "io_accept env \<notin> live_fds st" and "tcp_turn uc across env ready st = Inr st'"
  shows "tcp_inv uc lfd [] st' \<and> flags_clear st' \<and> todo (tcp st') = []"
proof -
  obtain st1 where st1: "poll (run_tcp uc across env) ready st = Inr st1"
      "run_removals (todo (tcp st1)) (put_tcp ((tcp st1)\<lparr>todo := []\<rparr>) st1) = Inr st'"
    using assms(5) by (auto simp: tcp_turn_def bind_res_Inr_iff)
  have inv1: "tcp_inv uc lfd [] st1" "flags_clear st1" using poll_steps [OF assms(1-4) st1(1)] by simp_all
  let ?st = "put_tcp ((tcp st1)\<lparr>todo := []\<rparr>) st1"
  have "tcp_inv uc lfd (todo (tcp st1)) ?st"
    using inv1(1) by (simp add: tcp_inv_def abs_server_def linked_def)
  moreover have "flags_clear ?st" "todo (tcp ?st) = []" using inv1(2) by simp_all
  ultimately show ?thesis using removals_step [of uc lfd "todo (tcp st1)" ?st] st1(2) by auto
qed

section \<open>Properties\<close>

lemma start_step:
  assumes "tcp_start env = Inr st"
  shows "tcp_inv uc (socket_ret env) [] st \<and> flags_clear st \<and> todo (tcp st) = []"
proof -
  let ?m = "\<lparr>table = (\<lambda>_. None), chan_of = (\<lambda>_. None), todo = []\<rparr>"
  let ?st0 = "reactor.extend new_reactor ?m :: tcp_loop" and ?fd = "socket_ret env"
  have trunc: "reactor.truncate ?st0 = new_reactor" by (simp add: reactor.truncate_def reactor.extend_def new_reactor_def)
  have st0: "reactor_inv ?st0" "live_fds ?st0 = {}" "flags_clear ?st0" "chans ?st0 = (\<lambda>_. None)" "tcp ?st0 = ?m"
    by (metis truncate_inv trunc inv_new)
      (simp_all add: live_fds_def flags_clear_def reactor.extend_def new_reactor_def)
  obtain x where x: "open_acceptor False env Accept_read ?st0 = Inr x" "st = snd (snd x)"
    using assms by (auto simp: tcp_start_def bind_res_Inr_iff split: prod.splits)
  have "create_listen_fd False env \<noteq> Inl Assert_abort" using x(1) by (auto simp: open_acceptor_def)
  then have ok: "0 \<le> ?fd" "0 \<le> reuse_ret env" "0 \<le> bind_ret env" "0 \<le> listen_ret env"
    by (auto simp: create_listen_fd_def assert_call_def c_assert_def split: if_splits)
  define ch :: "tcp_cb channel" where "ch = (blank_channel ?fd)\<lparr>cb_arr := [READ \<mapsto> Accept_read], enable_arr := (\<lambda>_. False)(READ := True)\<rparr>"
  have "?fd \<notin> live_fds ?st0" by (simp add: st0(2))
  from acceptor_opened [OF st0(1) this ok, of False Accept_read] x
  have st: "reactor_inv st" "chans st = (chans ?st0)(next_addr ?st0 \<mapsto> ch)" "tcp st = ?m"
    by (auto simp: ch_def st0(5))
  have chans: "chans st = [next_addr ?st0 \<mapsto> ch]" using st(2) st0(4) by simp
  have ch: "ch_fd ch = ?fd" "trigger_arr ch = (\<lambda>_. False)" by (simp_all add: ch_def blank_channel_def)
  have "live_fds st = {?fd}" using live_fds_put [OF st(2)] st0(2,4) ch(1) by simp
  moreover have "server_reach uc (abs_server [] st)"
    using server_reach.start [of uc] by (simp add: abs_server_def st(3) new_server_def)
  moreover have "linked ?fd (tcp st) a chb" if "chans st a = Some chb" for a chb
    using that chans by (auto simp: linked_def ch_def blank_channel_def split: if_splits)
  ultimately show ?thesis
    using st(1,3) chans ch(2) by (simp add: tcp_inv_def flags_clear_def)
qed

lemma tcp_reach_inv: "tcp_reach uc across lfd st \<Longrightarrow> tcp_inv uc lfd [] st \<and> flags_clear st \<and> todo (tcp st) = []"
proof (induction rule: tcp_reach.induct)
  case (started env st)
  then show ?case using start_step by blast
next
  case (turned st ready env st')
  then show ?case using turn_step [of uc lfd st ready env across st'] by blast
qed

lemma registered:
  assumes "tcp_inv uc lfd pre st" and "chans st a = Some ch"
  shows "epoll st (ch_fd ch) = Some \<lparr>i_ptr = a, i_in = True, i_out = enable_arr ch WRITE, i_oneshot = False\<rparr>"
proof -
  have "\<not> is_once ch" "enable_arr ch READ" using tcp_invD(5) [OF assms] by (simp_all add: linked_def)
  then show ?thesis
    using inv_channel [OF tcp_invD(1) [OF assms(1)] assms(2)]
    by (auto simp: channel_ok_def mirrors_def wanted_def split: option.splits)
qed

text \<open>
  C11: The callback server on its loop refines its table of connections. Whatever descriptors
  epoll reports in each turn, whatever the system calls return and whatever the users'
  callbacks do, to their own connection and to others, as long as no exception ends the
  server: between turns its connections are in a state that the table of connections reaches,
  with no removal left over and no closed connection in it; the descriptors with a channel
  are those of the connections and the acceptor; and epoll knows exactly these, asks for
  reading on all of them, and for writing on a connection exactly when it has enabled it.
\<close>

theorem tcp_server_refines:
  assumes "tcp_reach uc across lfd st"
  shows "server_reach uc \<lparr>conn_map = table (tcp st), open_fds = dom (table (tcp st)), removals = []\<rparr>
    \<and> todo (tcp st) = [] \<and> live_fds st = insert lfd (dom (table (tcp st))) \<and> dom (epoll st) = live_fds st
    \<and> (\<forall>fd c. table (tcp st) fd = Some c \<longrightarrow> cstate c \<noteq> FULL_CLOSE
        \<and> (\<exists>a. epoll st fd = Some \<lparr>i_ptr = a, i_in = True, i_out = write_enabled c, i_oneshot = False\<rparr>))"
proof -
  have inv: "tcp_inv uc lfd [] st" and todo: "todo (tcp st) = []" using tcp_reach_inv [OF assms] by simp_all
  note invD = tcp_invD [OF inv]
  have reach: "server_reach uc \<lparr>conn_map = table (tcp st), open_fds = dom (table (tcp st)), removals = []\<rparr>"
    using invD(2) by (simp add: abs_server_def todo)
  have "closed_fds \<lparr>conn_map = table (tcp st), open_fds = dom (table (tcp st)), removals = []\<rparr> = {}"
    using server_reach_inv [OF reach] by (simp add: server_inv_def)
  then have alive: "cstate c \<noteq> FULL_CLOSE" if "table (tcp st) fd = Some c" for fd c
    using that by (auto simp: closed_fds_def)
  have known: "epoll st fd \<noteq> None" if "fd \<in> live_fds st" for fd
    using that registered [OF inv] by (fastforce elim: live_fdsE)
  have dom: "dom (epoll st) = live_fds st" using inv_sets(4) [OF invD(1)] known by auto
  have "\<exists>a. epoll st fd = Some \<lparr>i_ptr = a, i_in = True, i_out = write_enabled c, i_oneshot = False\<rparr>"
    if c: "table (tcp st) fd = Some c" for fd c
  proof -
    obtain a ch where ch: "chans st a = Some ch" "ch_fd ch = fd" "enable_arr ch WRITE = write_enabled c"
      by (rule conn_channel [OF inv c])
    then show ?thesis using registered [OF inv ch(1)] by simp
  qed
  then show ?thesis using reach todo invD(4) dom alive by simp
qed

section \<open>Turns that can be foreseen\<close>

text \<open>No registration of the server is one-shot, so waiting changes nothing in the kernel.\<close>

lemma epoll_wait_lasting:
  "(\<And>fd i. ep fd = Some i \<Longrightarrow> \<not> i_oneshot i) \<Longrightarrow> snd (epoll_wait n xs ep) = ep"
proof (induction n xs ep rule: epoll_wait.induct)
  case (3 n x xs ep)
  have "disarm x ep = ep" using "3.prems" by (auto simp: disarm_def split: option.split)
  then show ?case using 3 by (auto simp: case_prod_beta Let_def split: option.split)
qed simp_all

lemma poll_dispatch:
  assumes inv: "tcp_inv uc lfd pre st" and dist: "distinct (map fst ready)"
  shows "poll run ready st = dispatch_all run 0 (List.map_filter (report_of (epoll st)) ready) st"
proof -
  note rinv = tcp_invD(1) [OF inv]
  let ?es = "List.map_filter (report_of (epoll st)) ready"
  have "length ?es \<le> event_count st"
    using reports_fit [OF dist inv_sets(2) [OF rinv]] inv_sets(3) [OF rinv] by linarith
  then have "fst (epoll_wait (event_count st) ready (epoll st)) = ?es" by (rule epoll_wait_reports [OF dist])
  moreover have "\<not> i_oneshot i" if i: "epoll st fd = Some i" for fd i
  proof -
    have "fd \<in> live_fds st" using inv_sets(4) [OF rinv] i by auto
    then obtain a ch where "chans st a = Some ch" "ch_fd ch = fd" by (blast elim: live_fdsE)
    then show ?thesis using registered [OF inv, of a ch] i by simp
  qed
  then have "snd (epoll_wait (event_count st) ready (epoll st)) = epoll st" by (rule epoll_wait_lasting)
  ultimately show ?thesis by (simp add: poll_def case_prod_beta)
qed

text \<open>The event list has room for every descriptor of the server, also in the middle of a poll.\<close>

lemma event_room:
  assumes inv: "tcp_inv uc lfd pre st"
  shows "finite (live_fds st)" and "card (live_fds st) \<le> event_count st"
proof -
  note rinv = tcp_invD(1) [OF inv]
  have "epoll st fd \<noteq> None" if "fd \<in> live_fds st" for fd
    using that registered [OF inv] by (fastforce elim: live_fdsE)
  then have "dom (epoll st) = live_fds st" using inv_sets(4) [OF rinv] by auto
  then show "finite (live_fds st)" "card (live_fds st) \<le> event_count st" using inv_sets(2,3) [OF rinv] by simp_all
qed

text \<open>A channel that is readable only.\<close>

lemma reported:
  assumes "tcp_inv uc lfd pre st" and "chans st a = Some ch"
  shows "report_of (epoll st) (ch_fd ch, True, False) = Some (a, True, False)"
  using registered [OF assms] by (simp add: report_of_def)

lemma dispatch_read:
  assumes "chans st a = Some ch" and "trigger_arr ch = (\<lambda>_. False)" and "cb_arr ch READ = Some cb"
  shows "dispatch run (a, True, False) st =
    bind_res (run cb (put_channel a (ch\<lparr>trigger_arr := (\<lambda>_. False)(READ := True)\<rparr>) st)) (\<lambda>st1.
    with_channel a st1 (\<lambda>ch1. channel_event run a WRITE (put_channel a (ch_trigger READ False ch1) st1)))"
  using assms by (cases "run cb (put_channel a (ch\<lparr>trigger_arr := (\<lambda>_. False)(READ := True)\<rparr>) st)")
    (auto simp: dispatch_def channel_events_def channel_event_def with_channel_def ch_trigger_def split: option.split)

text \<open>A client that connects is given its connection in the turn in which the acceptor is reported.\<close>

lemma accept_turn:
  assumes reach: "tcp_reach uc across lfd st" and fd: "0 \<le> fd" "fd \<notin> live_fds st" "io_accept env = fd"
    and c: "new_conn uc = Inr c" "n_removals c = 0" and room: "card (dom (table (tcp st))) < max_conn_num"
  shows "\<exists>st'. tcp_turn uc across env [(lfd, True, False)] st = Inr st' \<and> tcp_reach uc across lfd st'
    \<and> table (tcp st') = (table (tcp st))(fd \<mapsto> c) \<and> live_fds st' = insert fd (live_fds st)"
proof -
  let ?run = "run_tcp uc across env"
  have inv: "tcp_inv uc lfd [] st" and clear: "flags_clear st" and todo: "todo (tcp st) = []"
    using tcp_reach_inv [OF reach] by simp_all
  obtain a ch where ch: "chans st a = Some ch" "ch_fd ch = lfd" "cb_arr ch READ = Some Accept_read"
  proof -
    have "lfd \<in> live_fds st" using tcp_invD(4) [OF inv] by simp
    then obtain a ch where "chans st a = Some ch" "ch_fd ch = lfd" by (blast elim: live_fdsE)
    then show ?thesis using tcp_invD(5) [OF inv] that by (simp add: linked_def)
  qed
  have flags: "trigger_arr ch = (\<lambda>_. False)" using clear ch(1) by (simp add: flags_clear_def)
  let ?ch = "ch\<lparr>trigger_arr := (\<lambda>_. False)(READ := True)\<rparr>"
  define st0 where "st0 = put_channel a ?ch st"
  have inv0: "tcp_inv uc lfd [] st0" unfolding st0_def by (rule tcp_inv_trigger [OF inv ch(1)])
  have same: "tcp st0 = tcp st" "chans st0 = (chans st)(a \<mapsto> ?ch)" by (simp_all add: st0_def)
  have fds0: "live_fds st0 = live_fds st" using tcp_invD(4) [OF inv0] tcp_invD(4) [OF inv] same(1) by simp
  have new: "fd \<notin> live_fds st0" using fd(2) fds0 by simp
  obtain ch1 st1 where st1: "open_conn uc fd st0 = Inr st1" "reactor_inv st1" "chans st1 = (chans st0)(next_addr st0 \<mapsto> ch1)"
      "ch_fd ch1 = fd" "\<not> is_once ch1" "cb_arr ch1 = [READ \<mapsto> Conn_read fd, WRITE \<mapsto> Conn_write fd]"
      "enable_arr ch1 READ" "enable_arr ch1 WRITE = write_enabled c" "trigger_arr ch1 = (\<lambda>_. False)"
      "tcp st1 = (tcp st0)\<lparr>table := (table (tcp st0))(fd \<mapsto> c), chan_of := (chan_of (tcp st0))(fd \<mapsto> next_addr st0),
         todo := todo (tcp st0) @ replicate (n_removals c) fd\<rparr>"
    by (rule open_conn_chans [OF tcp_invD(1) [OF inv0] fd(1) new c(1)])
  have "a \<noteq> next_addr st0"
    using inv_channel [OF tcp_invD(1) [OF inv0], of a ?ch] by (auto simp: same channel_ok_def)
  then have at1: "chans st1 a = Some ?ch" by (simp add: st1(3) same(2))
  have "table (tcp st) fd = None" using fd(2) tcp_invD(4) [OF inv] by auto
  then have "?run Accept_read st0 = Inr st1"
    using st1(1) fd(1,3) room by (simp add: run_tcp_def tcp_accept_def tcp_create_conn_def same(1))
  then have "dispatch ?run (a, True, False) st
      = channel_event ?run a WRITE (put_channel a (ch_trigger READ False ?ch) st1)"
    using dispatch_read [of st a ch Accept_read ?run] ch flags at1
    by (simp add: st0_def with_channel_def)
  also have "\<dots> = Inr (put_channel a (ch_trigger READ False ?ch) st1)"
    by (simp add: channel_event_def with_channel_def)
  finally have served: "dispatch ?run (a, True, False) st = Inr (put_channel a (ch_trigger READ False ?ch) st1)" .
  have "lfd \<in> live_fds st" using tcp_invD(4) [OF inv] by simp
  then have "0 < event_count st"
    using event_room [OF inv] card_gt_0_iff [of "live_fds st"] by (metis empty_iff less_le_trans)
  then have poll: "poll ?run [(lfd, True, False)] st = Inr (put_channel a (ch_trigger READ False ?ch) st1)"
    using poll_dispatch [OF inv, of "[(lfd, True, False)]" ?run] reported [OF inv ch(1)] ch(2) served
    by (simp add: map_filter_simps)
  let ?st = "put_tcp ((tcp st1)\<lparr>todo := []\<rparr>) (put_channel a (ch_trigger READ False ?ch) st1)"
  have "todo (tcp st1) = []" using c(2) todo by (simp add: st1(10) same(1))
  then have turn: "tcp_turn uc across env [(lfd, True, False)] st = Inr ?st" by (simp add: tcp_turn_def poll)
  moreover have "tcp_reach uc across lfd ?st" by (rule tcp_reach.turned [OF reach _ _ turn]) (use fd in simp_all)
  moreover have "table (tcp ?st) = (table (tcp st))(fd \<mapsto> c)" by (simp add: st1(10) same(1))
  moreover have "live_fds ?st = insert fd (live_fds st)"
    using tcp_reach_inv [OF calculation(2)] tcp_invD(4) [of uc lfd "[]" ?st] calculation(3) tcp_invD(4) [OF inv] by auto
  ultimately show ?thesis by blast
qed

section \<open>Closing another connection\<close>

text \<open>The read event of one connection, when nothing of it is to be written.\<close>

lemma read_event:
  assumes inv: "tcp_inv uc lfd pre st" and clear: "flags_clear st" and c: "table (tcp st) fd = Some c"
    and a: "chans st a = Some ch" "ch_fd ch = fd"
  obtains st0 where "tcp_inv uc lfd pre st0" and "tcp st0 = tcp st"
    and "\<forall>st1. conn_read uc across (io_read env fd) fd st0 = Inr st1 \<longrightarrow>
      (\<exists>st'. dispatch (run_tcp uc across env) (a, True, False) st = Inr st' \<and> tcp st' = tcp st1)"
    and "\<forall>e. conn_read uc across (io_read env fd) fd st0 = Inl e \<longrightarrow>
      dispatch (run_tcp uc across env) (a, True, False) st = Inl e"
proof -
  have flags: "trigger_arr ch = (\<lambda>_. False)" using clear a(1) by (simp add: flags_clear_def)
  have "fd \<noteq> lfd" using c tcp_invD(3) [OF inv] by auto
  then have cb: "cb_arr ch READ = Some (Conn_read fd)" using tcp_invD(5) [OF inv a(1)] a(2) by (simp add: linked_def)
  let ?ch = "ch\<lparr>trigger_arr := (\<lambda>_. False)(READ := True)\<rparr>"
  let ?st0 = "put_channel a ?ch st"
  have inv0: "tcp_inv uc lfd pre ?st0" by (rule tcp_inv_trigger [OF inv a(1)])
  note run = dispatch_read [OF a(1) flags cb, of "run_tcp uc across env"]
  have "\<exists>st'. dispatch (run_tcp uc across env) (a, True, False) st = Inr st' \<and> tcp st' = tcp st1"
    if st1: "conn_read uc across (io_read env fd) fd ?st0 = Inr st1" for st1
  proof -
    have "grown {} ?st0 st1" using conn_read_step [OF inv0 st1] by simp
    then obtain ch1 where ch1: "chans st1 a = Some ch1" "trigger_arr ch1 = trigger_arr ?ch"
      unfolding grown_def by (metis fun_upd_same put_channel_simps(1))
    then show ?thesis using st1 by (simp add: run run_tcp_def with_channel_def channel_event_def)
  qed
  moreover have "dispatch (run_tcp uc across env) (a, True, False) st = Inl e"
    if "conn_read uc across (io_read env fd) fd ?st0 = Inl e" for e
    using that by (simp add: run run_tcp_def)
  ultimately show ?thesis by (intro that [OF inv0]) auto
qed

text \<open>Reading from a connection that is closed already.\<close>

lemma closed_read:
  assumes "conn_reach uc c" and "cstate c = FULL_CLOSE" and "bs = [] \<or> message_cb uc = Some (Do op k)"
  shows "handle_read uc (Read_data bs) c = Inl (if bs = [] then Runtime_error else closed_error op)"
proof -
  have "bufs_ok c" using conn_inv_reach [OF assms(1)] by (simp add: conn_inv_def)
  then have "init_capa div 2 \<le> remain_right (grow_for_read (read_buf c))"
    by (intro receive_room_lemma) (simp_all add: bufs_ok_def read_ok_def tight_buffer_def)
  then have room: "0 < remain_right (grow_for_read (read_buf c))" by (simp add: init_capa_def)
  obtain b where pf: "push_from (Read_data bs) (read_buf c) = (Read_data (take (remain_right (grow_for_read (read_buf c))) bs), b)"
    by (simp add: push_from_eq Let_def)
  have "cstate (c\<lparr>read_buf := b\<rparr>) = FULL_CLOSE" using assms(2) by simp
  note closed = do_api_closed [OF this, of uc op] this
  show ?thesis
    using assms(3) room closed by (auto simp: handle_read_def pf full_close_def)
qed

text \<open>
  C35: A callback that closes another connection ends the server. Take two connections of a server
  and one poll that reports both readable, first \<open>fd\<close>, then \<open>fd'\<close>. The read of \<open>fd\<close> delivers
  bytes, its message callback returns and has closed the connection \<open>fd'\<close>. After this half of the
  poll \<open>fd'\<close> is closed, still in the table, and its removal waits in the list of the loop. So
  the other half reads from it. If that read finds the end of the input, the connection is
  closed a second time, which throws; if it finds bytes and the message callback starts with an
  operation on its connection, that operation finds it closed and throws (aborts for
  \<open>half_close\<close>). This is the exception the turn ends with, and nothing catches it.
\<close>

theorem closing_another_crashes:
  assumes reach: "tcp_reach uc across lfd st" and live: "table (tcp st) fd = Some c" "table (tcp st) fd' = Some c'" "fd \<noteq> fd'"
    and message: "calls_message uc (io_read env fd) (Some c)" and own: "handle_read uc (io_read env fd) c = Inr c1"
    and closes: "across fd = [(fd', Full_close)]" and closed: "full_close uc c' = Inr c2"
    and later: "io_read env fd' = Read_data bs" "bs = [] \<or> message_cb uc = Some (Do op k)"
  shows "(\<exists>st1. poll (run_tcp uc across env) [(fd, True, False)] st = Inr st1
      \<and> table (tcp st1) fd = Some c1 \<and> table (tcp st1) fd' = Some c2 \<and> cstate c2 = FULL_CLOSE \<and> fd' \<in> set (todo (tcp st1)))
    \<and> handle_read uc (io_read env fd') c2 = Inl (if bs = [] then Runtime_error else closed_error op)
    \<and> tcp_turn uc across env [(fd, True, False), (fd', True, False)] st
      = Inl (if bs = [] then Runtime_error else closed_error op)"
proof -
  let ?run = "run_tcp uc across env" and ?e = "if bs = [] then Runtime_error else closed_error op"
  have inv: "tcp_inv uc lfd [] st" and clear: "flags_clear st" using tcp_reach_inv [OF reach] by simp_all
  obtain a ch where ch: "chans st a = Some ch" "ch_fd ch = fd" and cr: "conn_reach uc c" by (rule conn_channel [OF inv live(1)])
  obtain a' ch' where ch': "chans st a' = Some ch'" "ch_fd ch' = fd'" by (rule conn_channel [OF inv live(2)])
  obtain st0 where st0: "tcp_inv uc lfd [] st0" "tcp st0 = tcp st"
      "\<forall>st1. conn_read uc across (io_read env fd) fd st0 = Inr st1 \<longrightarrow>
        (\<exists>st'. dispatch ?run (a, True, False) st = Inr st' \<and> tcp st' = tcp st1)"
      "\<forall>e. conn_read uc across (io_read env fd) fd st0 = Inl e \<longrightarrow> dispatch ?run (a, True, False) st = Inl e"
    by (rule read_event [OF inv clear live(1) ch, of across env])
  have c0: "table (tcp st0) fd = Some c" using live(1) st0(2) by simp
  have step1: "conn_step uc c c1" by (rule read_step [OF reach_read_enabled [OF cr] own])
  have keep1: "fd \<notin> ({} :: int set) \<Longrightarrow> write_enabled c \<Longrightarrow> write_enabled c1" using read_keeps_write [OF own] by simp
  obtain t1 where t1: "on_conn fd (handle_read uc (io_read env fd)) st0 = Inr t1" "tcp_inv uc lfd [] t1" "grown {} st0 t1"
      "live_fds t1 = live_fds st0" "table (tcp t1) = (table (tcp st0))(fd \<mapsto> c1)"
    by (rule on_conn_step [OF st0(1) c0, where f = "handle_read uc (io_read env fd)", OF own step1 keep1])
  have c1: "table (tcp t1) fd' = Some c'" using t1(5) live(2,3) st0(2) by simp
  have api: "do_api uc Full_close c' = Inr ([], c2)" by (simp add: do_api_def closed)
  then have run2: "bind_res (do_api uc Full_close c') (\<lambda>sc. Inr (snd sc)) = Inr c2" by simp
  have keep2: "fd' \<notin> ({} :: int set) \<Longrightarrow> write_enabled c' \<Longrightarrow> write_enabled c2" using api_keeps_write [OF api] by simp
  obtain t2 where t2: "on_conn fd' (\<lambda>c. bind_res (do_api uc Full_close c) (\<lambda>sc. Inr (snd sc))) t1 = Inr t2"
      "tcp_inv uc lfd [] t2" "grown {} t1 t2" "live_fds t2 = live_fds t1" "table (tcp t2) = (table (tcp t1))(fd' \<mapsto> c2)"
    by (rule on_conn_step [OF t1(2) c1, where f = "\<lambda>c. bind_res (do_api uc Full_close c) (\<lambda>sc. Inr (snd sc))",
          OF run2 conn_step.user [OF api] keep2])
  have "conn_read uc across (io_read env fd) fd st0 = Inr t2"
    using t1(1) t2(1) message c0 by (simp add: conn_read_def closes api_on_def)
  then obtain st1 where st1: "dispatch ?run (a, True, False) st = Inr st1" "tcp st1 = tcp t2" using st0(3) by blast
  have full: "cstate c2 = FULL_CLOSE" using full_close_Inr [OF closed] by simp
  have tables: "table (tcp st1) fd = Some c1" "table (tcp st1) fd' = Some c2"
    using st1(2) t1(5) t2(5) live(3) by simp_all
  have "ch_fd ch \<noteq> lfd" using live(1) tcp_invD(3) [OF inv] ch(2) by auto
  then have step: "tcp_inv uc lfd [] st1" "flags_clear st1" "away a st st1"
    using dispatch_step [OF inv clear ch(1) _ _ st1(1)] by simp_all
  have "closed_fds (abs_server [] st1) = set (todo (tcp st1))"
    using server_reach_inv [OF tcp_invD(2) [OF step(1)]] by (simp add: server_inv_def abs_server_def)
  then have todo: "fd' \<in> set (todo (tcp st1))" using tables(2) full by (auto simp: closed_fds_def abs_server_def)
  have reports: "report_of (epoll st) (fd, True, False) = Some (a, True, False)" "report_of (epoll st) (fd', True, False) = Some (a', True, False)"
    using reported [OF inv ch(1)] reported [OF inv ch'(1)] ch(2) ch'(2) by simp_all
  have two: "1 < event_count t" if t: "tcp_inv uc lfd [] t" and fds: "{fd, fd'} \<subseteq> dom (table (tcp t))" for t
  proof -
    have "{fd, fd'} \<subseteq> live_fds t" using fds tcp_invD(4) [OF t] by auto
    then have "card {fd, fd'} \<le> card (live_fds t)" by (rule card_mono [OF event_room(1) [OF t]])
    then show ?thesis using event_room(2) [OF t] live(3) by simp
  qed
  have room: "1 < event_count st" by (rule two [OF inv]) (use live in auto)
  have room1: "1 < event_count st1" by (rule two [OF step(1)]) (use tables in auto)
  have "poll ?run [(fd, True, False)] st = Inr st1"
    using poll_dispatch [OF inv, of "[(fd, True, False)]" ?run] room by (simp add: map_filter_simps reports st1(1))
  then have first: "\<exists>st1. poll ?run [(fd, True, False)] st = Inr st1
      \<and> table (tcp st1) fd = Some c1 \<and> table (tcp st1) fd' = Some c2 \<and> cstate c2 = FULL_CLOSE \<and> fd' \<in> set (todo (tcp st1))"
    using tables full todo by blast
  have "conn_reach uc c2" by (rule conn_channel [OF step(1) tables(2)])
  from closed_read [OF this full later(2)] have fails: "handle_read uc (io_read env fd') c2 = Inl ?e" by (simp add: later(1))
  have "a' \<noteq> a" using ch ch' live(3) by auto
  then obtain ch1 where ch1: "chans st1 a' = Some ch1" "ch_fd ch1 = fd'" using step(3) ch' unfolding away_def by blast
  obtain u0 where u0: "tcp_inv uc lfd [] u0" "tcp u0 = tcp st1"
      "\<forall>st2. conn_read uc across (io_read env fd') fd' u0 = Inr st2 \<longrightarrow>
        (\<exists>st'. dispatch ?run (a', True, False) st1 = Inr st' \<and> tcp st' = tcp st2)"
      "\<forall>e. conn_read uc across (io_read env fd') fd' u0 = Inl e \<longrightarrow> dispatch ?run (a', True, False) st1 = Inl e"
    by (rule read_event [OF step(1,2) tables(2) ch1, of across env])
  have c2: "table (tcp u0) fd' = Some c2" using tables(2) u0(2) by simp
  obtain b where "chan_of (tcp u0) fd' = Some b" by (rule conn_channel [OF u0(1) c2])
  then have "conn_read uc across (io_read env fd') fd' u0 = Inl ?e"
    using fails c2 by (simp add: conn_read_def on_conn_def)
  then have "dispatch ?run (a', True, False) st1 = Inl ?e" using u0(4) by blast
  then have "tcp_turn uc across env [(fd, True, False), (fd', True, False)] st = Inl ?e"
    using poll_dispatch [OF inv, of "[(fd, True, False), (fd', True, False)]" ?run] live(3) room room1 st1(1)
    by (simp add: tcp_turn_def map_filter_simps reports)
  with first fails show ?thesis by blast
qed

text \<open>A server with two clients, 5 and 6, that echoes; a message of 5 closes 6.\<close>

definition echo_uc :: user_callback where
  "echo_uc = \<lparr>open_cb = None, close_cb = None,
     message_cb = Some (Do Get_data (\<lambda>s. Do (Send_data s) (\<lambda>_. Done))), write_high = None, write_lower = None\<rparr>"

definition kick :: cross where
  "kick fd = (if fd = 5 then [(6, Full_close)] else [])"

definition both_send :: tcp_env where
  "both_send = \<lparr>io_read = (\<lambda>_. Read_data ''hi''), io_write = (\<lambda>_. Write_count 0), io_accept = - 1\<rparr>"

lemma two_clients:
  "\<exists>st. tcp_reach echo_uc kick 4 st \<and> table (tcp st) = [5 \<mapsto> init_conn, 6 \<mapsto> init_conn]"
proof -
  let ?env = "\<lambda>fd. both_send\<lparr>io_accept := fd\<rparr>"
  have new: "new_conn echo_uc = Inr init_conn" "n_removals init_conn = 0"
    by (simp_all add: new_conn_def run_cb_def echo_uc_def n_removals_def init_conn_def)
  obtain st where st: "tcp_start \<lparr>socket_ret = 4, reuse_ret = 0, bind_ret = 0, listen_ret = 0\<rparr> = Inr st"
      "table (tcp st) = (\<lambda>_. None)"
    by (simp add: tcp_start_def open_acceptor_def create_listen_fd_def assert_call_def new_acceptor_def op_defs
        reactor.extend_def new_reactor_def Let_def)
  have r: "tcp_reach echo_uc kick 4 st" by (rule tcp_reach.started [OF st(1)]) simp
  have fds: "live_fds st = {4}" using tcp_invD(4) [of echo_uc 4 "[]" st] tcp_reach_inv [OF r] st(2) by simp
  obtain st1 where st1: "tcp_reach echo_uc kick 4 st1" "table (tcp st1) = [5 \<mapsto> init_conn]" "live_fds st1 = {5, 4}"
    using accept_turn [OF r, of 5 "?env 5", OF _ _ _ new] fds st(2) by (auto simp: max_conn_num_def)
  obtain st2 where st2: "tcp_reach echo_uc kick 4 st2" "table (tcp st2) = [5 \<mapsto> init_conn, 6 \<mapsto> init_conn]"
    using accept_turn [OF st1(1), of 6 "?env 6", OF _ _ _ new] st1(2,3) by (auto simp: max_conn_num_def)
  then show ?thesis by blast
qed

theorem tcp_server_refines_witness:
  "\<exists>st. tcp_reach echo_uc kick 4 st \<and> table (tcp st) = [5 \<mapsto> init_conn, 6 \<mapsto> init_conn] \<and> dom (epoll st) = {4, 5, 6}
    \<and> (\<exists>a. epoll st 6 = Some \<lparr>i_ptr = a, i_in = True, i_out = False, i_oneshot = False\<rparr>)"
proof -
  obtain st where st: "tcp_reach echo_uc kick 4 st" "table (tcp st) = [5 \<mapsto> init_conn, 6 \<mapsto> init_conn]"
    using two_clients by blast
  note t = tcp_server_refines [OF st(1)]
  have "dom (epoll st) = {4, 5, 6}" using t st(2) by auto
  moreover have "\<exists>a. epoll st 6 = Some \<lparr>i_ptr = a, i_in = True, i_out = write_enabled init_conn, i_oneshot = False\<rparr>"
    using t st(2) by simp
  ultimately show ?thesis using st by (auto simp: init_conn_def)
qed

theorem closing_another_crashes_witness:
  "\<exists>st. tcp_reach echo_uc kick 4 st
    \<and> tcp_turn echo_uc kick both_send [(5, True, False), (6, True, False)] st = Inl Runtime_error"
proof -
  obtain st where st: "tcp_reach echo_uc kick 4 st" "table (tcp st) = [5 \<mapsto> init_conn, 6 \<mapsto> init_conn]"
    using two_clients by blast
  have live: "table (tcp st) 5 = Some init_conn" "table (tcp st) 6 = Some init_conn" "(5 :: int) \<noteq> 6" using st(2) by simp_all
  note read = push_from_eq remain_right_def grow_for_read_def new_buffer_def vec_new_def vec_resize_def init_capa_def
  have message: "calls_message echo_uc (io_read both_send 5) (Some init_conn)"
    by (simp add: calls_message_def echo_uc_def both_send_def init_conn_def read)
  obtain b where b: "push_from (Read_data ''hi'') new_buffer = (Read_data ''hi'', b)" by (simp add: read)
  have "read_ok b" using read_ok_push_from [of new_buffer "Read_data ''hi''"] b by (simp add: read_ok_def)
  obtain c1 where c1: "handle_read echo_uc (io_read both_send 5) init_conn = Inr c1"
    using b by (cases "max_write_buf_size \<le> length (peek b)")
      (auto simp: handle_read_def echo_uc_def both_send_def init_conn_def do_api_def get_data_def send_data_def
        full_close_def run_close_cb_def Let_def)
  obtain c2 where c2: "full_close echo_uc init_conn = Inr c2"
    by (simp add: full_close_def echo_uc_def run_close_cb_def init_conn_def)
  have "kick 5 = [(6, Full_close)]" "io_read both_send 6 = Read_data ''hi''"
      "''hi'' = [] \<or> message_cb echo_uc = Some (Do Get_data (\<lambda>s. Do (Send_data s) (\<lambda>_. Done)))"
    by (simp_all add: kick_def both_send_def echo_uc_def)
  from closing_another_crashes [OF st(1) live message c1 this(1) c2 this(2,3)] show ?thesis
    using st(1) by (auto simp: closed_error_def)
qed

end
