(* ===== verification/CoServer.thy ===== *)
theory CoServer
  imports Scheduling
begin

text \<open>
  The coroutine server (\<open>TCPServer2\<close> and \<open>CoroutineSchedulerEventLoopPool\<close>,
  src/src/tcp/TCPServer2.cpp): one scheduler per loop, all of them with the same pool of
  coroutines (\<open>CoroutinePool\<close>, src/src/co/Coroutine.hpp), the last one with the accepting
  coroutine. A scheduler is that of \<open>Coroutines\<close>; the threads take turns, each for a step of its
  loop or an accept, which runs as a whole (\<open>CoRaces\<close> cuts them into statements). Sockets and
  addresses are left out.
\<close>

section \<open>Schedulers with one pool\<close>

text \<open>
  Every state has the fields of the pool; they are one object, so what a step of one scheduler
  does to them the others see. \<open>elsewhere\<close> of a scheduler is what is live on the others.
\<close>

definition live_outside :: "nat \<Rightarrow> co_state list \<Rightarrow> nat set" where
  "live_outside i sts = (\<Union>k \<in> {..<length sts} - {i}. co_map (sts ! k))"

definition see_pool :: "co_state \<Rightarrow> nat set \<Rightarrow> co_state \<Rightarrow> co_state" where
  "see_pool st others s =
     s\<lparr>co_count := co_count st, pool_queue := pool_queue st, next_co := next_co st, elsewhere := others\<rparr>"

definition share_pool :: "co_state \<Rightarrow> co_state list \<Rightarrow> co_state list" where
  "share_pool st sts = map (\<lambda>j. see_pool st (live_outside j sts) (sts ! j)) [0..<length sts]"

definition on_scheduler :: "(co_state \<Rightarrow> co_state res) \<Rightarrow> nat \<Rightarrow> co_state list \<Rightarrow> co_state list res" where
  "on_scheduler f i sts = bind_res (f (sts ! i)) (\<lambda>st. Inr (share_pool st (sts[i := st])))"

definition scheds_inv :: "co_state list \<Rightarrow> bool" where
  "scheds_inv sts \<longleftrightarrow> (\<forall>i < length sts. co_inv (sts ! i) \<and> elsewhere (sts ! i) = live_outside i sts)
     \<and> (\<forall>i < length sts. \<forall>j < length sts. co_count (sts ! i) = co_count (sts ! j)
         \<and> pool_queue (sts ! i) = pool_queue (sts ! j) \<and> next_co (sts ! i) = next_co (sts ! j))"

lemma scheds_invD:
  assumes "scheds_inv sts" and "i < length sts"
  shows "co_inv (sts ! i)" and "elsewhere (sts ! i) = live_outside i sts"
    and "j < length sts \<Longrightarrow> co_count (sts ! j) = co_count (sts ! i)"
    and "j < length sts \<Longrightarrow> pool_queue (sts ! j) = pool_queue (sts ! i)"
  using assms unfolding scheds_inv_def by blast+

lemma length_share [simp]: "length (share_pool st sts) = length sts"
  by (simp add: share_pool_def)

lemma nth_share: "j < length sts \<Longrightarrow> share_pool st sts ! j = see_pool st (live_outside j sts) (sts ! j)"
  by (simp add: share_pool_def)

lemma see_pool_simps [simp]:
  "co_map (see_pool st X s) = co_map s" "suspended (see_pool st X s) = suspended s"
  "ready_queue (see_pool st X s) = ready_queue s" "handlers (see_pool st X s) = handlers s"
  "is_schedule (see_pool st X s) = is_schedule s" "resumed (see_pool st X s) = resumed s"
  "scheduled (see_pool st X s) = scheduled s" "co_count (see_pool st X s) = co_count st"
  "pool_queue (see_pool st X s) = pool_queue st" "next_co (see_pool st X s) = next_co st"
  "elsewhere (see_pool st X s) = X" "see_pool st (elsewhere st) st = st"
  "reactor.truncate (see_pool st X s) = reactor.truncate s" "fd_map (see_pool st X s) = fd_map s"
  by (simp_all add: see_pool_def reactor.truncate_def)

lemma live_outside_cong:
  "length sts' = length sts \<Longrightarrow> (\<And>k. k < length sts \<Longrightarrow> k \<noteq> i \<Longrightarrow> co_map (sts' ! k) = co_map (sts ! k))
     \<Longrightarrow> live_outside i sts' = live_outside i sts"
  by (auto simp: live_outside_def)

lemma live_outside_mem: "k < length sts \<Longrightarrow> k \<noteq> i \<Longrightarrow> co_map (sts ! k) \<subseteq> live_outside i sts"
  by (auto simp: live_outside_def)

lemma live_everywhere:
  "i < length sts \<Longrightarrow> co_map (sts ! i) \<union> live_outside i sts = (\<Union>k < length sts. co_map (sts ! k))"
  by (auto simp: live_outside_def)

text \<open>A step of one scheduler keeps the invariant of all.\<close>

lemma share_inv:
  assumes inv: "scheds_inv sts" and i: "i < length sts" and st: "co_inv st" "elsewhere st = elsewhere (sts ! i)"
  defines "sts' \<equiv> share_pool st (sts[i := st])"
  shows "scheds_inv sts'" and "length sts' = length sts" and "sts' ! i = st"
    and "\<And>j. j < length sts \<Longrightarrow> j \<noteq> i \<Longrightarrow> sts' ! j = see_pool st (live_outside j (sts[i := st])) (sts ! j)"
proof -
  let ?new = "sts[i := st]"
  show len: "length sts' = length sts" by (simp add: sts'_def)
  have out: "live_outside i ?new = elsewhere st"
    using scheds_invD(2) [OF inv i] st(2) live_outside_cong [of ?new sts i] by simp
  have nth: "sts' ! j = see_pool st (live_outside j ?new) (?new ! j)" if "j < length sts" for j
    using that by (simp add: sts'_def nth_share)
  show self: "sts' ! i = st" using i nth [OF i] by (simp add: out)
  show other: "sts' ! j = see_pool st (live_outside j ?new) (sts ! j)" if "j < length sts" "j \<noteq> i" for j
    using nth [OF that(1)] that(2) by simp
  have pool: "pool_inv st" using st(1) by (simp add: co_inv_def)
  have all: "co_map st \<union> elsewhere st = (\<Union>k < length sts. co_map (?new ! k))"
    using live_everywhere [of i ?new] i by (simp add: out)
  have "co_inv (sts' ! j)" if j: "j < length sts" for j
  proof (cases "j = i")
    case True
    then show ?thesis using self st(1) by simp
  next
    case False
    let ?s = "sts ! j"
    have old: "co_inv ?s" "elsewhere ?s = live_outside j sts" using scheds_invD [OF inv j] by simp_all
    have "co_map ?s \<inter> co_map (?new ! k) = {}" if k: "k < length sts" "k \<noteq> j" for k
    proof (cases "k = i")
      case True
      have "co_map ?s \<subseteq> elsewhere st" using live_outside_mem [of j ?new i] j False out by simp
      then show ?thesis using True i pool by (auto simp: pool_inv_def)
    next
      case False
      have "co_map (sts ! k) \<subseteq> elsewhere ?s" using live_outside_mem [of k sts j] k old(2) by simp
      then show ?thesis using False old(1) by (auto simp: co_inv_def pool_inv_def)
    qed
    then have "co_map ?s \<inter> live_outside j ?new = {}" by (auto simp: live_outside_def)
    moreover have "co_map ?s \<union> live_outside j ?new = co_map st \<union> elsewhere st"
      using live_everywhere [of j ?new] j False all by simp
    ultimately have "pool_inv (sts' ! j)" using pool other [OF j False] by (simp add: pool_inv_def)
    moreover have "io_inv (sts' ! j)"
      using old(1) io_inv_same [of "sts' ! j" ?s] other [OF j False] by (simp add: co_inv_def)
    ultimately show ?thesis using old(1) other [OF j False] by (simp add: co_inv_def)
  qed
  moreover have "elsewhere (sts' ! j) = live_outside j sts'" if "j < length sts" for j
  proof -
    have "live_outside j sts' = live_outside j ?new"
      by (rule live_outside_cong) (simp_all add: len nth)
    then show ?thesis using nth [OF that] by simp
  qed
  ultimately show "scheds_inv sts'" by (simp add: scheds_inv_def len nth)
qed

lemma scheds_inv_init: "scheds_inv (replicate n (co_init now))"
proof -
  have "co_map (co_init now) = {}" "elsewhere (co_init now) = {}" by (simp_all add: co_init_def)
  then show ?thesis by (simp add: scheds_inv_def co_inv_init live_outside_def)
qed

text \<open>Taking a callback on scheduler \<open>i\<close>.\<close>

definition spawn_on :: "co_prog \<Rightarrow> nat \<Rightarrow> co_state list \<Rightarrow> co_state list res" where
  "spawn_on b = on_scheduler (add_co b)"

definition co_load :: "co_state \<Rightarrow> nat" where
  "co_load st = card (co_map st)"

lemma spawn_on_ok:
  assumes inv: "scheds_inv sts" and i: "i < length sts"
  shows "\<exists>sts' c. spawn_on b i sts = Inr sts' \<and> scheds_inv sts' \<and> length sts' = length sts
    \<and> map co_load sts' = (map co_load sts)[i := co_load (sts ! i) + 1]
    \<and> co_count (sts' ! i) = co_count (sts ! i) + 1 \<and> c \<in> co_map (sts' ! i)
    \<and> c \<in> set (ready_queue (sts' ! i)) \<and> suspended (sts' ! i) c = Some b"
proof -
  have old: "co_inv (sts ! i)" by (rule scheds_invD(1) [OF inv i])
  then have pool: "pool_inv (sts ! i)" and dom: "io_inv (sts ! i)" "dom (suspended (sts ! i)) \<subseteq> co_map (sts ! i)"
    by (simp_all add: co_inv_def)
  from add_co_keeps [OF pool dom, of b] obtain st c where st: "add_co b (sts ! i) = Inr st" "pool_inv st"
      "c \<notin> co_map (sts ! i)" "co_map st = insert c (co_map (sts ! i))" "suspended st = (suspended (sts ! i))(c \<mapsto> b)"
      "ready_queue st = ready_queue (sts ! i) @ [c]" "c \<notin> elsewhere (sts ! i)" "elsewhere st = elsewhere (sts ! i)"
    by blast
  note share = share_inv [OF inv i co_inv_add [OF old st(1)] st(8)]
  let ?sts = "share_pool st (sts[i := st])"
  have "spawn_on b i sts = Inr ?sts" using st(1) by (simp add: spawn_on_def on_scheduler_def)
  moreover have "map co_load ?sts = (map co_load sts)[i := co_load (sts ! i) + 1]"
  proof (rule nth_equalityI)
    fix j assume "j < length (map co_load ?sts)"
    then show "map co_load ?sts ! j = (map co_load sts)[i := co_load (sts ! i) + 1] ! j"
      using i share(2-4) st(3,4) pool by (cases "j = i") (auto simp: co_load_def pool_inv_def)
  qed simp
  moreover have "co_count (?sts ! i) = co_count (sts ! i) + 1"
    using share(3) pool st by (simp add: pool_inv_def)
  ultimately show ?thesis using share(1,2,3) st(4-6) by (intro exI [of _ ?sts] exI [of _ c]) simp
qed

section \<open>The round\<close>

text \<open>The calls among the first \<open>n\<close>, the first at \<open>i\<close>, that a round of \<open>m\<close> gives to \<open>j\<close>.\<close>

definition turns :: "nat \<Rightarrow> nat \<Rightarrow> nat \<Rightarrow> nat \<Rightarrow> nat" where
  "turns m i n j = card {k. k < n \<and> (i + k) mod m = j}"

lemma turns_0 [simp]: "turns m i 0 j = 0"
  by (simp add: turns_def)

lemma turns_Suc:
  assumes "i < m"
  shows "turns m i (Suc n) j = (if j = i then 1 else 0) + turns m ((i + 1) mod m) n j"
proof -
  let ?A = "{k. k < n \<and> ((i + 1) mod m + k) mod m = j}"
  have "{k. k < Suc n \<and> (i + k) mod m = j} = (if j = i then {0} else {}) \<union> Suc ` ?A"
  proof (rule set_eqI)
    show "k \<in> {k. k < Suc n \<and> (i + k) mod m = j} \<longleftrightarrow> k \<in> (if j = i then {0} else {}) \<union> Suc ` ?A" for k
      using assms by (cases k) (auto simp: mod_add_left_eq)
  qed
  moreover have "card (Suc ` ?A) = card ?A" by (rule card_image) simp
  ultimately show ?thesis by (simp add: turns_def card_Un_disjoint)
qed

lemma turns_from_0: "j < m \<Longrightarrow> turns m 0 n j = (n + (m - 1 - j)) div m"
proof (induction n)
  case (Suc n)
  have "turns m 0 (Suc n) j = (if n mod m = j then 1 else 0) + turns m 0 n j"
  proof -
    have "{k. k < Suc n \<and> k mod m = j} = (if n mod m = j then {n} else {}) \<union> {k. k < n \<and> k mod m = j}"
      by (auto simp: less_Suc_eq)
    then show ?thesis by (simp add: turns_def)
  qed
  also have "\<dots> = (if n mod m = j then 1 else 0) + (n + (m - 1 - j)) div m" using Suc by simp
  also have "\<dots> = (Suc n + (m - 1 - j)) div m"
  proof -
    have "Suc (n + (m - 1 - j)) mod m = 0 \<longleftrightarrow> n mod m = j"
    proof -
      have eq: "Suc (n + (m - 1 - j)) = n + (m - j)" using Suc.prems by simp
      have "(n + (m - j)) mod m = (n mod m + (m - j)) mod m" by (simp add: mod_add_left_eq)
      also have "\<dots> = 0 \<longleftrightarrow> n mod m = j"
      proof (cases "n mod m < j")
        case True
        then have "n mod m + (m - j) < m" "0 < n mod m + (m - j)" using Suc.prems by simp_all
        then have "(n mod m + (m - j)) mod m \<noteq> 0" using mod_less by fastforce
        then show ?thesis using True by blast
      next
        case False
        then have "n mod m + (m - j) = (n mod m - j) + m" using Suc.prems by simp
        moreover have "n mod m - j < m" using mod_less_divisor [of m n] Suc.prems by linarith
        ultimately have "(n mod m + (m - j)) mod m = n mod m - j" by simp
        then show ?thesis using False by simp
      qed
      finally show ?thesis unfolding eq .
    qed
    then show ?thesis using div_Suc [of "n + (m - 1 - j)" m] by simp
  qed
  finally show ?case .
qed (use div_less in \<open>simp add: turns_def\<close>)

text \<open>
  The schedulers, one per loop; the last serves the accepting coroutine. The operation by which
  the scheduler of a number takes a callback is an argument here.
\<close>

record 's sche_pool =
  i_thread :: nat
  sche_list :: "'s list"

definition add_to_main :: "('cb \<Rightarrow> nat \<Rightarrow> 's list \<Rightarrow> 's list res) \<Rightarrow> 'cb \<Rightarrow> 's sche_pool \<Rightarrow> 's sche_pool res" where
  "add_to_main add cb p =
     bind_res (add cb (length (sche_list p) - 1) (sche_list p)) (\<lambda>sts. Inr (p\<lparr>sche_list := sts\<rparr>))"

definition pool_add :: "('cb \<Rightarrow> nat \<Rightarrow> 's list \<Rightarrow> 's list res) \<Rightarrow> 'cb \<Rightarrow> 's sche_pool \<Rightarrow> 's sche_pool res" where
  "pool_add add cb p =
     (let i = i_thread p; n = length (sche_list p)
      in bind_res (add cb i (sche_list p)) (\<lambda>sts.
         Inr (p\<lparr>sche_list := sts, i_thread := (if n \<noteq> 1 then (i + 1) mod (n - 1) else i)\<rparr>)))"

primrec pool_add_all :: "('cb \<Rightarrow> nat \<Rightarrow> 's list \<Rightarrow> 's list res) \<Rightarrow> 'cb list \<Rightarrow> 's sche_pool \<Rightarrow> 's sche_pool res" where
  "pool_add_all add [] p = Inr p"
| "pool_add_all add (cb # cbs) p = bind_res (pool_add add cb p) (pool_add_all add cbs)"

text \<open>
  What the pool needs of its schedulers: each takes every callback, and then its load is one
  more and that of the others what it was.
\<close>

locale spawner =
  fixes add :: "'cb \<Rightarrow> nat \<Rightarrow> 's list \<Rightarrow> 's list res" and load :: "'s \<Rightarrow> nat" and good :: "'s list \<Rightarrow> bool"
  assumes takes: "good sts \<Longrightarrow> i < length sts \<Longrightarrow>
    \<exists>sts'. add cb i sts = Inr sts' \<and> good sts' \<and> map load sts' = (map load sts)[i := load (sts ! i) + 1]"
begin

definition usable :: "'s sche_pool \<Rightarrow> bool" where
  "usable p \<longleftrightarrow> good (sche_list p) \<and> 2 \<le> length (sche_list p) \<and> i_thread p < length (sche_list p) - 1"

lemma one_add:
  assumes "usable p"
  shows "\<exists>p'. pool_add add cb p = Inr p' \<and> usable p' \<and> length (sche_list p') = length (sche_list p)
    \<and> i_thread p' = (i_thread p + 1) mod (length (sche_list p) - 1)
    \<and> (\<forall>j < length (sche_list p). load (sche_list p' ! j)
         = load (sche_list p ! j) + (if j = i_thread p then 1 else 0))"
proof -
  let ?n = "length (sche_list p)"
  have p: "good (sche_list p)" "2 \<le> ?n" "i_thread p < ?n - 1" using assms by (simp_all add: usable_def)
  then have "i_thread p < ?n" by simp
  from takes [OF p(1) this, of cb] obtain sts where s: "add cb (i_thread p) (sche_list p) = Inr sts" "good sts"
      "map load sts = (map load (sche_list p))[i_thread p := load (sche_list p ! i_thread p) + 1]" by blast
  let ?p = "p\<lparr>sche_list := sts, i_thread := (i_thread p + 1) mod (?n - 1)\<rparr>"
  have len: "length sts = ?n" using arg_cong [OF s(3), of length] by simp
  have "load (sts ! j) = load (sche_list p ! j) + (if j = i_thread p then 1 else 0)" if "j < ?n" for j
    using arg_cong [OF s(3), of "\<lambda>xs. xs ! j"] that len by (simp add: nth_list_update)
  moreover have "pool_add add cb p = Inr ?p" using s(1) p(2) by (simp add: pool_add_def Let_def)
  ultimately show ?thesis using p s(2) len by (intro exI [of _ ?p]) (simp add: usable_def)
qed

lemma all_adds:
  "usable p \<Longrightarrow>
     \<exists>p'. pool_add_all add cbs p = Inr p' \<and> usable p' \<and> length (sche_list p') = length (sche_list p)
       \<and> (\<forall>j < length (sche_list p). load (sche_list p' ! j)
            = load (sche_list p ! j) + turns (length (sche_list p) - 1) (i_thread p) (length cbs) j)"
proof (induction cbs arbitrary: p)
  case (Cons cb cbs)
  let ?n = "length (sche_list p)"
  have i: "i_thread p < ?n - 1" using Cons.prems by (simp add: usable_def)
  from one_add [OF Cons.prems, of cb] obtain p1 where p1: "pool_add add cb p = Inr p1" "usable p1"
      "length (sche_list p1) = ?n" "i_thread p1 = (i_thread p + 1) mod (?n - 1)"
      "\<forall>j < ?n. load (sche_list p1 ! j) = load (sche_list p ! j) + (if j = i_thread p then 1 else 0)" by blast
  from Cons.IH [OF p1(2)] obtain p' where p': "pool_add_all add cbs p1 = Inr p'" "usable p'"
      "length (sche_list p') = ?n"
      "\<forall>j < ?n. load (sche_list p' ! j) = load (sche_list p1 ! j)
         + turns (?n - 1) ((i_thread p + 1) mod (?n - 1)) (length cbs) j"
    unfolding p1(3,4) by blast
  have "load (sche_list p' ! j) = load (sche_list p ! j) + turns (?n - 1) (i_thread p) (length (cb # cbs)) j"
    if "j < ?n" for j
    using p'(4) p1(5) that turns_Suc [OF i, of "length cbs" j] by simp
  then show ?case using p1(1) p'(1-3) by (intro exI [of _ p']) simp
qed simp

end

interpretation sched: spawner spawn_on co_load scheds_inv
  by unfold_locales (use spawn_on_ok in blast)

text \<open>The last scheduler gets none of the turns.\<close>

lemma turns_last: "0 < m \<Longrightarrow> turns m i n m = 0"
proof -
  assume "0 < m"
  then have "(i + k) mod m \<noteq> m" for k using mod_less_divisor [of m "i + k"] by linarith
  then show ?thesis by (simp add: turns_def)
qed

lemma round_robin_balanced:
  assumes "scheds_inv sts" and "length sts = n + 1" and "0 < n"
  shows "\<exists>p. pool_add_all spawn_on cbs \<lparr>i_thread = 0, sche_list = sts\<rparr> = Inr p \<and> length (sche_list p) = n + 1
    \<and> co_load (sche_list p ! n) = co_load (sts ! n)
    \<and> (\<forall>j < n. co_load (sche_list p ! j) = co_load (sts ! j) + (length cbs + (n - 1 - j)) div n)"
proof -
  let ?p = "\<lparr>i_thread = 0, sche_list = sts\<rparr>"
  have "sched.usable ?p" using assms by (simp add: sched.usable_def)
  from sched.all_adds [OF this, of cbs] assms(2) obtain p where p: "pool_add_all spawn_on cbs ?p = Inr p"
      "length (sche_list p) = n + 1"
      "\<forall>j < n + 1. co_load (sche_list p ! j) = co_load (sts ! j) + turns n 0 (length cbs) j" by auto
  then show ?thesis using turns_last [OF assms(3)] by (intro exI [of _ p]) (simp add: turns_from_0)
qed

section \<open>The server\<close>

text \<open>
  \<open>co_count\<close> of the shared pool is read from the scheduler of the accepting coroutine. The
  server's record has its schedulers and the descriptors it closed itself.
\<close>

record co_server =
  schedulers :: "co_state sche_pool"
  fds_closed :: "int list"

definition max_co_conns :: int where
  "max_co_conns = 20000"

definition server_co_count :: "co_server \<Rightarrow> int" where
  "server_co_count sv = co_count (last (sche_list (schedulers sv)))"

text \<open>
  The constructors: one scheduler per loop, at least one. \<open>run\<close> gives the accepting coroutine to
  the last scheduler.
\<close>

definition new_sche_pool :: "u64 \<Rightarrow> nat \<Rightarrow> co_state sche_pool" where
  "new_sche_pool now n = \<lparr>i_thread = 0, sche_list = replicate n (co_init now)\<rparr>"

definition new_co_server :: "u64 \<Rightarrow> nat \<Rightarrow> co_server res" where
  "new_co_server now n =
     bind_res (assertm (1 \<le> n)) (\<lambda>_. Inr \<lparr>schedulers = new_sche_pool now n, fds_closed = []\<rparr>)"

definition server_run :: "co_prog \<Rightarrow> co_server \<Rightarrow> co_server res" where
  "server_run acceptor sv =
     bind_res (add_to_main spawn_on acceptor (schedulers sv)) (\<lambda>p. Inr (sv\<lparr>schedulers := p\<rparr>))"

text \<open>One turn of \<open>accept_cb\<close>, with the descriptor \<open>co_accept\<close> returned.\<close>

definition accept_turn :: "(int \<Rightarrow> co_prog) \<Rightarrow> int \<Rightarrow> co_server \<Rightarrow> co_server res" where
  "accept_turn user_cb peer_fd sv =
     bind_res (assertm (0 < peer_fd)) (\<lambda>_.
     let sv1 = (if max_co_conns \<le> server_co_count sv then sv\<lparr>fds_closed := fds_closed sv @ [peer_fd]\<rparr> else sv)
     in bind_res (pool_add spawn_on (user_cb peer_fd) (schedulers sv1)) (\<lambda>p. Inr (sv1\<lparr>schedulers := p\<rparr>)))"

primrec accept_all :: "(int \<Rightarrow> co_prog) \<Rightarrow> int list \<Rightarrow> co_server \<Rightarrow> co_server res" where
  "accept_all user_cb [] sv = Inr sv"
| "accept_all user_cb (fd # fds) sv = bind_res (accept_turn user_cb fd sv) (accept_all user_cb fds)"

text \<open>
  Runs of a server: its constructor, \<open>run\<close>, turns of the accepting coroutine, and steps of the
  loops of its schedulers, each with an environment of its own.
\<close>

definition server_inv :: "co_server \<Rightarrow> bool" where
  "server_inv sv \<longleftrightarrow> scheds_inv (sche_list (schedulers sv)) \<and> sche_list (schedulers sv) \<noteq> []
     \<and> i_thread (schedulers sv) < length (sche_list (schedulers sv))"

inductive co_server_step :: "co_server \<Rightarrow> co_server \<Rightarrow> bool" where
  runs: "server_run acceptor sv = Inr sv' \<Longrightarrow> co_server_step sv sv'"
| accepts: "accept_turn user_cb fd sv = Inr sv' \<Longrightarrow> co_server_step sv sv'"
| steps: "i < length (sche_list (schedulers sv)) \<Longrightarrow> co_step env (sche_list (schedulers sv) ! i) st \<Longrightarrow>
    sv' = sv\<lparr>schedulers := (schedulers sv)
      \<lparr>sche_list := share_pool st ((sche_list (schedulers sv))[i := st])\<rparr>\<rparr> \<Longrightarrow> co_server_step sv sv'"

inductive co_server_reach :: "co_server \<Rightarrow> bool" where
  start: "new_co_server now n = Inr sv \<Longrightarrow> co_server_reach sv"
| step: "co_server_reach sv \<Longrightarrow> co_server_step sv sv' \<Longrightarrow> co_server_reach sv'"

inductive_cases co_server_stepE: "co_server_step sv sv'"

lemma pool_add_inv:
  assumes "scheds_inv (sche_list p)" and i: "i_thread p < length (sche_list p)" and "pool_add spawn_on b p = Inr p'"
  shows "scheds_inv (sche_list p') \<and> length (sche_list p') = length (sche_list p) \<and> i_thread p' < length (sche_list p')"
proof -
  let ?n = "length (sche_list p)"
  obtain sts where sts: "spawn_on b (i_thread p) (sche_list p) = Inr sts" "scheds_inv sts" "length sts = ?n"
    using spawn_on_ok [OF assms(1) i, of b] by blast
  then have "p' = p\<lparr>sche_list := sts, i_thread := (if ?n \<noteq> 1 then (i_thread p + 1) mod (?n - 1) else i_thread p)\<rparr>"
    using assms(3) by (simp add: pool_add_def Let_def)
  moreover have "(i_thread p + 1) mod (?n - 1) < ?n" if "?n \<noteq> 1"
    using mod_less_divisor [of "?n - 1" "i_thread p + 1"] that i by linarith
  ultimately show ?thesis using sts i by simp
qed

lemma co_server_step_inv:
  assumes "co_server_step sv sv'" and inv: "server_inv sv"
  shows "server_inv sv'"
  using assms(1)
proof (rule co_server_stepE)
  fix acceptor assume run: "server_run acceptor sv = Inr sv'"
  let ?sts = "sche_list (schedulers sv)" and ?i = "length (sche_list (schedulers sv)) - 1"
  have i: "scheds_inv ?sts" "?i < length ?sts" using inv by (simp_all add: server_inv_def)
  obtain sts where "spawn_on acceptor ?i ?sts = Inr sts" "scheds_inv sts" "length sts = length ?sts"
    using spawn_on_ok [OF i] by blast
  then show "server_inv sv'" using run inv by (auto simp: server_run_def add_to_main_def server_inv_def)
next
  fix user_cb fd assume turn: "accept_turn user_cb fd sv = Inr sv'"
  then obtain p where p: "pool_add spawn_on (user_cb fd) (schedulers sv) = Inr p" "schedulers sv' = p"
    by (cases "max_co_conns \<le> server_co_count sv") (auto simp: accept_turn_def bind_res_Inr_iff)
  have "scheds_inv (sche_list (schedulers sv))" "i_thread (schedulers sv) < length (sche_list (schedulers sv))"
    using inv by (simp_all add: server_inv_def)
  then have new: "scheds_inv (sche_list p)" "i_thread p < length (sche_list p)"
    using pool_add_inv [of "schedulers sv" "user_cb fd" p] p(1) by simp_all
  then have "sche_list p \<noteq> []" by (cases "sche_list p") simp_all
  then show "server_inv sv'" using new p(2) by (simp add: server_inv_def)
next
  fix i env st
  let ?sts = "sche_list (schedulers sv)"
  assume i: "i < length ?sts" and st: "co_step env (?sts ! i) st"
    and sv': "sv' = sv\<lparr>schedulers := (schedulers sv)\<lparr>sche_list := share_pool st (?sts[i := st])\<rparr>\<rparr>"
  have invs: "scheds_inv ?sts" "co_inv (?sts ! i)"
    using inv scheds_invD(1) [OF _ i] by (simp_all add: server_inv_def)
  note share = share_inv [OF invs(1) i co_step_inv [OF st invs(2)] co_step_elsewhere [OF st invs(2)]]
  have "length (share_pool st (?sts[i := st])) = length ?sts" by simp
  moreover have "share_pool st (?sts[i := st]) \<noteq> []" using calculation i by (metis length_0_conv not_less0)
  ultimately show "server_inv sv'" using inv share(1) unfolding sv' server_inv_def by simp
qed

lemma co_server_reach_inv: "co_server_reach sv \<Longrightarrow> server_inv sv"
proof (induction rule: co_server_reach.induct)
  case (start now n sv)
  then have "sv = \<lparr>schedulers = new_sche_pool now n, fds_closed = []\<rparr>" "1 \<le> n"
    by (auto simp: new_co_server_def bind_res_Inr_iff assertm_def split: if_splits)
  then show ?case by (simp add: server_inv_def new_sche_pool_def scheds_inv_init)
next
  case (step sv sv')
  then show ?case using co_server_step_inv by blast
qed

lemma last_scheduler:
  assumes "scheds_inv sts" and "i < length sts"
  shows "co_count (last sts) = co_count (sts ! i)" and "pool_queue (last sts) = pool_queue (sts ! i)"
proof -
  have "sts \<noteq> []" "length sts - 1 < length sts" using assms(2) by auto
  then have "last sts = sts ! (length sts - 1)" "length sts - 1 < length sts" by (simp_all add: last_conv_nth)
  then show "co_count (last sts) = co_count (sts ! i)" "pool_queue (last sts) = pool_queue (sts ! i)"
    using scheds_invD(3,4) [OF assms] by simp_all
qed

text \<open>
  C3: The books of the shared pool, for one thread at a time: each accept and each callback of a
  loop runs as a whole. (The code takes no lock to ensure that; what statements that interleave
  do is the subject of \<open>CoRaces\<close>.) Whatever the accepting coroutine and the loops of the
  schedulers do then, in any order, and whatever their calls return: the counter of the pool is the
  number of the coroutines that are live on all schedulers together; no coroutine is live on
  two schedulers, nor live and in the pool, nor in the pool twice; and on each scheduler the
  live coroutines are those suspended, and \<open>handle_co\<close> is posted exactly when it must be.
\<close>

theorem shared_pool_books:
  assumes "co_server_reach sv"
  defines "sts \<equiv> sche_list (schedulers sv)"
  shows "server_co_count sv = int (\<Sum>i < length sts. co_load (sts ! i))
    \<and> (\<forall>i < length sts. \<forall>j < length sts. i \<noteq> j \<longrightarrow> co_map (sts ! i) \<inter> co_map (sts ! j) = {})
    \<and> (\<forall>i < length sts. distinct (pool_queue (last sts)) \<and> set (pool_queue (last sts)) \<inter> co_map (sts ! i) = {}
        \<and> dom (suspended (sts ! i)) = co_map (sts ! i)
        \<and> handlers (sts ! i) = (if is_schedule (sts ! i) then 1 else 0)
        \<and> (ready_queue (sts ! i) \<noteq> [] \<longrightarrow> is_schedule (sts ! i)))"
proof -
  have inv: "scheds_inv sts" "sts \<noteq> []" using co_server_reach_inv [OF assms(1)] by (simp_all add: server_inv_def sts_def)
  let ?l = "length sts - 1" and ?all = "\<Union>k < length sts. co_map (sts ! k)"
  have l: "?l < length sts" "last sts = sts ! ?l" using inv(2) by (simp_all add: last_conv_nth)
  have ci: "co_inv (sts ! i)" "elsewhere (sts ! i) = live_outside i sts" if "i < length sts" for i
    using scheds_invD(1,2) [OF inv(1) that] by simp_all
  have pool: "pool_inv (sts ! i)" if "i < length sts" for i using ci(1) [OF that] by (simp add: co_inv_def)
  have disj: "co_map (sts ! i) \<inter> co_map (sts ! j) = {}" if "i < length sts" "j < length sts" "i \<noteq> j" for i j
    using pool [OF that(1)] ci(2) [OF that(1)] live_outside_mem [of j sts i] that by (auto simp: pool_inv_def)
  have fin: "finite (co_map (sts ! i))" if "i < length sts" for i using pool [OF that] by (simp add: pool_inv_def)
  have "server_co_count sv = int (card ?all)"
    using pool [OF l(1)] live_everywhere [OF l(1)] ci(2) [OF l(1)] l(2)
    by (simp add: server_co_count_def sts_def [symmetric] pool_inv_def)
  also have "card ?all = (\<Sum>i < length sts. co_load (sts ! i))"
    unfolding co_load_def by (rule card_UN_disjoint) (use fin disj in auto)
  finally have count: "server_co_count sv = int (\<Sum>i < length sts. co_load (sts ! i))" .
  have queue: "distinct (pool_queue (last sts))" "set (pool_queue (last sts)) \<inter> co_map (sts ! i) = {}"
    if "i < length sts" for i
  proof -
    have "pool_queue (last sts) = pool_queue (sts ! i)" by (rule last_scheduler(2) [OF inv(1) that])
    then show "distinct (pool_queue (last sts))" "set (pool_queue (last sts)) \<inter> co_map (sts ! i) = {}"
      using pool [OF that] by (auto simp: pool_inv_def)
  qed
  have "dom (suspended (sts ! i)) = co_map (sts ! i)" "handlers (sts ! i) = (if is_schedule (sts ! i) then 1 else 0)"
    "ready_queue (sts ! i) \<noteq> [] \<longrightarrow> is_schedule (sts ! i)" if "i < length sts" for i
    using ci(1) [OF that] unfolding co_inv_def by blast+
  note books = queue this
  show ?thesis by (intro conjI allI impI count disj books)
qed

text \<open>Taking a turn: one more coroutine, on the scheduler whose turn it is.\<close>

lemma accept_turn_one:
  assumes inv: "server_inv sv" and "0 < fd"
  shows "\<exists>sv' c. accept_turn user_cb fd sv = Inr sv' \<and> server_inv sv' \<and> server_co_count sv' = server_co_count sv + 1
    \<and> fds_closed sv' = fds_closed sv @ (if max_co_conns \<le> server_co_count sv then [fd] else [])
    \<and> pool_add spawn_on (user_cb fd) (schedulers sv) = Inr (schedulers sv')
    \<and> (let st = sche_list (schedulers sv') ! i_thread (schedulers sv)
       in c \<in> co_map st \<and> c \<in> set (ready_queue st) \<and> suspended st c = Some (user_cb fd))"
proof -
  let ?p = "schedulers sv"
  have p: "scheds_inv (sche_list ?p)" "i_thread ?p < length (sche_list ?p)" using inv by (simp_all add: server_inv_def)
  obtain sts c where sts: "spawn_on (user_cb fd) (i_thread ?p) (sche_list ?p) = Inr sts" "scheds_inv sts"
      "length sts = length (sche_list ?p)" "co_count (sts ! i_thread ?p) = co_count (sche_list ?p ! i_thread ?p) + 1"
      "c \<in> co_map (sts ! i_thread ?p)" "c \<in> set (ready_queue (sts ! i_thread ?p))"
      "suspended (sts ! i_thread ?p) c = Some (user_cb fd)"
    using spawn_on_ok [OF p, of "user_cb fd"] by blast
  obtain p' where p': "pool_add spawn_on (user_cb fd) ?p = Inr p'" "sche_list p' = sts"
    using sts(1) by (simp add: pool_add_def Let_def)
  let ?sv = "\<lparr>schedulers = p', fds_closed = fds_closed sv @ (if max_co_conns \<le> server_co_count sv then [fd] else [])\<rparr>"
  have turn: "accept_turn user_cb fd sv = Inr ?sv" using p'(1) assms(2) by (simp add: accept_turn_def)
  have "server_inv ?sv" by (rule co_server_step_inv [OF co_server_step.accepts [OF turn] inv])
  moreover have "server_co_count ?sv = server_co_count sv + 1"
    using last_scheduler(1) [OF p] last_scheduler(1) [OF sts(2), of "i_thread ?p"] sts(3,4) p(2) p'(2)
    by (simp add: server_co_count_def)
  ultimately show ?thesis using turn sts(5-7) p' by (intro exI [of _ ?sv] exI [of _ c]) (simp add: Let_def)
qed

text \<open>Below the limit the accept loop is the round of the pool.\<close>

lemma accept_all_round:
  assumes "server_inv sv" and "\<forall>fd \<in> set fds. 0 < fd" and "server_co_count sv + int (length fds) \<le> max_co_conns"
    and "pool_add_all spawn_on (map user_cb fds) (schedulers sv) = Inr p"
  shows "accept_all user_cb fds sv = Inr (sv\<lparr>schedulers := p\<rparr>)
    \<and> server_co_count (sv\<lparr>schedulers := p\<rparr>) = server_co_count sv + int (length fds)"
  using assms
proof (induction fds arbitrary: sv)
  case Nil
  then show ?case by (simp add: server_co_count_def)
next
  case (Cons fd fds)
  have "0 < fd" using Cons.prems(2) by simp
  from accept_turn_one [OF Cons.prems(1) this, of user_cb] obtain sv1 where
      sv1: "accept_turn user_cb fd sv = Inr sv1" "server_inv sv1" "server_co_count sv1 = server_co_count sv + 1"
        "fds_closed sv1 = fds_closed sv @ (if max_co_conns \<le> server_co_count sv then [fd] else [])"
        "pool_add spawn_on (user_cb fd) (schedulers sv) = Inr (schedulers sv1)" by blast
  then have eq: "sv\<lparr>schedulers := p\<rparr> = sv1\<lparr>schedulers := p\<rparr>" using Cons.prems(3) by simp
  have "accept_all user_cb fds sv1 = Inr (sv1\<lparr>schedulers := p\<rparr>)
      \<and> server_co_count (sv1\<lparr>schedulers := p\<rparr>) = server_co_count sv1 + int (length fds)"
    using Cons.prems sv1 by (intro Cons.IH) simp_all
  then show ?case using sv1(1,3) by (simp add: eq)
qed

text \<open>
  C22: The coroutine server from its start. With \<open>n \<ge> 2\<close> loops, up to 19999 accepted connections are
  all taken, none is closed, and they go to the serving schedulers in turn: of \<open>k\<close> connections
  scheduler \<open>j\<close> of the \<open>n - 1\<close> gets \<open>(k + (n - 2 - j)) div (n - 1)\<close>, so two loads differ by at most
  one; the scheduler of the accepting coroutine has that coroutine only, and the counter of
  the pool is the number of connections and one.
\<close>

theorem connections_spread:
  assumes "2 \<le> n" and "\<forall>fd \<in> set fds. 0 < fd" and "int (length fds) < max_co_conns"
  shows "\<exists>sv0 sv1 sv. new_co_server now n = Inr sv0 \<and> server_run acceptor sv0 = Inr sv1
    \<and> accept_all user_cb fds sv1 = Inr sv \<and> fds_closed sv = [] \<and> server_co_count sv = int (length fds) + 1
    \<and> length (sche_list (schedulers sv)) = n
    \<and> (\<forall>j < n - 1. co_load (sche_list (schedulers sv) ! j) = (length fds + (n - 2 - j)) div (n - 1))
    \<and> co_load (sche_list (schedulers sv) ! (n - 1)) = 1"
proof -
  let ?m = "n - 1" and ?new = "replicate n (co_init now)"
  have nm: "n = ?m + 1" "0 < ?m" using assms(1) by simp_all
  have fresh: "co_load (co_init now) = 0" "co_count (co_init now) = 0" by (simp_all add: co_load_def co_init_def)
  obtain sts where sts: "spawn_on acceptor ?m ?new = Inr sts" "scheds_inv sts" "length sts = n"
      "map co_load sts = (map co_load ?new)[?m := co_load (?new ! ?m) + 1]" "co_count (sts ! ?m) = co_count (?new ! ?m) + 1"
    using spawn_on_ok [OF scheds_inv_init, of ?m n now acceptor] nm by auto
  let ?init = "\<lparr>schedulers = new_sche_pool now n, fds_closed = []\<rparr>"
    and ?sv = "\<lparr>schedulers = \<lparr>i_thread = 0, sche_list = sts\<rparr>, fds_closed = []\<rparr>"
  have run: "server_run acceptor ?init = Inr ?sv"
    using sts(1) by (simp add: server_run_def add_to_main_def new_sche_pool_def)
  have load: "co_load (sts ! j) = (if j = ?m then 1 else 0)" if "j < n" for j
    using arg_cong [OF sts(4), of "\<lambda>xs. xs ! j"] that sts(3) fresh by (simp add: nth_list_update)
  have inv: "server_inv ?sv" using sts(2,3) nm by (auto simp: server_inv_def)
  have count: "server_co_count ?sv = 1"
    using last_scheduler(1) [OF sts(2), of ?m] sts(3,5) nm fresh by (simp add: server_co_count_def)
  have len: "length sts = ?m + 1" using sts(3) nm by simp
  obtain p where p: "pool_add_all spawn_on (map user_cb fds) \<lparr>i_thread = 0, sche_list = sts\<rparr> = Inr p"
      "length (sche_list p) = ?m + 1" "co_load (sche_list p ! ?m) = co_load (sts ! ?m)"
      "\<forall>j < ?m. co_load (sche_list p ! j) = co_load (sts ! j) + (length (map user_cb fds) + (?m - 1 - j)) div ?m"
    using round_robin_balanced [OF sts(2) len nm(2), of "map user_cb fds"] by blast
  have "accept_all user_cb fds ?sv = Inr (?sv\<lparr>schedulers := p\<rparr>)
      \<and> server_co_count (?sv\<lparr>schedulers := p\<rparr>) = server_co_count ?sv + int (length fds)"
    by (rule accept_all_round [OF inv assms(2)]) (use assms(3) p(1) count in simp_all)
  moreover have "co_load (sche_list p ! j) = (length fds + (n - 2 - j)) div ?m" if "j < ?m" for j
  proof -
    have "?m - 1 - j = n - 2 - j" by simp
    then show ?thesis using p(4) that load [of j] by simp
  qed
  moreover have "co_load (sche_list p ! ?m) = 1" using p(3) load [of ?m] nm by simp
  ultimately show ?thesis
    using run assms(1) p(2) nm(1) count
    by (intro exI [of _ ?init] exI [of _ ?sv] exI [of _ "?sv\<lparr>schedulers := p\<rparr>"]) (simp add: new_co_server_def)
qed

theorem connections_spread_witness:
  "\<exists>sv0 sv1 sv. new_co_server 0 3 = Inr sv0 \<and> server_run (Co_yield Co_end) sv0 = Inr sv1
    \<and> accept_all (\<lambda>fd. Co_close fd Co_end) [5, 6, 7] sv1 = Inr sv \<and> fds_closed sv = []
    \<and> co_load (sche_list (schedulers sv) ! 0) = 2 \<and> co_load (sche_list (schedulers sv) ! 1) = 1"
proof -
  obtain sv0 sv1 sv where sv: "new_co_server 0 3 = Inr sv0" "server_run (Co_yield Co_end) sv0 = Inr sv1"
      "accept_all (\<lambda>fd. Co_close fd Co_end) [5, 6, 7] sv1 = Inr sv" "fds_closed sv = []"
      "\<forall>j < 3 - 1. co_load (sche_list (schedulers sv) ! j) = (length [5 :: int, 6, 7] + (3 - 2 - j)) div (3 - 1)"
    using connections_spread [of 3 "[5, 6, 7]" 0 "Co_yield Co_end" "\<lambda>fd. Co_close fd Co_end"]
    by (auto simp: max_co_conns_def)
  then show ?thesis using sv(5) [rule_format, of 0] sv(5) [rule_format, of 1] by auto
qed

theorem shared_pool_books_witness:
  "\<exists>sv. co_server_reach sv \<and> length (sche_list (schedulers sv)) = 2 \<and> co_load (sche_list (schedulers sv) ! 1) = 1
    \<and> server_co_count sv = int (co_load (sche_list (schedulers sv) ! 0) + co_load (sche_list (schedulers sv) ! 1))"
proof -
  let ?init = "\<lparr>schedulers = new_sche_pool 0 2, fds_closed = []\<rparr>" and ?sts = "replicate 2 (co_init 0)"
  have start: "co_server_reach ?init" by (rule co_server_reach.start [of 0 2]) (simp add: new_co_server_def)
  obtain sts where sts: "spawn_on Co_end 1 ?sts = Inr sts" "length sts = 2"
      "map co_load sts = (map co_load ?sts)[1 := co_load (?sts ! 1) + 1]"
    using spawn_on_ok [OF scheds_inv_init, of 1 2 0 Co_end] by auto
  let ?sv = "\<lparr>schedulers = \<lparr>i_thread = 0, sche_list = sts\<rparr>, fds_closed = []\<rparr>"
  have "server_run Co_end ?init = Inr ?sv"
    using sts(1) by (simp add: server_run_def add_to_main_def new_sche_pool_def)
  then have reach: "co_server_reach ?sv" by (rule co_server_reach.step [OF start co_server_step.runs])
  have "co_load (sts ! 1) = 1"
    using arg_cong [OF sts(3), of "\<lambda>xs. xs ! 1"] sts(2) by (simp add: co_load_def co_init_def)
  then show ?thesis
    using reach shared_pool_books [OF reach] sts(2) by (intro exI [of _ ?sv]) (simp add: numeral_2_eq_2)
qed

text \<open>
  The limit of the coroutine server does not limit. When it is reached, an accepted
  descriptor is closed, and then served all the same: a coroutine with the user's handler for
  the closed descriptor is made ready at the scheduler whose turn it is, and the count goes on
  to grow.
\<close>

theorem over_limit_still_served:
  assumes "server_inv sv" and "0 < fd" and "max_co_conns \<le> server_co_count sv"
  shows "\<exists>sv' st c. accept_turn user_cb fd sv = Inr sv' \<and> server_co_count sv' = server_co_count sv + 1
    \<and> fds_closed sv' = fds_closed sv @ [fd]
    \<and> sche_list (schedulers sv') ! i_thread (schedulers sv) = st
    \<and> c \<in> co_map st \<and> c \<in> set (ready_queue st) \<and> suspended st c = Some (user_cb fd)"
  using accept_turn_one [OF assms(1,2), of user_cb] assms(3) by (simp add: Let_def) blast

text \<open>A scheduler with \<open>n\<close> live coroutines that all wait.\<close>

definition parked_co :: "nat \<Rightarrow> co_state" where
  "parked_co n = (co_init 0)\<lparr>co_map := {..<n}, co_count := int n, next_co := n,
     suspended := (\<lambda>c. if c < n then Some Co_end else None)\<rparr>"

lemma parked_co_inv: "scheds_inv [parked_co n]"
proof -
  have "io_inv (co_init 0)" using co_inv_init by (simp add: co_inv_def)
  then have "io_inv (parked_co n)"
    using io_inv_same [of "parked_co n" "co_init 0"] by (simp add: parked_co_def reactor.truncate_def)
  then have "co_inv (parked_co n)"
    by (auto simp: co_inv_def pool_inv_def parked_co_def co_init_def dom_def split: if_splits)
  then show ?thesis by (simp add: scheds_inv_def live_outside_def parked_co_def co_init_def lessThan_Suc)
qed

theorem over_limit_still_served_witness:
  "\<exists>sv'. accept_turn (\<lambda>fd. Co_close fd Co_end) 9
       \<lparr>schedulers = \<lparr>i_thread = 0, sche_list = [parked_co 20000]\<rparr>, fds_closed = []\<rparr> = Inr sv'
     \<and> fds_closed sv' = [9] \<and> server_co_count sv' = 20001"
proof -
  let ?sv = "\<lparr>schedulers = \<lparr>i_thread = 0, sche_list = [parked_co 20000]\<rparr>, fds_closed = []\<rparr>"
  have "server_co_count ?sv = 20000" by (simp add: server_co_count_def parked_co_def)
  moreover have "server_inv ?sv" by (simp add: server_inv_def parked_co_inv)
  ultimately show ?thesis
    using over_limit_still_served [of ?sv 9 "\<lambda>fd. Co_close fd Co_end"] by (auto simp: max_co_conns_def)
qed

end
