(* ===== verification/ServerRun.thy ===== *)
theory ServerRun
  imports CoServer LoopPools Listening HttpServer
begin

text \<open>
  The servers on coroutines as they are started and stopped: \<open>TCPServer2\<close> with its pools of
  schedulers and of loops (src/src/tcp/TCPServer2.cpp) and \<open>HTTPServer2\<close>
  (src/src/http/HTTPServer2.cpp). The schedulers are those of \<open>CoServer\<close>, the loops those of
  \<open>LoopPools\<close>; a callback in the list of a loop is a name here. \<open>run\<close> is cut at its call of
  \<open>wait_stop\<close>, during which the threads of the pool enter their loops, and other threads post and
  call \<open>stop\<close>.
\<close>

section \<open>State and operations\<close>

datatype sched_cb = Env_init | Handle_co

record co_system =
  service :: co_server
  run_loops :: "sched_cb loop_pool"
  listen_fd :: int
  listen_calls :: "socket_call list"

text \<open>The constructor of a scheduler posts the initialisation of its thread to its loop.\<close>

definition init_scheduler :: "sched_cb loop \<Rightarrow> sched_cb loop" where
  "init_scheduler lp = snd (snd (add_callback True Env_init lp))"

definition new_tcp_server2 :: "u64 \<Rightarrow> nat \<Rightarrow> co_system res" where
  "new_tcp_server2 now n =
     bind_res (new_co_server now n) (\<lambda>sv.
     let p = new_loop_pool n
     in Inr \<lparr>service = sv, run_loops = p\<lparr>loop_list := map init_scheduler (loop_list p)\<rparr>,
             listen_fd = - 1, listen_calls = []\<rparr>)"

text \<open>What a scheduler posts when its coroutines change: \<open>handle_co\<close>, or nothing.\<close>

definition post_handler :: "co_state \<Rightarrow> co_state \<Rightarrow> sched_cb loop \<Rightarrow> sched_cb loop" where
  "post_handler st st' lp = (if handlers st < handlers st' then add_callback_after Handle_co lp else lp)"

definition accept_on_main :: "co_prog \<Rightarrow> 'm co_system_scheme \<Rightarrow> 'm co_system_scheme res" where
  "accept_on_main acceptor sys =
     bind_res (server_run acceptor (service sys)) (\<lambda>sv.
     let p = run_loops sys; i = length (loop_list p) - 1;
         lp = post_handler (sche_list (schedulers (service sys)) ! i) (sche_list (schedulers sv) ! i) (loop_list p ! i)
     in Inr (sys\<lparr>service := sv, run_loops := p\<lparr>loop_list := (loop_list p)[i := lp]\<rparr>\<rparr>))"

text \<open>\<open>run\<close> up to \<open>wait_stop\<close>, with the accepting coroutine.\<close>

definition server2_begin ::
  "bool \<Rightarrow> listen_env \<Rightarrow> co_prog \<Rightarrow> 'm co_system_scheme \<Rightarrow> 'm co_system_scheme res" where
  "server2_begin ndebug env acceptor sys =
     bind_res (create_listen_fd ndebug env) (\<lambda>(fd, calls).
     bind_res (accept_on_main acceptor (sys\<lparr>listen_fd := fd, listen_calls := calls\<rparr>)) (\<lambda>sys1.
     bind_res (pool_start (run_loops sys1)) (\<lambda>p. Inr (sys1\<lparr>run_loops := p\<rparr>))))"

definition server2_wait :: "nat \<Rightarrow> 'm co_system_scheme \<Rightarrow> 'm co_system_scheme res option" where
  "server2_wait n sys =
     map_option (\<lambda>r. bind_res r (\<lambda>p. Inr (sys\<lparr>run_loops := p\<rparr>))) (wait_stop n (run_loops sys))"

definition server2_stop :: "'m co_system_scheme \<Rightarrow> 'm co_system_scheme" where
  "server2_stop sys = sys\<lparr>run_loops := pool_stop (run_loops sys)\<rparr>"

text \<open>The HTTP server: the coroutine server, its paths, and the signals its threads block.\<close>

record http_system = co_system +
  path_cb_map :: path_table
  blocked_signals :: "signal set"

definition new_http_server2 :: "u64 \<Rightarrow> nat \<Rightarrow> signal set \<Rightarrow> http_system res" where
  "new_http_server2 now n sigs =
     bind_res (new_tcp_server2 now n) (\<lambda>sys.
     Inr (co_system.extend sys \<lparr>path_cb_map = (\<lambda>_. None), blocked_signals = sigs\<rparr>))"

definition http_add_bind :: "string \<Rightarrow> http_callback \<Rightarrow> http_system \<Rightarrow> http_system" where
  "http_add_bind path cb sys = sys\<lparr>path_cb_map := add_bind path cb (path_cb_map sys)\<rparr>"

definition http_begin :: "bool \<Rightarrow> listen_env \<Rightarrow> co_prog \<Rightarrow> http_system \<Rightarrow> http_system res" where
  "http_begin ndebug env acceptor sys =
     server2_begin ndebug env acceptor (sys\<lparr>blocked_signals := block_sigpipe (blocked_signals sys)\<rparr>)"

section \<open>Starting and stopping\<close>

lemma init_scheduler_simps [simp]:
  "phase (init_scheduler lp) = phase lp" "is_loop (init_scheduler lp) = is_loop lp"
  "posted (init_scheduler lp) = (if is_loop lp then posted lp else posted lp @ [Env_init])"
  by (simp_all add: init_scheduler_def add_callback_def add_callback_after_def activate_def)

lemma post_handler_simps [simp]:
  "phase (post_handler st st' lp) = phase lp" "is_loop (post_handler st st' lp) = is_loop lp"
  by (simp_all add: post_handler_def add_callback_after_def activate_def)

lemma reach_init: "loop_reach lp \<Longrightarrow> \<not> is_loop lp \<Longrightarrow> loop_reach (init_scheduler lp)"
  using loop_reach.step loop_step.post by (fastforce simp: init_scheduler_def add_callback_def)

lemma reach_post_handler: "loop_reach lp \<Longrightarrow> loop_reach (post_handler st st' lp)"
  using loop_reach.step loop_step.post by (fastforce simp: post_handler_def)

text \<open>The accepting coroutine makes the last scheduler post its \<open>handle_co\<close>.\<close>

lemma accept_on_main_new:
  fixes sys :: "'m co_system_scheme"
  assumes n: "1 \<le> n" and sched: "schedulers (service sys) = new_sche_pool now n"
    and loops: "loop_list (run_loops sys) = replicate n (init_scheduler new_loop)"
  obtains sv where "accept_on_main acceptor sys = Inr (sys\<lparr>service := sv, run_loops := (run_loops sys)
      \<lparr>loop_list := (replicate n (init_scheduler new_loop))[n - 1 := add_callback_after Handle_co (init_scheduler new_loop)]\<rparr>\<rparr>)"
proof -
  let ?sts = "replicate n (co_init now)"
  have i: "n - 1 < length ?sts" using n by simp
  obtain sts c where sts: "spawn_on acceptor (n - 1) ?sts = Inr sts" "scheds_inv sts" "length sts = n"
      "c \<in> set (ready_queue (sts ! (n - 1)))"
    using spawn_on_ok [OF scheds_inv_init [of n now] i, of acceptor] by auto
  have "co_inv (sts ! (n - 1))" using scheds_invD(1) [OF sts(2)] sts(3) n by simp
  moreover have "ready_queue (sts ! (n - 1)) \<noteq> []" using sts(4) by auto
  ultimately have "handlers (sts ! (n - 1)) = 1" unfolding co_inv_def by auto
  then have "handlers (?sts ! (n - 1)) < handlers (sts ! (n - 1))" using n by (simp add: co_init_def)
  then show ?thesis
    using that [of "service sys\<lparr>schedulers := (schedulers (service sys))\<lparr>sche_list := sts\<rparr>\<rparr>"] sts(1) n
    by (simp add: accept_on_main_def server_run_def add_to_main_def sched new_sche_pool_def loops post_handler_def Let_def)
qed

text \<open>
  \<open>run\<close> of a coroutine server brings it to a state in which every thread has been made, each
  loop has the initialisation of its thread to call, and the last one \<open>handle_co\<close>.
\<close>

lemma server2_begin_new:
  fixes sys :: "'m co_system_scheme"
  assumes n: "1 \<le> n" and sched: "schedulers (service sys) = new_sche_pool now n"
    and loops: "loop_list (run_loops sys) = replicate n (init_scheduler new_loop)"
    and threads: "thread_list (run_loops sys) = replicate n No_thread"
    and ok: "create_listen_fd ndebug env = Inr (fd, calls)"
  obtains sv p where "server2_begin ndebug env acceptor sys
      = Inr (sys\<lparr>listen_fd := fd, listen_calls := calls, service := sv, run_loops := p\<rparr>)"
    and "length (loop_list p) = n" and "threads_inv p" and "thread_list p = replicate n Starting"
    and "\<forall>i < n. posted (loop_list p ! i) = Env_init # (if i = n - 1 then [Handle_co] else [])"
proof -
  let ?sys = "sys\<lparr>listen_fd := fd, listen_calls := calls\<rparr>"
  let ?lps = "(replicate n (init_scheduler new_loop))[n - 1 := add_callback_after Handle_co (init_scheduler new_loop)]"
  let ?p = "(run_loops sys)\<lparr>loop_list := ?lps, thread_list := replicate n Starting\<rparr>"
  have fresh: "schedulers (service ?sys) = new_sche_pool now n"
      "loop_list (run_loops ?sys) = replicate n (init_scheduler new_loop)" using sched loops by simp_all
  obtain sv where sv: "accept_on_main acceptor ?sys
      = Inr (?sys\<lparr>service := sv, run_loops := (run_loops ?sys)\<lparr>loop_list := ?lps\<rparr>\<rparr>)"
    by (rule accept_on_main_new [OF n fresh])
  have begun: "server2_begin ndebug env acceptor sys
      = Inr (sys\<lparr>listen_fd := fd, listen_calls := calls, service := sv, run_loops := ?p\<rparr>)"
    by (simp add: server2_begin_def ok sv pool_start_def threads start_threads_new)
  have one: "loop_reach (init_scheduler new_loop)" "phase (init_scheduler new_loop) = Idle" "\<not> is_loop (init_scheduler new_loop)"
    using reach_init [OF loop_reach.fresh] by (simp_all add: new_loop_idle)
  have two: "loop_reach (add_callback_after Handle_co (init_scheduler new_loop))"
    using loop_reach.step [OF one(1) loop_step.post] .
  have inv: "threads_inv ?p"
    using one two by (simp add: threads_inv_def thread_ok_def nth_list_update add_callback_after_def activate_def)
  have "posted (?lps ! i) = Env_init # (if i = n - 1 then [Handle_co] else [])" if "i < n" for i
    using that by (simp add: nth_list_update add_callback_after_def activate_def new_loop_def)
  then show ?thesis using that [OF begun _ inv] by simp
qed

text \<open>
  From then on, whatever its threads and others do: the wait of \<open>run\<close> does not end while some
  thread has not entered its loop or was not stopped; \<open>stop\<close> ends it when all have entered.
\<close>

lemma wait_and_stop:
  fixes sys :: "'m co_system_scheme"
  assumes sys: "run_loops sys = p" and p: "threads_inv p" "length (loop_list p) = n" "thread_list p = replicate n Starting"
    and steps: "pool_step\<^sup>*\<^sup>* p q"
  shows "let s = sys\<lparr>run_loops := q\<rparr>
      in ((\<exists>i < n. thread_list q ! i = Starting \<or> is_loop (loop_list q ! i)) \<longrightarrow> (\<forall>k. server2_wait k s = None))
       \<and> (\<exists>q'. pool_step\<^sup>*\<^sup>* q q' \<and> (\<forall>i < n. thread_list q' ! i = Entered))
       \<and> (if \<forall>i < n. thread_list q ! i = Entered
          then \<exists>m. \<forall>k \<ge> m. \<exists>q'. server2_wait k (server2_stop s) = Some (Inr (s\<lparr>run_loops := q'\<rparr>))
             \<and> (\<forall>i < n. phase (loop_list q' ! i) = Idle)
          else \<forall>k. server2_wait k (server2_stop s) = None)"
proof -
  let ?s = "sys\<lparr>run_loops := q\<rparr>"
  have q: "threads_inv q" "length (loop_list q) = n"
    using pool_steps_inv [OF steps p(1)] pool_steps_threads [OF steps] p(2) by simp_all
  have running: "server2_wait k ?s = None" if "\<exists>i < n. thread_list q ! i = Starting \<or> is_loop (loop_list q ! i)" for k
  proof -
    have "pool_stays q" using that q(1,2) by (auto simp: pool_stays_def stays_def threads_inv_def thread_ok_def)
    from wait_stop_stays [OF q(1) this] show ?thesis by (simp add: server2_wait_def)
  qed
  have all_entered: "(\<forall>i < n. thread_list r ! i = Entered) \<longleftrightarrow> Starting \<notin> set (thread_list r)"
    if r: "pool_step\<^sup>*\<^sup>* p r" for r
  proof -
    have "length (thread_list r) = n" "No_thread \<notin> set (thread_list r)"
      using pool_steps_inv [OF r p(1)] pool_steps_threads [OF r] pool_steps_made [OF r] p(2,3) by (auto simp: threads_inv_def)
    then show ?thesis using thread_state.exhaust by (metis in_set_conv_nth thread_state.distinct(5))
  qed
  note all = all_entered [OF steps]
  have can_enter: "\<exists>q'. pool_step\<^sup>*\<^sup>* q q' \<and> (\<forall>i < n. thread_list q' ! i = Entered)"
  proof -
    obtain q' where q': "pool_step\<^sup>*\<^sup>* q q'" "Starting \<notin> set (thread_list q')" using threads_enter [OF q(1)] by blast
    then show ?thesis using all_entered [OF rtranclp_trans [OF steps q'(1)]] by blast
  qed
  have stop_wait: "server2_wait k (server2_stop ?s)
      = map_option (\<lambda>r. bind_res r (\<lambda>q'. Inr (sys\<lparr>run_loops := q'\<rparr>))) (wait_stop k (pool_stop q))" for k
    by (simp add: server2_wait_def server2_stop_def)
  show ?thesis
  proof (cases "Starting \<in> set (thread_list q)")
    case True
    then have "pool_stays (pool_stop q)" by (simp add: pool_stays_stopped [OF q(1)])
    then have "server2_wait k (server2_stop ?s) = None" for k
      using wait_stop_stays [OF pool_stop_inv [OF q(1)]] by (simp add: stop_wait)
    moreover have outside: "\<not> (\<forall>i < n. thread_list q ! i = Entered)" using True all by blast
    ultimately show ?thesis using running can_enter unfolding Let_def if_not_P [OF outside] by blast
  next
    case False
    then have gone: "\<not> pool_stays (pool_stop q)" by (simp add: pool_stays_stopped [OF q(1)])
    have "\<exists>q'. server2_wait k (server2_stop ?s) = Some (Inr (?s\<lparr>run_loops := q'\<rparr>))
        \<and> (\<forall>i < n. phase (loop_list q' ! i) = Idle)" if "moves_needed q \<le> k" for k
    proof -
      have "moves_needed (pool_stop q) \<le> k" using that by simp
      then obtain q' where q': "wait_stop k (pool_stop q) = Some (Inr q')" "length (loop_list q') = length (loop_list (pool_stop q))"
          "\<forall>i < length (loop_list (pool_stop q)). thread_list q' ! i = No_thread
            \<and> left_run (thread_list (pool_stop q) ! i, loop_list (pool_stop q) ! i) (loop_list q' ! i)"
        by (rule wait_stop_leaves [OF pool_stop_inv [OF q(1)] gone])
      then show ?thesis using q(2) by (intro exI [of _ q']) (simp add: stop_wait left_run_def pool_stop_def)
    qed
    then have "\<exists>m. \<forall>k \<ge> m. \<exists>q'. server2_wait k (server2_stop ?s) = Some (Inr (?s\<lparr>run_loops := q'\<rparr>))
        \<and> (\<forall>i < n. phase (loop_list q' ! i) = Idle)" by blast
    moreover have entered: "\<forall>i < n. thread_list q ! i = Entered" using False all by blast
    ultimately show ?thesis using running can_enter unfolding Let_def if_P [OF entered] by blast
  qed
qed

text \<open>
  C36: The HTTP server from its start to its end, in either build, when the socket calls that
  are made succeed. With any number of threads from 1 on, \<open>run\<close> gets to its wait: the socket has
  been set up, bound and is listening, unless \<open>NDEBUG\<close> left the calls out; SIGPIPE is blocked, the
  path bound before is bound, every thread has been made, and each loop has the initialisation
  of its scheduler to call, the last one with the accepting coroutine. From then on the threads
  enter \<open>run\<close> and go through their rounds, and other threads post and stop, in any interleaving.
  At any point: as long as some thread has not entered \<open>run\<close>, or has not been stopped, the wait
  does not end. And \<open>stop\<close> called at that point ends it, with every thread out of its loop, if
  every thread has entered \<open>run\<close> by then, which they can always still do; if one enters only
  later, that thread loses the stop and \<open>run\<close> never returns.
\<close>

theorem http_server_runs:
  assumes n: "1 \<le> n"
    and env: "ndebug \<or> 0 \<le> socket_ret env \<and> 0 \<le> reuse_ret env \<and> 0 \<le> bind_ret env \<and> 0 \<le> listen_ret env"
  shows "\<exists>sys0 sys1. new_http_server2 now n sigs = Inr sys0
    \<and> http_begin ndebug env acceptor (http_add_bind path cb sys0) = Inr sys1
    \<and> listen_fd sys1 = socket_ret env \<and> listen_calls sys1 = (if ndebug then [] else [Set_reuse, Bind_addr, Listen_on])
    \<and> SIGPIPE \<in> blocked_signals sys1 \<and> path_cb_map sys1 path = Some cb
    \<and> thread_list (run_loops sys1) = replicate n Starting
    \<and> (\<forall>i < n. posted (loop_list (run_loops sys1) ! i) = Env_init # (if i = n - 1 then [Handle_co] else []))
    \<and> (\<forall>p. pool_step\<^sup>*\<^sup>* (run_loops sys1) p \<longrightarrow>
        (let sys = sys1\<lparr>run_loops := p\<rparr>
         in ((\<exists>i < n. thread_list p ! i = Starting \<or> is_loop (loop_list p ! i)) \<longrightarrow> (\<forall>k. server2_wait k sys = None))
          \<and> (\<exists>q. pool_step\<^sup>*\<^sup>* p q \<and> (\<forall>i < n. thread_list q ! i = Entered))
          \<and> (if \<forall>i < n. thread_list p ! i = Entered
             then \<exists>m. \<forall>k \<ge> m. \<exists>q. server2_wait k (server2_stop sys) = Some (Inr (sys\<lparr>run_loops := q\<rparr>))
                \<and> (\<forall>i < n. phase (loop_list q ! i) = Idle)
             else \<forall>k. server2_wait k (server2_stop sys) = None)))"
proof -
  obtain sys0 where sys0: "new_http_server2 now n sigs = Inr sys0" "schedulers (service sys0) = new_sche_pool now n"
      "loop_list (run_loops sys0) = replicate n (init_scheduler new_loop)" "thread_list (run_loops sys0) = replicate n No_thread"
    using n by (simp add: new_http_server2_def new_tcp_server2_def new_co_server_def new_loop_pool_def
        co_system.extend_def Let_def)
  let ?sys = "(http_add_bind path cb sys0)\<lparr>blocked_signals := block_sigpipe (blocked_signals sys0)\<rparr>"
  let ?calls = "if ndebug then [] else [Set_reuse, Bind_addr, Listen_on]"
  have fresh: "schedulers (service ?sys) = new_sche_pool now n"
      "loop_list (run_loops ?sys) = replicate n (init_scheduler new_loop)" "thread_list (run_loops ?sys) = replicate n No_thread"
    using sys0(2-4) by (simp_all add: http_add_bind_def)
  have listening: "create_listen_fd ndebug env = Inr (socket_ret env, ?calls)"
    using env by (auto simp: create_listen_fd_def assert_call_def)
  obtain sv p where p: "server2_begin ndebug env acceptor ?sys
        = Inr (?sys\<lparr>listen_fd := socket_ret env, listen_calls := ?calls, service := sv, run_loops := p\<rparr>)"
      "length (loop_list p) = n" "threads_inv p" "thread_list p = replicate n Starting"
      "\<forall>i < n. posted (loop_list p ! i) = Env_init # (if i = n - 1 then [Handle_co] else [])"
    by (rule server2_begin_new [OF n fresh listening])
  let ?sys1 = "?sys\<lparr>listen_fd := socket_ret env, listen_calls := ?calls, service := sv, run_loops := p\<rparr>"
  have begun: "http_begin ndebug env acceptor (http_add_bind path cb sys0) = Inr ?sys1"
    using p(1) by (simp add: http_begin_def http_add_bind_def)
  have later: "let sys = ?sys1\<lparr>run_loops := q\<rparr>
      in ((\<exists>i < n. thread_list q ! i = Starting \<or> is_loop (loop_list q ! i)) \<longrightarrow> (\<forall>k. server2_wait k sys = None))
       \<and> (\<exists>q'. pool_step\<^sup>*\<^sup>* q q' \<and> (\<forall>i < n. thread_list q' ! i = Entered))
       \<and> (if \<forall>i < n. thread_list q ! i = Entered
          then \<exists>m. \<forall>k \<ge> m. \<exists>q'. server2_wait k (server2_stop sys) = Some (Inr (sys\<lparr>run_loops := q'\<rparr>))
             \<and> (\<forall>i < n. phase (loop_list q' ! i) = Idle)
          else \<forall>k. server2_wait k (server2_stop sys) = None)"
    if steps: "pool_step\<^sup>*\<^sup>* p q" for q
    by (rule wait_and_stop) (use p(2-4) steps in simp_all)
  have fields: "listen_fd ?sys1 = socket_ret env" "listen_calls ?sys1 = ?calls"
      "SIGPIPE \<in> blocked_signals ?sys1" "path_cb_map ?sys1 path = Some cb" "run_loops ?sys1 = p"
    by (simp_all add: block_sigpipe_def http_add_bind_def add_bind_def)
  show ?thesis
    by (intro exI [of _ sys0] exI [of _ ?sys1] conjI allI impI)
      (use fields(3,4) sys0(1) begun p(4,5) later in \<open>simp_all only: fields(1,2,5)\<close>)
qed

theorem http_server_runs_witness:
  "\<exists>sys0 sys1 p. new_http_server2 0 3 {} = Inr sys0
    \<and> http_begin False \<lparr>socket_ret = 4, reuse_ret = 0, bind_ret = 0, listen_ret = 0\<rparr> Co_end
        (http_add_bind ''/'' (\<lambda>_ _ r. r) sys0) = Inr sys1
    \<and> listen_fd sys1 = 4 \<and> listen_calls sys1 = [Set_reuse, Bind_addr, Listen_on]
    \<and> (\<forall>k. server2_wait k (server2_stop sys1) = None)
    \<and> pool_step\<^sup>*\<^sup>* (run_loops sys1) p
    \<and> (\<exists>k sys2. server2_wait k (server2_stop (sys1\<lparr>run_loops := p\<rparr>)) = Some (Inr sys2))"
proof -
  let ?env = "\<lparr>socket_ret = 4, reuse_ret = 0, bind_ret = 0, listen_ret = 0\<rparr> :: listen_env"
  have "(1 :: nat) \<le> 3" "False \<or> 0 \<le> socket_ret ?env \<and> 0 \<le> reuse_ret ?env \<and> 0 \<le> bind_ret ?env \<and> 0 \<le> listen_ret ?env" by simp_all
  note run = http_server_runs [OF this, of 0 "{}" Co_end "''/''" "\<lambda>_ _ r. r", unfolded if_False Let_def]
  obtain sys0 sys1 where sys: "new_http_server2 0 3 {} = Inr sys0"
      "http_begin False ?env Co_end (http_add_bind ''/'' (\<lambda>_ _ r. r) sys0) = Inr sys1" "listen_fd sys1 = socket_ret ?env"
      "listen_calls sys1 = [Set_reuse, Bind_addr, Listen_on]" "thread_list (run_loops sys1) = replicate 3 Starting"
    and later: "\<forall>p. pool_step\<^sup>*\<^sup>* (run_loops sys1) p \<longrightarrow>
        ((\<exists>i < 3. thread_list p ! i = Starting \<or> is_loop (loop_list p ! i)) \<longrightarrow> (\<forall>k. server2_wait k (sys1\<lparr>run_loops := p\<rparr>) = None))
          \<and> (\<exists>q. pool_step\<^sup>*\<^sup>* p q \<and> (\<forall>i < 3. thread_list q ! i = Entered))
          \<and> (if \<forall>i < 3. thread_list p ! i = Entered
             then \<exists>m. \<forall>k \<ge> m. \<exists>q. server2_wait k (server2_stop (sys1\<lparr>run_loops := p\<rparr>)) = Some (Inr (sys1\<lparr>run_loops := p, run_loops := q\<rparr>))
                \<and> (\<forall>i < 3. phase (loop_list q ! i) = Idle)
             else \<forall>k. server2_wait k (server2_stop (sys1\<lparr>run_loops := p\<rparr>)) = None)"
    using run by (elim exE conjE) assumption
  note now = later [rule_format, OF rtranclp.rtrancl_refl]
  have "\<not> (\<forall>i < 3. thread_list (run_loops sys1) ! i = Entered)" using sys(5) by (auto intro!: exI [of _ 0])
  with now have "\<forall>k. server2_wait k (server2_stop sys1) = None" by simp
  moreover obtain p where p: "pool_step\<^sup>*\<^sup>* (run_loops sys1) p" "\<forall>i < 3. thread_list p ! i = Entered" using now by blast
  moreover have "\<exists>k sys2. server2_wait k (server2_stop (sys1\<lparr>run_loops := p\<rparr>)) = Some (Inr sys2)"
    using later [rule_format, OF p(1), unfolded if_P [OF p(2)]] by blast
  moreover have "listen_fd sys1 = 4" using sys(3) by simp
  ultimately show ?thesis using sys(1,2,4) by blast
qed

end
