(* ===== verification/Formats.thy ===== *)
theory Formats
  imports TcpConnection LogLines TimerWheel
begin

text \<open>
  The helpers of src/src/base/base.cpp: \<open>to_format_str\<close>, with what the format prints as its
  argument, and the clock of the timers; and \<open>TCPConnection::to_str\<close> (src/src/tcp/TcpConnection.cpp),
  which prints with the first.
\<close>

section \<open>Formatted text\<close>

text \<open>\<open>vsnprintf\<close> into 1024 bytes: at most 1023 of them and a zero; the string keeps all 1024.\<close>

definition format_buf_size :: nat where
  "format_buf_size = 1024"

definition to_format_str :: "string \<Rightarrow> string" where
  "to_format_str printed =
     overwrite 0 (take (format_buf_size - 1) printed @ [nul]) (replicate format_buf_size nul)"

text \<open>\<open>c_str\<close>, as a reader of the text up to the first zero sees it.\<close>

definition c_str :: "string \<Rightarrow> string" where
  "c_str s = takeWhile (\<lambda>c. c \<noteq> nul) s"

fun state_index :: "conn_state \<Rightarrow> nat" where
  "state_index CONNECTING = 0"
| "state_index HALF_CLOSE = 1"
| "state_index FULL_CLOSE = 2"

definition conn_to_str :: "int \<Rightarrow> string \<Rightarrow> int \<Rightarrow> conn_state \<Rightarrow> string" where
  "conn_to_str fd ip port st =
     to_format_str (''fd='' @ to_string fd @ '' ip='' @ ip @ '' port='' @ to_string port
       @ '' state='' @ to_string (int (state_index st)))"

text \<open>The clock: nanoseconds since it was started, as milliseconds.\<close>

definition get_now_timestamp :: "nat \<Rightarrow> u64" where
  "get_now_timestamp ns = of_nat (ns div 1000000)"

section \<open>Properties\<close>

text \<open>
  The result of \<open>to_format_str\<close> always has 1024 characters: the printed text, cut after 1023, and
  zeros. So it is never the text itself unless the text ends in zeros, and only who reads it up
  to the first zero sees what was printed.
\<close>

lemma format_str_eq: "to_format_str t = take 1023 t @ replicate (1024 - length (take 1023 t)) nul"
proof -
  have "replicate (1024 - length (take 1023 t)) nul = nul # replicate (1023 - length (take 1023 t)) nul"
    by (simp add: Suc_diff_le flip: replicate_Suc)
  then show ?thesis by (simp add: to_format_str_def format_buf_size_def overwrite_def)
qed

theorem format_str_padded:
  "to_format_str t = take 1023 t @ replicate (1024 - length (take 1023 t)) nul \<and> length (to_format_str t) = 1024"
  by (simp add: format_str_eq)

lemma c_str_format: "nul \<notin> set t \<Longrightarrow> c_str (to_format_str t) = take 1023 t"
proof -
  assume "nul \<notin> set t"
  then have "\<forall>c \<in> set (take 1023 t). c \<noteq> nul" using set_take_subset by fastforce
  then show ?thesis by (simp add: format_str_eq c_str_def takeWhile_append)
qed

lemma digit_char_not_nul: "n < 10 \<Longrightarrow> digit_char n \<noteq> nul"
  using of_char_digit [of n] by auto

lemma nat_digits_no_nul: "nul \<notin> set (nat_digits n)"
  by (induction n rule: nat_digits.induct) (subst nat_digits.simps, simp add: digit_char_not_nul [symmetric])

text \<open>
  What \<open>to_str\<close> shows of a connection with a dotted address and numbers in the range of an
  \<open>int\<close> is complete.
\<close>

lemma length_to_string: "\<bar>i\<bar> < 10 ^ 10 \<Longrightarrow> length (to_string i) \<le> 11"
  using length_nat_digits_le [of "nat (- i)" 10] length_nat_digits_le [of "nat i" 10] nat_less_iff [of i "10 ^ 10"]
  by (cases "i < 0") (simp_all add: to_string_def)

lemma to_string_no_nul: "nul \<notin> set (to_string i)"
  by (simp add: to_string_def nat_digits_no_nul)

theorem conn_str_shown:
  assumes "\<bar>fd\<bar> < 2 ^ 31" and "\<bar>port\<bar> < 2 ^ 31" and "length ip \<le> 15" and "nul \<notin> set ip"
  shows "c_str (conn_to_str fd ip port st) = ''fd='' @ to_string fd @ '' ip='' @ ip @ '' port='' @ to_string port
    @ '' state='' @ to_string (int (state_index st))"
proof -
  let ?t = "''fd='' @ to_string fd @ '' ip='' @ ip @ '' port='' @ to_string port @ '' state='' @ to_string (int (state_index st))"
  have "length (to_string (int (state_index st))) \<le> 11" by (rule length_to_string) (cases st; simp)
  moreover have "length (to_string fd) \<le> 11" "length (to_string port) \<le> 11"
    by (rule length_to_string, use assms(1,2) in simp)+
  ultimately have short: "length ?t \<le> 1023" using assms(3) by simp
  have clean: "nul \<notin> set ?t" using assms(4) to_string_no_nul by auto
  have "c_str (to_format_str ?t) = take 1023 ?t" by (rule c_str_format [OF clean])
  also have "\<dots> = ?t" by (rule take_all [OF short])
  finally show ?thesis by (simp only: conn_to_str_def)
qed

text \<open>
  The clock of the timers does not go back and is at most a millisecond behind, for the 584
  million years in which the milliseconds fit into 64 bits.
\<close>

theorem clock_exact:
  assumes "ns \<le> ns'" and "ns' < 2 ^ 64 * 1000000"
  shows "get_now_timestamp ns \<le> get_now_timestamp ns'"
    and "unat (get_now_timestamp ns') * 1000000 \<le> ns' \<and> ns' < (unat (get_now_timestamp ns') + 1) * 1000000"
proof -
  have val: "unat (get_now_timestamp k) = k div 1000000" if "k < 2 ^ 64 * 1000000" for k
    using that by (simp add: get_now_timestamp_def unat_of_nat take_bit_nat_eq_self less_mult_imp_div_less)
  show "get_now_timestamp ns \<le> get_now_timestamp ns'"
    using assms by (simp add: word_le_nat_alt val div_le_mono)
  show "unat (get_now_timestamp ns') * 1000000 \<le> ns' \<and> ns' < (unat (get_now_timestamp ns') + 1) * 1000000"
    using dividend_less_times_div [of 1000000 ns'] by (simp add: val [OF assms(2)] mult.commute)
qed
end
