(* ===== verification/ContextSwitch.thy ===== *)
theory ContextSwitch
  imports Prelude
begin

text \<open>
  The switch of coroutines at the level of the machine: \<open>co_swap\<close> (src/src/co/co_swap.s), the
  context \<open>regs_t\<close> it saves and loads (src/src/co/Coroutine.hpp), and \<open>set_callback\<close>, \<open>resume\<close>
  and \<open>yield\<close> (src/src/co/Coroutine.cpp). This is what lets the programs of \<open>Coroutines\<close> stop and
  go on. Memory is addressed by 64-bit words at multiples of 8; an instruction with any other
  address is outside the model (\<open>None\<close>), and the stack pointer and the objects are aligned.
\<close>

section \<open>Machine and instructions\<close>

text \<open>\<open>RET\<close> is no register: it names the field of \<open>regs_t\<close> for the return address.\<close>

datatype reg = RAX | RBX | RCX | RDX | RSI | RDI | RBP | RSP | R8 | R9 | R12 | R13 | R14 | R15 | RET

record machine =
  regs :: "reg \<Rightarrow> 64 word"
  mem :: "64 word \<Rightarrow> 64 word"
  rip :: "64 word"
  pre_co :: "64 word \<Rightarrow> 64 word"

text \<open>
  The instructions of the file, with operands in the order of its syntax: \<open>Store r o b\<close> is
  \<open>movq %r, o(%b)\<close>, \<open>Load o b r\<close> is \<open>movq o(%b), %r\<close>, \<open>Lea o b r\<close> is \<open>leaq o(%b), %r\<close>.
\<close>

datatype instr =
    Lea "64 word" reg reg
  | Store reg "64 word" reg
  | Load "64 word" reg reg
  | Xor reg reg
  | Push "64 word" reg
  | Ret

definition aligned :: "64 word \<Rightarrow> bool" where
  "aligned a \<longleftrightarrow> unat a mod 8 = 0"

fun instr_step :: "instr \<Rightarrow> machine \<Rightarrow> machine option" where
  "instr_step (Lea d b r) m = Some (m\<lparr>regs := (regs m)(r := regs m b + d)\<rparr>)"
| "instr_step (Store r d b) m =
     (let a = regs m b + d in if aligned a then Some (m\<lparr>mem := (mem m)(a := regs m r)\<rparr>) else None)"
| "instr_step (Load d b r) m =
     (let a = regs m b + d in if aligned a then Some (m\<lparr>regs := (regs m)(r := mem m a)\<rparr>) else None)"
| "instr_step (Xor r s) m = Some (m\<lparr>regs := (regs m)(s := xor (regs m s) (regs m r))\<rparr>)"
| "instr_step (Push d b) m =
     (let a = regs m b + d; sp = regs m RSP - 8
      in if aligned a \<and> aligned sp
         then Some (m\<lparr>mem := (mem m)(sp := mem m a), regs := (regs m)(RSP := sp)\<rparr>) else None)"
| "instr_step Ret m =
     (let sp = regs m RSP
      in if aligned sp then Some (m\<lparr>rip := mem m sp, regs := (regs m)(RSP := sp + 8)\<rparr>) else None)"

fun exec :: "instr list \<Rightarrow> machine \<Rightarrow> machine option" where
  "exec [] m = Some m"
| "exec (i # is) m = (case instr_step i m of None \<Rightarrow> None | Some m1 \<Rightarrow> exec is m1)"

section \<open>The code\<close>

definition swap_save :: "instr list" where
  "swap_save =
     [Lea 0 RSP RAX, Store RAX 104 RDI, Store RBX 96 RDI, Store RCX 88 RDI, Store RDX 80 RDI,
      Load 0 RAX RAX, Store RAX 72 RDI, Store RSI 64 RDI, Store RDI 56 RDI, Store RBP 48 RDI,
      Store R8 40 RDI, Store R9 32 RDI, Store R12 24 RDI, Store R13 16 RDI, Store R14 8 RDI,
      Store R15 0 RDI, Xor RAX RAX]"

definition swap_load :: "instr list" where
  "swap_load =
     [Load 48 RSI RBP, Load 104 RSI RSP, Load 0 RSI R15, Load 8 RSI R14, Load 16 RSI R13,
      Load 24 RSI R12, Load 32 RSI R9, Load 40 RSI R8, Load 56 RSI RDI, Load 80 RSI RDX,
      Load 88 RSI RCX, Load 96 RSI RBX, Lea 8 RSP RSP, Push 72 RSI, Load 64 RSI RSI, Ret]"

definition co_swap :: "machine \<Rightarrow> machine option" where
  "co_swap m = exec (swap_save @ swap_load) m"

text \<open>The fields of \<open>regs_t\<close>, the first member of a coroutine, in their order.\<close>

definition regs_t :: "reg list" where
  "regs_t = [R15, R14, R13, R12, R9, R8, RBP, RDI, RSI, RET, RDX, RCX, RBX, RSP]"

primrec index_of :: "reg \<Rightarrow> reg list \<Rightarrow> nat" where
  "index_of r [] = 0"
| "index_of r (x # xs) = (if x = r then 0 else Suc (index_of r xs))"

definition field :: "reg \<Rightarrow> 64 word" where
  "field r = 8 * of_nat (index_of r regs_t)"

definition context_at :: "64 word \<Rightarrow> 64 word set" where
  "context_at co = (\<lambda>r. co + field r) ` set regs_t"

text \<open>A call of \<open>co_swap(a, b)\<close> from C++: the return address is pushed, the arguments are in registers.\<close>

definition call_swap :: "64 word \<Rightarrow> 64 word \<Rightarrow> 64 word \<Rightarrow> machine \<Rightarrow> machine option" where
  "call_swap a b ret m =
     (let sp = regs m RSP - 8
      in if aligned sp
         then co_swap (m\<lparr>mem := (mem m)(sp := ret), regs := (regs m)(RSP := sp, RDI := a, RSI := b)\<rparr>)
         else None)"

definition resume :: "64 word \<Rightarrow> 64 word \<Rightarrow> 64 word \<Rightarrow> machine \<Rightarrow> machine option" where
  "resume this next ret m = call_swap this next ret (m\<lparr>pre_co := (pre_co m)(next := this)\<rparr>)"

text \<open>\<open>yield\<close> asserts that there is a coroutine to go back to; a failed assertion is \<open>None\<close> too.\<close>

definition yield_co :: "64 word \<Rightarrow> 64 word \<Rightarrow> machine \<Rightarrow> machine option" where
  "yield_co this ret m = (if pre_co m this \<noteq> 0 then call_swap this (pre_co m this) ret m else None)"

text \<open>\<open>set_callback\<close> for a coroutine at \<open>co\<close> with its stack block at \<open>st_ptr\<close>.\<close>

definition st_size :: "64 word" where
  "st_size = 128 * 1024"

definition stack_base :: "64 word \<Rightarrow> 64 word" where
  "stack_base st_ptr = and (st_ptr + st_size - 8) (- 16)"

definition set_callback :: "64 word \<Rightarrow> 64 word \<Rightarrow> 64 word \<Rightarrow> machine \<Rightarrow> machine" where
  "set_callback co_fun co st_ptr m =
     (let sp = stack_base st_ptr;
          mem0 = (\<lambda>a. if a \<in> context_at co then 0 else mem m a)
      in m\<lparr>mem := mem0(sp := 0, co + field RSP := sp, co + field RET := co_fun, co + field RDI := co),
           pre_co := (pre_co m)(co := 0)\<rparr>)"

section \<open>What the two halves do\<close>

lemma field_simps [simp]:
  "field R15 = 0" "field R14 = 8" "field R13 = 16" "field R12 = 24" "field R9 = 32" "field R8 = 40"
  "field RBP = 48" "field RDI = 56" "field RSI = 64" "field RET = 72" "field RDX = 80" "field RCX = 88"
  "field RBX = 96" "field RSP = 104"
  by (simp_all add: field_def regs_t_def)

lemma in_context: "r \<in> set regs_t \<Longrightarrow> co + field r \<in> context_at co"
  by (auto simp: context_at_def)

lemma aligned_add [simp]:
  assumes "aligned d"
  shows "aligned (a + d) = aligned a"
proof -
  have "unat (a + d) mod 8 = (unat a + unat d) mod 2 ^ 64 mod 8" by (simp add: unat_word_ariths)
  also have "\<dots> = (unat a + unat d) mod 8" by (rule mod_mod_cancel) simp
  also have "\<dots> = unat a mod 8" using assms by (metis aligned_def add.right_neutral mod_add_right_eq)
  finally show ?thesis by (simp add: aligned_def)
qed

lemma aligned_offsets [simp]:
  "aligned 0" "aligned 8" "aligned 16" "aligned 24" "aligned 32" "aligned 40" "aligned 48" "aligned 56"
  "aligned 64" "aligned 72" "aligned 80" "aligned 88" "aligned 96" "aligned 104" "aligned (- 8)"
  by (simp_all add: aligned_def)

lemma aligned_minus [simp]: "aligned (a - 8) = aligned a"
  using aligned_add [of "- 8" a] by simp

text \<open>The context of a call: registers as they are, the return address from the stack.\<close>

definition context_of :: "machine \<Rightarrow> reg \<Rightarrow> 64 word" where
  "context_of m r = (if r = RET then mem m (regs m RSP) else regs m r)"

definition put_context :: "64 word \<Rightarrow> (reg \<Rightarrow> 64 word) \<Rightarrow> (64 word \<Rightarrow> 64 word) \<Rightarrow> 64 word \<Rightarrow> 64 word" where
  "put_context co f mm = mm(co + 104 := f RSP, co + 96 := f RBX, co + 88 := f RCX, co + 80 := f RDX,
     co + 72 := f RET, co + 64 := f RSI, co + 56 := f RDI, co + 48 := f RBP, co + 40 := f R8,
     co + 32 := f R9, co + 24 := f R12, co + 16 := f R13, co + 8 := f R14, co := f R15)"

lemma context_at_eq:
  "context_at co = {co, co + 8, co + 16, co + 24, co + 32, co + 40, co + 48, co + 56, co + 64, co + 72,
     co + 80, co + 88, co + 96, co + 104}"
  by (auto simp: context_at_def regs_t_def)

lemma put_context_field: "r \<in> set regs_t \<Longrightarrow> put_context co f mm (co + field r) = f r"
  by (cases r) (simp_all add: regs_t_def put_context_def)

lemma put_context_other: "a \<notin> context_at co \<Longrightarrow> put_context co f mm a = mm a"
  by (simp add: put_context_def context_at_eq)

lemma exec_append: "exec (is @ js) m = (case exec is m of None \<Rightarrow> None | Some m1 \<Rightarrow> exec js m1)"
  by (induction "is" arbitrary: m) (simp_all split: option.split)

lemma save_context:
  assumes "aligned (regs m RDI)" and "aligned (regs m RSP)" and "regs m RSP \<notin> context_at (regs m RDI)"
  shows "exec swap_save m =
    Some (m\<lparr>regs := (regs m)(RAX := 0), mem := put_context (regs m RDI) (context_of m) (mem m)\<rparr>)"
  using assms
  by (simp add: swap_save_def Let_def context_at_eq put_context_def context_of_def)

text \<open>The registers after a switch to the context \<open>f\<close>; \<open>rax\<close> is not loaded.\<close>

definition loaded :: "(reg \<Rightarrow> 64 word) \<Rightarrow> (reg \<Rightarrow> 64 word) \<Rightarrow> reg \<Rightarrow> 64 word" where
  "loaded f old r = (if r = RSP then f RSP + 8 else if r = RAX \<or> r = RET then old r else f r)"

lemma load_context:
  assumes ctx: "\<And>r. r \<in> set regs_t \<Longrightarrow> mem m (regs m RSI + field r) = f r"
    and "aligned (regs m RSI)" and "aligned (f RSP)" and "f RSP \<notin> context_at (regs m RSI)"
  shows "exec swap_load m =
    Some (m\<lparr>regs := loaded f (regs m), mem := (mem m)(f RSP := f RET), rip := f RET\<rparr>)"
proof -
  let ?b = "regs m RSI"
  have fields: "mem m ?b = f R15" "mem m (?b + 8) = f R14" "mem m (?b + 16) = f R13" "mem m (?b + 24) = f R12"
      "mem m (?b + 32) = f R9" "mem m (?b + 40) = f R8" "mem m (?b + 48) = f RBP" "mem m (?b + 56) = f RDI"
      "mem m (?b + 64) = f RSI" "mem m (?b + 72) = f RET" "mem m (?b + 80) = f RDX" "mem m (?b + 88) = f RCX"
      "mem m (?b + 96) = f RBX" "mem m (?b + 104) = f RSP"
    using ctx [of R15] ctx [of R14] ctx [of R13] ctx [of R12] ctx [of R9] ctx [of R8] ctx [of RBP] ctx [of RDI]
      ctx [of RSI] ctx [of RET] ctx [of RDX] ctx [of RCX] ctx [of RBX] ctx [of RSP]
    by (simp_all add: regs_t_def)
  have apart: "?b + 64 \<noteq> f RSP" using assms(4) by (auto simp: context_at_eq)
  have regs: "(regs m)(RBP := f RBP, R15 := f R15, R14 := f R14, R13 := f R13, R12 := f R12, R9 := f R9,
      R8 := f R8, RDI := f RDI, RDX := f RDX, RCX := f RCX, RBX := f RBX, RSI := f RSI, RSP := f RSP + 8)
      = loaded f (regs m)"
  proof
    fix r show "((regs m)(RBP := f RBP, R15 := f R15, R14 := f R14, R13 := f R13, R12 := f R12, R9 := f R9,
      R8 := f R8, RDI := f RDI, RDX := f RDX, RCX := f RCX, RBX := f RBX, RSI := f RSI, RSP := f RSP + 8)) r
      = loaded f (regs m) r" by (cases r) (simp_all add: loaded_def)
  qed
  show ?thesis using assms(2,3) apart
    by (simp add: swap_load_def Let_def fields fun_upd_twist regs [symmetric])
qed

section \<open>A switch and the way back\<close>

text \<open>Two coroutines have their contexts apart, and the stack word \<open>sp\<close> is in neither.\<close>

definition apart :: "64 word \<Rightarrow> 64 word \<Rightarrow> 64 word \<Rightarrow> bool" where
  "apart a b sp \<longleftrightarrow> aligned a \<and> aligned b \<and> context_at a \<inter> context_at b = {}
     \<and> aligned sp \<and> sp \<notin> context_at a \<and> sp \<notin> context_at b"

definition saved_sp :: "64 word \<Rightarrow> machine \<Rightarrow> 64 word" where
  "saved_sp co m = mem m (co + field RSP)"

lemma call_swap_effect:
  assumes here: "apart a b (regs m RSP - 8)" and there: "apart a b (saved_sp b m)"
    and f: "\<And>r. r \<in> set regs_t \<Longrightarrow> mem m (b + field r) = f r"
  shows "\<exists>m1 g. call_swap a b ret m = Some m1 \<and> rip m1 = f RET \<and> pre_co m1 = pre_co m
    \<and> regs m1 = loaded f ((regs m)(RSP := regs m RSP - 8, RDI := a, RSI := b, RAX := 0))
    \<and> (\<forall>r \<in> set regs_t. mem m1 (a + field r) = g r)
    \<and> g RET = ret \<and> g RSP = regs m RSP - 8 \<and> g RDI = a \<and> g RSI = b
    \<and> (\<forall>r \<in> {RBX, RBP, R12, R13, R14, R15}. g r = regs m r)
    \<and> (\<forall>x. x \<notin> context_at a \<union> {regs m RSP - 8, saved_sp b m} \<longrightarrow> mem m1 x = mem m x)"
proof -
  let ?sp = "regs m RSP - 8"
  let ?m = "m\<lparr>mem := (mem m)(?sp := ret), regs := (regs m)(RSP := ?sp, RDI := a, RSI := b)\<rparr>"
  let ?m1 = "?m\<lparr>regs := (regs ?m)(RAX := 0), mem := put_context a (context_of ?m) (mem ?m)\<rparr>"
  have s: "saved_sp b m = f RSP" using f [of RSP] by (simp add: saved_sp_def regs_t_def)
  have inb: "b + field r \<in> context_at b" if "r \<in> set regs_t" for r by (rule in_context [OF that])
  have "exec swap_save ?m = Some ?m1"
    using save_context [of ?m] here by (simp add: apart_def)
  moreover have "exec swap_load ?m1 = Some (?m1\<lparr>regs := loaded f (regs ?m1), mem := (mem ?m1)(f RSP := f RET), rip := f RET\<rparr>)"
  proof (rule load_context)
    fix r assume r: "r \<in> set regs_t"
    then have "b + field r \<notin> context_at a" "b + field r \<noteq> ?sp" using here inb [OF r] by (auto simp: apart_def)
    then show "mem ?m1 (regs ?m1 RSI + field r) = f r"
      using f [OF r] by (simp add: put_context_other)
  qed (use there in \<open>simp_all add: apart_def s\<close>)
  ultimately have call: "call_swap a b ret m
      = Some (?m1\<lparr>regs := loaded f (regs ?m1), mem := (mem ?m1)(f RSP := f RET), rip := f RET\<rparr>)"
    using here by (simp add: call_swap_def co_swap_def exec_append Let_def apart_def)
  have out: "f RSP \<notin> context_at a" using there by (simp add: apart_def s)
  have saved: "((mem ?m1)(f RSP := f RET)) (a + field r) = context_of ?m r" if "r \<in> set regs_t" for r
    using in_context [OF that, of a] out put_context_field [OF that] by auto
  have other: "((mem ?m1)(f RSP := f RET)) x = mem m x" if "x \<notin> context_at a \<union> {?sp, saved_sp b m}" for x
    using that by (simp add: s put_context_other)
  show ?thesis
    by (rule exI [of _ "?m1\<lparr>regs := loaded f (regs ?m1), mem := (mem ?m1)(f RSP := f RET), rip := f RET\<rparr>"],
        rule exI [of _ "context_of ?m"])
      (use call saved other in \<open>simp add: context_of_def fun_upd_twist\<close>)
qed

text \<open>
  What a coroutine finds when another one switches back to it: it goes on behind its call, with
  its stack pointer and the registers a callee must preserve.
\<close>

lemma swap_back:
  assumes here: "apart a b (regs m RSP - 8)" and there: "apart a b (saved_sp b m)"
  shows "\<exists>m1. call_swap a b ret m = Some m1 \<and> rip m1 = mem m (b + field RET) \<and> regs m1 RSP = saved_sp b m + 8
    \<and> regs m1 RDI = mem m (b + field RDI) \<and> pre_co m1 = pre_co m
    \<and> (\<forall>x. x \<notin> context_at a \<union> {regs m RSP - 8, saved_sp b m} \<longrightarrow> mem m1 x = mem m x)
    \<and> (\<forall>c m2 ret2. (\<forall>x \<in> context_at a. mem m2 x = mem m1 x) \<and> apart c a (regs m2 RSP - 8)
          \<and> apart c a (regs m RSP - 8) \<longrightarrow>
        (\<exists>m3. call_swap c a ret2 m2 = Some m3 \<and> rip m3 = ret \<and> regs m3 RSP = regs m RSP
          \<and> (\<forall>r \<in> {RBX, RBP, R12, R13, R14, R15}. regs m3 r = regs m r)
          \<and> (\<forall>x. x \<notin> context_at c \<union> {regs m2 RSP - 8, regs m RSP - 8} \<longrightarrow> mem m3 x = mem m2 x)))"
proof -
  obtain m1 g where m1: "call_swap a b ret m = Some m1" "rip m1 = mem m (b + field RET)" "pre_co m1 = pre_co m"
      "regs m1 = loaded (\<lambda>r. mem m (b + field r)) ((regs m)(RSP := regs m RSP - 8, RDI := a, RSI := b, RAX := 0))"
      and g: "\<forall>r \<in> set regs_t. mem m1 (a + field r) = g r" "g RET = ret" "g RSP = regs m RSP - 8"
        "\<forall>r \<in> {RBX, RBP, R12, R13, R14, R15}. g r = regs m r"
      and frame: "\<forall>x. x \<notin> context_at a \<union> {regs m RSP - 8, saved_sp b m} \<longrightarrow> mem m1 x = mem m x"
    using call_swap_effect [OF here there, of "\<lambda>r. mem m (b + field r)" ret] by blast
  have way_back: "\<exists>m3. call_swap c a ret2 m2 = Some m3 \<and> rip m3 = ret \<and> regs m3 RSP = regs m RSP
          \<and> (\<forall>r \<in> {RBX, RBP, R12, R13, R14, R15}. regs m3 r = regs m r)
          \<and> (\<forall>x. x \<notin> context_at c \<union> {regs m2 RSP - 8, regs m RSP - 8} \<longrightarrow> mem m3 x = mem m2 x)"
    if same: "\<forall>x \<in> context_at a. mem m2 x = mem m1 x"
      and sep: "apart c a (regs m2 RSP - 8)" "apart c a (regs m RSP - 8)" for c m2 ret2
  proof -
    have f: "mem m2 (a + field r) = g r" if "r \<in> set regs_t" for r
      using same in_context [OF that, of a] g(1) that by simp
    then have sp: "saved_sp a m2 = regs m RSP - 8" using f [of RSP] g(3) by (simp add: saved_sp_def regs_t_def)
    obtain m3 where m3: "call_swap c a ret2 m2 = Some m3" "rip m3 = g RET"
        "regs m3 = loaded g ((regs m2)(RSP := regs m2 RSP - 8, RDI := c, RSI := a, RAX := 0))"
        "\<forall>x. x \<notin> context_at c \<union> {regs m2 RSP - 8, saved_sp a m2} \<longrightarrow> mem m3 x = mem m2 x"
      using call_swap_effect [OF sep(1), of g ret2] sep(2) f unfolding sp by blast
    then show ?thesis using g(2-4) by (intro exI [of _ m3]) (simp add: loaded_def sp)
  qed
  show ?thesis
    by (rule exI [of _ m1]) (use m1 frame way_back in \<open>simp add: loaded_def saved_sp_def\<close>)
qed

lemma apart_commute: "apart a b sp = apart b a sp"
  by (auto simp: apart_def)

text \<open>
  C14: A resumed coroutine that yields gives control back as a call that returns. \<open>resume\<close> goes to
  where the context of the coroutine says, on the coroutine's stack. Whatever is executed
  there, if it leaves the context of the resuming coroutine and the link \<open>pre_co\<close> alone, the
  \<open>yield\<close> goes on right behind the \<open>resume\<close>, with the stack pointer and all callee-saved
  registers as they were before it, and nothing in memory changed but the context of the one
  that yields and the two return addresses.
\<close>

theorem resume_yield_roundtrip:
  assumes "apart this co (regs m RSP - 8)" and "apart this co (saved_sp co m)" and "this \<noteq> 0"
  shows "\<exists>m1. resume this co ret m = Some m1 \<and> rip m1 = mem m (co + field RET)
    \<and> regs m1 RSP = saved_sp co m + 8 \<and> regs m1 RDI = mem m (co + field RDI)
    \<and> (\<forall>m2 ret2. (\<forall>x \<in> context_at this. mem m2 x = mem m1 x) \<and> pre_co m2 co = pre_co m1 co
          \<and> apart this co (regs m2 RSP - 8) \<longrightarrow>
        (\<exists>m3. yield_co co ret2 m2 = Some m3 \<and> rip m3 = ret \<and> regs m3 RSP = regs m RSP
          \<and> (\<forall>r \<in> {RBX, RBP, R12, R13, R14, R15}. regs m3 r = regs m r)
          \<and> (\<forall>x. x \<notin> context_at co \<union> {regs m2 RSP - 8, regs m RSP - 8} \<longrightarrow> mem m3 x = mem m2 x)))"
proof -
  let ?m = "m\<lparr>pre_co := (pre_co m)(co := this)\<rparr>"
  have sp: "saved_sp co ?m = saved_sp co m" by (simp add: saved_sp_def)
  obtain m1 where m1: "call_swap this co ret ?m = Some m1" "rip m1 = mem m (co + field RET)"
      "regs m1 RSP = saved_sp co m + 8" "regs m1 RDI = mem m (co + field RDI)" "pre_co m1 co = this"
    and way_back: "\<forall>c m2 ret2. (\<forall>x \<in> context_at this. mem m2 x = mem m1 x) \<and> apart c this (regs m2 RSP - 8)
          \<and> apart c this (regs m RSP - 8) \<longrightarrow>
        (\<exists>m3. call_swap c this ret2 m2 = Some m3 \<and> rip m3 = ret \<and> regs m3 RSP = regs m RSP
          \<and> (\<forall>r \<in> {RBX, RBP, R12, R13, R14, R15}. regs m3 r = regs m r)
          \<and> (\<forall>x. x \<notin> context_at c \<union> {regs m2 RSP - 8, regs m RSP - 8} \<longrightarrow> mem m3 x = mem m2 x))"
    using swap_back [of this co ?m ret] assms(1,2) unfolding sp by auto
  have "yield_co co ret2 m2 = call_swap co this ret2 m2" if "pre_co m2 co = pre_co m1 co" for m2 ret2
    using that m1(5) assms(3) by (simp add: yield_co_def)
  then show ?thesis
    using m1(1-4) way_back assms(1) apart_commute by (intro exI [of _ m1]) (simp add: resume_def)
qed

definition two_contexts :: machine where
  "two_contexts = \<lparr>regs = (\<lambda>_. 0)(RSP := 0x7008), mem = (\<lambda>_. 0)(0x2048 := 0x4000, 0x2068 := 0x9000),
     rip = 0, pre_co = (\<lambda>_. 0)\<rparr>"

lemma apart_numbers:
  "apart 0x1000 0x2000 0x7000" "apart 0x1000 0x2000 0x9000" "apart 0x1000 0x2000 0x8FF0"
  by (simp_all add: apart_def context_at_eq aligned_def)

theorem resume_yield_roundtrip_witness:
  "\<exists>m1 m3. resume 0x1000 0x2000 0x4444 two_contexts = Some m1 \<and> rip m1 = 0x4000
    \<and> yield_co 0x2000 0x5555 (m1\<lparr>regs := (regs m1)(RSP := 0x8FF8)\<rparr>) = Some m3
    \<and> rip m3 = 0x4444 \<and> regs m3 RSP = 0x7008"
proof -
  have m: "regs two_contexts RSP - 8 = 0x7000" "saved_sp 0x2000 two_contexts = 0x9000"
    "mem two_contexts (0x2000 + field RET) = 0x4000" "regs two_contexts RSP = 0x7008"
    by (simp_all add: two_contexts_def saved_sp_def)
  have hyps: "apart 0x1000 0x2000 (regs two_contexts RSP - 8)" "apart 0x1000 0x2000 (saved_sp 0x2000 two_contexts)"
    "(0x1000 :: 64 word) \<noteq> 0" using apart_numbers by (simp_all add: m)
  obtain m1 where m1: "resume 0x1000 0x2000 0x4444 two_contexts = Some m1" "rip m1 = 0x4000"
    and way_back: "\<forall>m2 ret2. (\<forall>x \<in> context_at 0x1000. mem m2 x = mem m1 x) \<and> pre_co m2 0x2000 = pre_co m1 0x2000
          \<and> apart 0x1000 0x2000 (regs m2 RSP - 8) \<longrightarrow>
        (\<exists>m3. yield_co 0x2000 ret2 m2 = Some m3 \<and> rip m3 = 0x4444 \<and> regs m3 RSP = 0x7008)"
    using resume_yield_roundtrip [OF hyps, of "0x4444", unfolded m] by blast
  have "apart 0x1000 0x2000 (regs (m1\<lparr>regs := (regs m1)(RSP := 0x8FF8)\<rparr>) RSP - 8)" using apart_numbers by simp
  then show ?thesis using m1 way_back by fastforce
qed

section \<open>The first switch\<close>

lemma stack_base_facts:
  assumes "unat st_ptr + 131072 \<le> 2 ^ 64"
  shows "unat (stack_base st_ptr) mod 16 = 0"
    and "unat st_ptr + 131072 < unat (stack_base st_ptr) + 24" and "unat (stack_base st_ptr) + 8 \<le> unat st_ptr + 131072"
    and "unat st_ptr mod 16 = 0 \<Longrightarrow> unat (stack_base st_ptr) + 16 = unat st_ptr + 131072"
proof -
  let ?top = "st_ptr + st_size - 8"
  have top: "unat ?top = unat st_ptr + 131064"
  proof -
    have eq: "?top = st_ptr + 131064" by (simp add: st_size_def)
    show ?thesis unfolding eq using assms by (simp add: unat_word_ariths)
  qed
  have mask: "stack_base st_ptr = ?top - ?top mod 16"
  proof -
    have "stack_base st_ptr = and ?top (not (mask 4))"
      using minus_exp_eq_not_mask [of 4, where 'a = "64 word"] by (simp add: stack_base_def)
    also have "\<dots> = and ?top (not (take_bit 4 ?top))"
      by (rule bit_eqI) (auto simp: bit_simps)
    also have "\<dots> = ?top - take_bit 4 ?top"
      by (rule disjunctive_diff_eq_and_not [symmetric]) (rule bit_eqI, simp add: bit_simps)
    also have "\<dots> = ?top - ?top mod 16" by (simp add: take_bit_eq_mod)
    finally show ?thesis .
  qed
  have base: "unat (stack_base st_ptr) = unat ?top - unat ?top mod 16"
    unfolding mask by (subst unat_sub) (simp_all add: word_le_nat_alt unat_mod_distrib)
  show "unat (stack_base st_ptr) mod 16 = 0" unfolding base by (metis minus_mod_eq_mult_div mod_mult_self1_is_0)
  show "unat st_ptr + 131072 < unat (stack_base st_ptr) + 24"
    unfolding base top using mod_less_divisor [of 16 "unat st_ptr + 131064"] by linarith
  show "unat (stack_base st_ptr) + 8 \<le> unat st_ptr + 131072" unfolding base top by linarith
  show "unat st_ptr mod 16 = 0 \<Longrightarrow> unat (stack_base st_ptr) + 16 = unat st_ptr + 131072"
  proof -
    assume "unat st_ptr mod 16 = 0"
    then have "(unat st_ptr + 131064) mod 16 = (0 + 131064) mod 16" by (metis mod_add_left_eq)
    then show ?thesis unfolding base top by simp
  qed
qed

text \<open>
  C31: How a coroutine starts. After \<open>set_callback\<close> on a 16-byte aligned block, the first
  \<open>resume\<close> enters \<open>co_fun\<close> with the coroutine as its argument and the stack pointer the calling
  convention asks for, 8 modulo 16, on the last word of the block: all below it is free, and
  no word beyond the block is touched. The null that \<open>set_callback\<close> leaves as a return address is
  overwritten by the switch; \<open>co_fun\<close> would return to whatever that last word of the block held.
\<close>

theorem first_entry:
  assumes block: "unat st_ptr + 131072 \<le> 2 ^ 64" "unat st_ptr mod 16 = 0"
    and sep: "apart this co (regs m RSP - 8)" "apart this co (stack_base st_ptr)" "apart this co (stack_base st_ptr + 8)"
    and top: "regs m RSP - 8 \<noteq> stack_base st_ptr + 8"
  shows "\<exists>m1. resume this co ret (set_callback fn co st_ptr m) = Some m1 \<and> rip m1 = fn \<and> regs m1 RDI = co
    \<and> unat (regs m1 RSP) mod 16 = 8 \<and> unat (regs m1 RSP) + 8 = unat st_ptr + 131072
    \<and> mem m1 (regs m1 RSP) = mem m (regs m1 RSP)"
proof -
  let ?sp = "stack_base st_ptr" and ?m = "(set_callback fn co st_ptr m)\<lparr>pre_co := (pre_co m)(co := this)\<rparr>"
  note base = stack_base_facts [OF block(1)]
  have fields: "co + 104 \<noteq> ?sp" "co + 72 \<noteq> ?sp" "co + 56 \<noteq> ?sp"
    using sep(2) by (auto simp: apart_def context_at_eq)
  have ctx: "mem ?m (co + field RET) = fn" "mem ?m (co + field RDI) = co" "saved_sp co ?m = ?sp" "regs ?m = regs m"
    by (simp_all add: set_callback_def Let_def saved_sp_def)
  have apart: "apart this co (regs ?m RSP - 8)" "apart this co (saved_sp co ?m)" using sep(1,2) by (simp_all only: ctx)
  obtain m1 where call: "call_swap this co ret ?m = Some m1" "rip m1 = mem ?m (co + field RET)"
      "regs m1 = loaded (\<lambda>r. mem ?m (co + field r)) ((regs ?m)(RSP := regs ?m RSP - 8, RDI := this, RSI := co, RAX := 0))"
      "\<forall>x. x \<notin> context_at this \<union> {regs ?m RSP - 8, saved_sp co ?m} \<longrightarrow> mem m1 x = mem ?m x"
    using call_swap_effect [OF apart, of "\<lambda>r. mem ?m (co + field r)" ret] by blast
  have m1: "call_swap this co ret ?m = Some m1" "rip m1 = fn" "regs m1 RDI = co" "regs m1 RSP = ?sp + 8"
      "\<forall>x. x \<notin> context_at this \<union> {regs m RSP - 8, ?sp} \<longrightarrow> mem m1 x = mem ?m x"
    using call ctx by (simp_all add: loaded_def saved_sp_def)
  have rsp: "unat (?sp + 8) = unat ?sp + 8" using base(4) block by (simp add: unat_word_ariths)
  have "?sp + 8 \<notin> context_at this \<union> {regs m RSP - 8, ?sp}" using sep(3) top by (auto simp: apart_def)
  then have "mem m1 (?sp + 8) = mem ?m (?sp + 8)" using m1(5) by blast
  also have "\<dots> = mem m (?sp + 8)"
  proof -
    have "?sp + 8 \<notin> context_at co" using sep(3) by (simp add: apart_def)
    moreover have "?sp + 8 \<noteq> co + 104" "?sp + 8 \<noteq> co + 72" "?sp + 8 \<noteq> co + 56"
      using \<open>?sp + 8 \<notin> context_at co\<close> by (simp_all add: context_at_eq)
    ultimately show ?thesis by (simp add: set_callback_def Let_def)
  qed
  finally have word: "mem m1 (regs m1 RSP) = mem m (regs m1 RSP)" by (simp add: m1(4))
  have "unat (regs m1 RSP) mod 16 = 8" using base(1) by (simp add: m1(4) rsp mod_add_eq [symmetric])
  moreover have "unat (regs m1 RSP) + 8 = unat st_ptr + 131072" using base(4) block(2) by (simp add: m1(4) rsp)
  moreover have "resume this co ret (set_callback fn co st_ptr m) = Some m1"
    using m1(1) by (simp add: resume_def set_callback_def Let_def)
  ultimately show ?thesis using m1(2,3) word by blast
qed

theorem first_entry_witness:
  "\<exists>m1. resume 0x1000 0x2000 0x4444 (set_callback 0x4000 0x2000 0x100000 two_contexts) = Some m1
    \<and> rip m1 = 0x4000 \<and> regs m1 RDI = 0x2000 \<and> unat (regs m1 RSP) = 0x11FFF8"
proof -
  have base: "stack_base 0x100000 = 0x11FFF0" by (simp add: stack_base_def st_size_def)
  have "apart 0x1000 0x2000 0x11FFF0" "apart 0x1000 0x2000 0x11FFF8"
    by (simp_all add: apart_def context_at_eq aligned_def)
  moreover have "regs two_contexts RSP - 8 = 0x7000" by (simp add: two_contexts_def)
  ultimately show ?thesis
    using first_entry [where st_ptr = "0x100000" and this = "0x1000" and co = "0x2000" and m = two_contexts and ret = "0x4444" and fn = "0x4000"] apart_numbers(1)
    by (simp add: base) blast
qed

end
