(* ===== verification/Spec2Isabelle.thy ===== *)
theory Spec2Isabelle
  imports CoRaces HttpCoroutine HttpResponses LoggerThread LoopTimers TcpServer TcpClient LoopObject LoopPools TcpLoop ServerRun Formats ContextSwitch
begin

text \<open>
  A verification of SimpleWebServer, a reactor-based web server in C++ with a callback and a
  coroutine interface. All paths are below src/src.

  \<^bold>\<open>The program.\<close> An event loop (reactor/) waits in epoll for descriptors, calls the callbacks of
  their channels, and then those other threads have posted; an eventfd wakes it, a timer
  descriptor drives its timer wheel (timer/). On top of it stand two servers. The callback
  server (tcp/TcpServer.cpp) keeps a table of connections (tcp/TcpConnection.cpp), each with a
  read and a write buffer (base/Buffer.cpp) and user callbacks; the client (tcp/TcpClient.cpp)
  connects with retries (tcp/TCPConnector.cpp) and has one connection. The coroutine server
  (tcp/TCPServer2.cpp) spawns a coroutine for every accepted descriptor on the scheduler
  (co/Coroutine.cpp) of one of its loops; the calls of co/co_fun.cpp suspend a coroutine until
  its event or timer makes it ready, and co/co_swap.s switches stacks. The HTTP server
  (http/HTTPServer2.cpp) is the user of the coroutine server: it reads a request into a buffer,
  parses it incrementally and writes the answer (http/HTTPMessageParser.cpp). All parts log
  through a block-buffered asynchronous logger (logger/).

  \<^bold>\<open>The theories.\<close>
  \<^item> \<open>Prelude\<close>: errors, results, \<open>assertm\<close> and \<open>assert\<close>, byte blocks, the results of \<open>read\<close> and
    \<open>write\<close>, and the collections \<open>slice_simps\<close>, \<open>wf_intros\<close>, \<open>spec_simps\<close>.
  \<^item> \<open>BaseBuffer\<close>: \<open>Buffer\<close> on a vector with size and capacity. Lemmas: shape and exact results
    of every operation, what a receiving buffer holds, what a reallocation destroys. Interfaces
    \<open>recv_queue\<close> and \<open>send_queue\<close>, both interpreted on the buffer.
  \<^item> \<open>HttpParser\<close>, \<open>HttpStages\<close>, \<open>HttpMessages\<close>, \<open>HttpFailures\<close>, \<open>HttpResponses\<close>: the states of the
    parser and the parser; then per state what it does to its part of a text, composed to
    requests and responses, round trips with the writer, cutting a text into two calls, and
    the inputs on which the parser fails.
  \<^item> \<open>HttpWriter\<close>: the writer over the interface \<open>message_sink\<close>, interpreted on a string and, in
    \<open>HttpServer\<close>, on the buffer and the descriptor. \<open>HttpServer\<close>: the handler of a connection.
  \<^item> \<open>TimerWheel\<close>: the wheel, its refinement to an agenda (a list of due times and timers), the
    interface \<open>timer_queue\<close>, and the states of a wheel.
  \<^item> \<open>AsyncLogger\<close>: levels, blocks, buffering, flushing, rolling; the interface \<open>log_store\<close>.
    \<open>LogLines\<close>: the text of a line. \<open>LoggerThread\<close>: the flushing thread beside the threads that
    log, and the destructor.
  \<^item> \<open>Channels\<close>: channels and the poller over the interest list of epoll; the invariant that
    they agree, what one poll calls, and a poll that reads behind its event list.
  \<^item> \<open>EventLoop\<close>: the loop's thread and other threads, interleaved between any two statements.
    \<open>LoopTimers\<close>: programs over the operations under the mutex, and the timer descriptor.
    \<open>LoopObject\<close>: the loop as one object, with its poller, its two channels of its own, the
    wheel and the list; a turn of it refines the interleaving of \<open>EventLoop\<close>.
  \<^item> \<open>Coroutines\<close>: programs of coroutines, pool, scheduler, calls. \<open>Scheduling\<close>: their invariant,
    who is woken, sleeping, and the double wake-up. \<open>ContextSwitch\<close>: the machine code below.
    \<open>CoRaces\<close>: the scheduler and the counter of the pool once more, a statement at a time, with the
    calls of other threads between any two of them; what that loses, when it loses nothing, and
    that the operations of \<open>Coroutines\<close> are runs of these statements.
  \<^item> \<open>HttpCoroutine\<close>: the handler of \<open>HttpServer\<close> as a program of \<open>Coroutines\<close>, the agreement of the
    two, and a connection from end to end on the scheduler.
  \<^item> \<open>TcpConnection\<close>: a connection, its handlers and reachable states. \<open>TcpServer\<close>: the table
    and the acceptor. \<open>TcpClient\<close>: who owns the descriptor of a client.
  \<^item> \<open>Listening\<close>: the calls with which a server starts listening, and the acceptor on its channel.
    \<open>TcpLoop\<close>: the callback server on the poller of \<open>Channels\<close>, with the connections of
    \<open>TcpConnection\<close>; it refines the table of \<open>TcpServer\<close>.
  \<^item> \<open>CoServer\<close>: schedulers that share one pool of coroutines, the round by which they are given
    connections (over the interface \<open>spawner\<close>, interpreted on them), the coroutine server from its
    start and its accept loop. \<open>LoopPools\<close>: the pool of loops with its start, after which each
    thread enters its loop at a time of its own, stop, join and destructor, and the attempts of
    the connector. \<open>ServerRun\<close>: the coroutine server and the HTTP
    server with both pools, from their constructors to the end of \<open>run\<close>.
  \<^item> \<open>Formats\<close>: \<open>to_format_str\<close>, what it shows of a connection, and the clock.

  \<^bold>\<open>Conventions.\<close> An operation that can fail returns \<open>cerror + 'a\<close>, with a constructor for every way
  to end: a failed assertion, an exception (none is caught in the program), a use of an object
  that is gone, a wild read, an empty function, a mutex locked twice, a thread assigned over a
  joinable one, a call that loops for ever. \<open>'a res option\<close> adds
  non-termination where the code loops. Pointers into a block are offsets; objects in a heap
  have numbers as addresses. Integers have the width of the code where it matters (\<open>uint64_t\<close>
  times, addresses and registers are 64-bit words), and are \<open>int\<close> or \<open>nat\<close> elsewhere.
  System calls are modelled by what they return, which is an argument, and epoll, eventfd and
  timerfd by their documented rules. User callbacks are programs over the public operations
  (\<open>TcpConnection\<close>, \<open>LoopTimers\<close>, \<open>Coroutines\<close>) or functions (\<open>Channels\<close>, \<open>TimerWheel\<close>). Logging from
  within the other components, addresses and port numbers are left out.

  \<^bold>\<open>Termination and bounds.\<close> The loops of the wheel are partial functions, shown to end for a well-formed
  wheel. \<open>handle_loop\<close> is total: what a resumed coroutine leaves is a part of its body, and the
  queue decreases as a multiset of programs. The loop's thread is a step relation; \<open>loop_moves\<close>
  counts its moves, and five more than there are callbacks are enough for a round, also for
  joining a stopped thread (\<open>wait_stop\<close>, fuel per thread; a wait that does not end is \<open>None\<close> for
  every fuel). The
  connector has the fuel 7, which is enough for any results of \<open>connect\<close>. \<open>write_buf\<close> and the
  flushing of all blocks have the environment's results as their fuel.

  \<^bold>\<open>What is not modelled.\<close> Addresses (\<open>inet_pton\<close>, \<open>inet_ntop\<close>); printing to the terminal; the C++ memory
  model: \<open>is_loop\<close>, a plain bool written by other threads, is taken to be sequentially consistent, and
  so are the fields of a scheduler in \<open>CoRaces\<close>; outside \<open>CoRaces\<close> an accept and a callback of a loop
  run as a whole, which the code does not ensure; the endless loop of \<open>accept_cb\<close> as a program of a
  coroutine (a program is finite: the turns of that loop are those of \<open>CoServer\<close>); the floating point state in a switch of coroutines; logger/blockqueue.cpp, which no
  part uses and which cannot be instantiated.
\<close>

end
